(* ===== verification/Prelude.thy ===== *)
theory Prelude
  imports Main "HOL-Library.Word" "HOL-Library.Char_ord" "HOL-Library.List_Lexorder"
begin

text \<open>
  The vocabulary the components share: the collections of hints, Rust's \<open>Result\<close> as a sum,
  saturating 64-bit arithmetic, text as the bytes Rust's strings hold (UTF-8, so the length of a
  text is its length in bytes), the decimal forms \<open>to_string\<close> and \<open>str::parse\<close> use, and
  \<open>String::from_utf8\<close>'s validity check.
\<close>

named_theorems rust_simps "equations of the Rust primitives the model uses"
named_theorems model_intros "preservation facts of the components' invariants"

section \<open>Results\<close>

type_synonym ('e, 'a) result = "'e + 'a"

text \<open>Rust's \<open>?\<close>: go on with the value, or return the error.\<close>

fun and_then :: "('e, 'a) result \<Rightarrow> ('a \<Rightarrow> ('e, 'b) result) \<Rightarrow> ('e, 'b) result" where
  "and_then (Inl e) f = Inl e"
| "and_then (Inr x) f = f x"

lemma and_then_Inr_iff: "and_then r f = Inr y \<longleftrightarrow> (\<exists>x. r = Inr x \<and> f x = Inr y)"
  by (cases r) auto

lemma and_then_Inl_iff: "and_then r f = Inl e \<longleftrightarrow> r = Inl e \<or> (\<exists>x. r = Inr x \<and> f x = Inl e)"
  by (cases r) auto

lemma and_then_cong [fundef_cong]:
  "r = r' \<Longrightarrow> (\<And>x. r' = Inr x \<Longrightarrow> f x = g x) \<Longrightarrow> and_then r f = and_then r' g"
  by (cases r') auto

fun map_err :: "('e \<Rightarrow> 'f) \<Rightarrow> ('e, 'a) result \<Rightarrow> ('f, 'a) result" where
  "map_err f (Inl e) = Inl (f e)"
| "map_err f (Inr x) = Inr x"

lemma map_err_Inr_iff [simp]: "map_err f r = Inr y \<longleftrightarrow> r = Inr y"
  by (cases r) auto

text \<open>\<open>returns P r\<close>: when \<open>r\<close> is a value, the value satisfies \<open>P\<close>.\<close>

definition returns :: "('a \<Rightarrow> bool) \<Rightarrow> ('e, 'a) result \<Rightarrow> bool" where
  "returns P r \<longleftrightarrow> (\<forall>x. r = Inr x \<longrightarrow> P x)"

lemma returns_simps [simp]:
  "returns P (Inl e)"
  "returns P (Inr x) \<longleftrightarrow> P x"
  "returns P (and_then r f) \<longleftrightarrow> returns (\<lambda>x. returns P (f x)) r"
  by (cases r; auto simp: returns_def)+

lemma returns_if [simp]: "returns P (if b then r else r') \<longleftrightarrow> (if b then returns P r else returns P r')"
  by simp

lemma returnsD: "returns P r \<Longrightarrow> r = Inr x \<Longrightarrow> P x"
  by (simp add: returns_def)

lemma returnsI: "(\<And>x. r = Inr x \<Longrightarrow> P x) \<Longrightarrow> returns P r"
  by (simp add: returns_def)

lemma returns_mono: "returns Q r \<Longrightarrow> (\<And>x. Q x \<Longrightarrow> P x) \<Longrightarrow> returns P r"
  by (simp add: returns_def)

definition ok_or :: "'e \<Rightarrow> 'a option \<Rightarrow> ('e, 'a) result" where
  "ok_or e v = (case v of None \<Rightarrow> Inl e | Some x \<Rightarrow> Inr x)"

definition is_ok :: "('e, 'a) result \<Rightarrow> bool" where
  "is_ok r = (case r of Inl _ \<Rightarrow> False | Inr _ \<Rightarrow> True)"

lemma is_ok_simps [simp]: "is_ok (Inr x)" "\<not> is_ok (Inl e)"
  by (simp_all add: is_ok_def)

section \<open>64-bit unsigned integers\<close>

definition u64_max :: nat where
  "u64_max = 18446744073709551615"

lemma u64_max_eq: "u64_max = 2 ^ 64 - 1"
  by (simp add: u64_max_def)

text \<open>\<open>u64::saturating_add\<close> and \<open>u64::saturating_mul\<close>.\<close>

definition sat_add :: "nat \<Rightarrow> nat \<Rightarrow> nat" where
  "sat_add a b = min (a + b) u64_max"

definition sat_mul :: "nat \<Rightarrow> nat \<Rightarrow> nat" where
  "sat_mul a b = min (a * b) u64_max"

lemma sat_add_le_max [simp]: "sat_add a b \<le> u64_max"
  by (simp add: sat_add_def)

lemma sat_mul_le_max [simp]: "sat_mul a b \<le> u64_max"
  by (simp add: sat_mul_def)

lemma sat_add_min: "sat_add (min a u64_max) b = min (a + b) u64_max"
  by (simp add: sat_add_def)

lemma sat_add_min_right: "sat_add a (min b u64_max) = min (a + b) u64_max"
  by (simp add: sat_add_def)

lemma sat_add_le: "sat_add a b \<le> c \<Longrightarrow> c < u64_max \<Longrightarrow> a + b \<le> c"
  by (auto simp: sat_add_def min_def split: if_splits)

lemma sat_add_exact: "a + b \<le> u64_max \<Longrightarrow> sat_add a b = a + b"
  by (simp add: sat_add_def)

lemma sat_add_assoc: "sat_add (sat_add a b) c = sat_add a (sat_add b c)"
  by (auto simp: sat_add_def min_def)

lemma sat_add_comm: "sat_add a b = sat_add b a"
  by (simp add: sat_add_def add.commute)

lemma sat_add_mono: "a \<le> a' \<Longrightarrow> b \<le> b' \<Longrightarrow> sat_add a b \<le> sat_add a' b'"
  unfolding sat_add_def by linarith

lemma sat_add_ge1: "a \<le> u64_max \<Longrightarrow> a \<le> sat_add a b"
  by (simp add: sat_add_def)

lemma sat_add_0 [simp]: "a \<le> u64_max \<Longrightarrow> sat_add a 0 = a" "a \<le> u64_max \<Longrightarrow> sat_add 0 a = a"
  by (simp_all add: sat_add_def)

section \<open>Text\<close>

text \<open>Bytes are \<open>char\<close>s, whose codes run from 0 to 255; a text is the list of its bytes.\<close>

type_synonym str = string

abbreviation byte_of :: "char \<Rightarrow> nat" where
  "byte_of c \<equiv> of_char c"

definition between :: "nat \<Rightarrow> nat \<Rightarrow> char \<Rightarrow> bool" where
  "between lo hi c \<longleftrightarrow> lo \<le> byte_of c \<and> byte_of c \<le> hi"

abbreviation cont_byte :: "char \<Rightarrow> bool" where
  "cont_byte c \<equiv> between 0x80 0xBF c"

text \<open>
  What \<open>String::from_utf8\<close> accepts: well-formed UTF-8, with no overlong form, no surrogate and
  nothing past U+10FFFF.
\<close>

fun utf8_ok :: "str \<Rightarrow> bool" where
  "utf8_ok [] = True"
| "utf8_ok (a # s) =
     (if between 0 0x7F a then utf8_ok s
      else case s of
        [] \<Rightarrow> False
      | b # s1 \<Rightarrow>
          (if between 0xC2 0xDF a then cont_byte b \<and> utf8_ok s1
           else case s1 of
             [] \<Rightarrow> False
           | c # s2 \<Rightarrow>
               (if between 0xE0 0xEF a then
                  (if byte_of a = 0xE0 then between 0xA0 0xBF b
                   else if byte_of a = 0xED then between 0x80 0x9F b
                   else cont_byte b)
                  \<and> cont_byte c \<and> utf8_ok s2
                else case s2 of
                  [] \<Rightarrow> False
                | d # s3 \<Rightarrow>
                    between 0xF0 0xF4 a
                    \<and> (if byte_of a = 0xF0 then between 0x90 0xBF b
                       else if byte_of a = 0xF4 then between 0x80 0x8F b
                       else cont_byte b)
                    \<and> cont_byte c \<and> cont_byte d \<and> utf8_ok s3)))"

declare utf8_ok.simps(2) [simp del]

definition is_ascii :: "str \<Rightarrow> bool" where
  "is_ascii s \<longleftrightarrow> list_all (between 0 0x7F) s"

lemma utf8_ok_ascii: "is_ascii s \<Longrightarrow> utf8_ok s"
  by (induction s) (auto simp: is_ascii_def utf8_ok.simps(2))

definition ascii_lower :: "char \<Rightarrow> char" where
  "ascii_lower c = (if between 0x41 0x5A c then char_of (byte_of c + 32) else c)"

definition to_ascii_lowercase :: "str \<Rightarrow> str" where
  "to_ascii_lowercase s = map ascii_lower s"

definition starts_with :: "str \<Rightarrow> str \<Rightarrow> bool" where
  "starts_with s p \<longleftrightarrow> take (length p) s = p"

definition strip_prefix :: "str \<Rightarrow> str \<Rightarrow> str option" where
  "strip_prefix p s = (if starts_with s p then Some (drop (length p) s) else None)"

definition strip_suffix :: "str \<Rightarrow> str \<Rightarrow> str option" where
  "strip_suffix p s = map_option rev (strip_prefix (rev p) (rev s))"

lemma starts_with_append [simp]: "starts_with (p @ s) p"
  by (simp add: starts_with_def)

lemma starts_with_iff: "starts_with s p \<longleftrightarrow> (\<exists>t. s = p @ t)"
  by (auto simp: starts_with_def) (metis append_take_drop_id)

section \<open>Decimal numbers\<close>

definition digit :: "nat \<Rightarrow> char" where
  "digit d = char_of (48 + d)"

definition is_digit :: "char \<Rightarrow> bool" where
  "is_digit c \<longleftrightarrow> between 48 57 c"

definition digit_value :: "char \<Rightarrow> nat" where
  "digit_value c = byte_of c - 48"

text \<open>\<open>to_string\<close> of an unsigned integer.\<close>

fun show_nat :: "nat \<Rightarrow> str" where
  "show_nat n = (if n < 10 then [digit n] else show_nat (n div 10) @ [digit (n mod 10)])"

declare show_nat.simps [simp del]

definition digits_value :: "str \<Rightarrow> nat" where
  "digits_value s = foldl (\<lambda>acc c. acc * 10 + digit_value c) 0 s"

text \<open>
  \<open>str::parse\<close> to an unsigned integer no greater than \<open>bound\<close>: one optional plus sign, then
  digits alone, at least one, and no overflow.
\<close>

definition parse_uint :: "nat \<Rightarrow> str \<Rightarrow> nat option" where
  "parse_uint bound s =
     (let ds = (case strip_prefix ''+'' s of Some r \<Rightarrow> r | None \<Rightarrow> s)
      in if ds \<noteq> [] \<and> list_all is_digit ds \<and> digits_value ds \<le> bound
         then Some (digits_value ds) else None)"

lemma digit_props:
  assumes "d < 10"
  shows "is_digit (digit d)" "digit_value (digit d) = d"
proof -
  have "of_char (char_of (48 + d) :: char) = (48 + d :: nat)"
    using assms by (simp add: of_char_of)
  then show "is_digit (digit d)" "digit_value (digit d) = d"
    using assms by (simp_all add: digit_def is_digit_def digit_value_def between_def)
qed

lemma show_nat_nonempty [simp]: "show_nat n \<noteq> []"
  by (subst show_nat.simps) simp

lemma show_nat_digits: "list_all is_digit (show_nat n)"
proof (induction n rule: show_nat.induct)
  case (1 n)
  then show ?case
    by (subst show_nat.simps) (auto simp: digit_props)
qed

lemma digits_value_snoc: "digits_value (s @ [c]) = digits_value s * 10 + digit_value c"
  by (simp add: digits_value_def)

lemma digits_value_show [simp]: "digits_value (show_nat n) = n"
proof (induction n rule: show_nat.induct)
  case (1 n)
  show ?case
  proof (cases "n < 10")
    case True
    then show ?thesis by (subst show_nat.simps) (simp add: digits_value_def digit_props)
  next
    case False
    with "1.IH" show ?thesis
      by (subst show_nat.simps) (simp add: digits_value_snoc digit_props)
  qed
qed

lemma digit_not_plus: "is_digit c \<Longrightarrow> c \<noteq> CHR ''+''"
  by (auto simp: is_digit_def between_def)

text \<open>What \<open>to_string\<close> wrote is what \<open>parse\<close> reads.\<close>

lemma parse_uint_show: "n \<le> bound \<Longrightarrow> parse_uint bound (show_nat n) = Some n"
proof -
  assume le: "n \<le> bound"
  obtain c cs where s: "show_nat n = c # cs"
    by (meson neq_Nil_conv show_nat_nonempty)
  with show_nat_digits [of n] have "c \<noteq> CHR ''+''"
    by (auto dest: digit_not_plus)
  with s have "strip_prefix ''+'' (show_nat n) = None"
    by (simp add: strip_prefix_def starts_with_def)
  with le show ?thesis
    by (simp add: parse_uint_def show_nat_digits)
qed

lemma parse_uint_bound: "parse_uint bound s = Some n \<Longrightarrow> n \<le> bound"
  by (auto simp: parse_uint_def Let_def split: if_splits)

section \<open>Whitespace\<close>

text \<open>
  \<open>str::trim\<close> drops the code points Unicode calls white space. \<open>space_head\<close> is the number of
  bytes of the white-space character a text starts with, 0 when it starts with none.
\<close>

definition space_head :: "str \<Rightarrow> nat" where
  "space_head s =
     (case map byte_of s of
        a # b # c # _ \<Rightarrow>
          (if a \<in> {9, 10, 11, 12, 13, 32} then 1
           else if a = 0xC2 \<and> b \<in> {0x85, 0xA0} then 2
           else if a = 0xE1 \<and> b = 0x9A \<and> c = 0x80 then 3
           else if a = 0xE2 \<and> b = 0x80 \<and> (0x80 \<le> c \<and> c \<le> 0x8A \<or> c \<in> {0xA8, 0xA9, 0xAF}) then 3
           else if a = 0xE2 \<and> b = 0x81 \<and> c = 0x9F then 3
           else if a = 0xE3 \<and> b = 0x80 \<and> c = 0x80 then 3
           else 0)
      | [a, b] \<Rightarrow>
          (if a \<in> {9, 10, 11, 12, 13, 32} then 1
           else if a = 0xC2 \<and> b \<in> {0x85, 0xA0} then 2 else 0)
      | [a] \<Rightarrow> (if a \<in> {9, 10, 11, 12, 13, 32} then 1 else 0)
      | [] \<Rightarrow> 0)"

function trim_start :: "str \<Rightarrow> str" where
  "trim_start s = (if space_head s = 0 then s else trim_start (drop (space_head s) s))"
  by pat_completeness auto
termination
proof (relation "measure length")
  fix s :: str
  assume "space_head s \<noteq> 0"
  moreover from this have "s \<noteq> []"
    by (auto simp: space_head_def)
  ultimately show "(drop (space_head s) s, s) \<in> measure length"
    by simp
qed simp

declare trim_start.simps [simp del]

text \<open>The end is trimmed one character at a time: the last character is the last one, two or three bytes.\<close>

definition space_tail :: "str \<Rightarrow> nat" where
  "space_tail s =
     (let n = length s in
      if n \<ge> 1 \<and> space_head (drop (n - 1) s) = 1 then 1
      else if n \<ge> 2 \<and> space_head (drop (n - 2) s) = 2 then 2
      else if n \<ge> 3 \<and> space_head (drop (n - 3) s) = 3 then 3
      else 0)"

function trim_end :: "str \<Rightarrow> str" where
  "trim_end s = (if space_tail s = 0 then s else trim_end (take (length s - space_tail s) s))"
  by pat_completeness auto
termination
proof (relation "measure length")
  fix s :: str
  assume "space_tail s \<noteq> 0"
  then show "(take (length s - space_tail s) s, s) \<in> measure length"
    by (auto simp: space_tail_def Let_def split: if_splits)
qed simp

declare trim_end.simps [simp del]

definition trim :: "str \<Rightarrow> str" where
  "trim s = trim_end (trim_start s)"

lemma space_head_digit: "is_digit c \<Longrightarrow> space_head (c # s) = 0"
  by (cases s; cases "tl s")
    (auto simp: space_head_def is_digit_def between_def split: list.splits)

lemma trim_digits:
  assumes "s \<noteq> []" and "list_all is_digit s"
  shows "trim s = s"
proof -
  from assms obtain c r where c: "s = c # r" "is_digit c" by (cases s) auto
  have 1: "trim_start s = s"
    by (subst trim_start.simps) (simp add: c space_head_digit)
  have drop_digit: "space_head (drop k s) = 0" if "k < length s" for k
  proof -
    have "drop k s = s ! k # drop (Suc k) s" using that by (simp add: Cons_nth_drop_Suc)
    moreover have "is_digit (s ! k)" using assms(2) that by (simp add: list_all_length)
    ultimately show ?thesis by (simp add: space_head_digit)
  qed
  have "space_tail s = 0"
    by (auto simp: space_tail_def Let_def drop_digit)
  then have "trim_end s = s"
    by (subst trim_end.simps) simp
  with 1 show ?thesis by (simp add: trim_def)
qed

section \<open>Splitting text\<close>

text \<open>\<open>str::split_once\<close> at the first occurrence, \<open>rsplit_once\<close> at a byte's last, \<open>split\<close> at a byte.\<close>

fun split_once :: "str \<Rightarrow> str \<Rightarrow> (str \<times> str) option" where
  "split_once pat [] = (if pat = [] then Some ([], []) else None)"
| "split_once pat (c # s) =
     (if starts_with (c # s) pat then Some ([], drop (length pat) (c # s))
      else map_option (\<lambda>(a, b). (c # a, b)) (split_once pat s))"

fun rsplit_once :: "char \<Rightarrow> str \<Rightarrow> (str \<times> str) option" where
  "rsplit_once d [] = None"
| "rsplit_once d (c # s) =
     (case rsplit_once d s of
        Some (a, b) \<Rightarrow> Some (c # a, b)
      | None \<Rightarrow> if c = d then Some ([], s) else None)"

fun split_at_char :: "char \<Rightarrow> str \<Rightarrow> str list" where
  "split_at_char d [] = [[]]"
| "split_at_char d (c # s) =
     (if c = d then [] # split_at_char d s
      else case split_at_char d s of [] \<Rightarrow> [[c]] | p # ps \<Rightarrow> (c # p) # ps)"

section \<open>Lists\<close>

text \<open>\<open>Iterator::position\<close>: the index of the first element satisfying a test.\<close>

fun position :: "('a \<Rightarrow> bool) \<Rightarrow> 'a list \<Rightarrow> nat option" where
  "position p [] = None"
| "position p (x # xs) = (if p x then Some 0 else map_option Suc (position p xs))"

lemma position_Some:
  "position p xs = Some i \<Longrightarrow> i < length xs \<and> p (xs ! i) \<and> (\<forall>j < i. \<not> p (xs ! j))"
proof (induction xs arbitrary: i)
  case (Cons x xs)
  then show ?case
    by (auto split: if_splits simp: nth_Cons less_Suc_eq_0_disj)
qed simp

lemma position_None: "position p xs = None \<longleftrightarrow> (\<forall>x \<in> set xs. \<not> p x)"
  by (induction xs) auto

lemma find_filter: "List.find p xs = (case filter p xs of [] \<Rightarrow> None | x # _ \<Rightarrow> Some x)"
  by (induction xs) auto

lemma find_keyed:
  "distinct (map f xs) \<Longrightarrow> List.find (\<lambda>x. f x = v) xs = Some y \<longleftrightarrow> y \<in> set xs \<and> f y = v"
  by (induction xs) force+

lemma replicate_counted: "replicate (numeral k) x = x # replicate (pred_numeral k) x"
  by (simp add: numeral_eq_Suc)

section \<open>Loops that may fail\<close>

text \<open>
  \<open>for x in xs { step(x)?; }\<close>: the steps in order, stopping at the first error. Every such loop
  of the code keeps an invariant its steps keep; the locale states that contract once, and each
  component interprets it on its own step and invariant.
\<close>

fun try_fold :: "('s \<Rightarrow> 'a \<Rightarrow> ('e, 's) result) \<Rightarrow> 's \<Rightarrow> 'a list \<Rightarrow> ('e, 's) result" where
  "try_fold step s [] = Inr s"
| "try_fold step s (x # xs) = and_then (step s x) (\<lambda>s'. try_fold step s' xs)"

lemma try_fold_append:
  "try_fold step s (xs @ ys) = and_then (try_fold step s xs) (\<lambda>s'. try_fold step s' ys)"
proof (induction xs arbitrary: s)
  case (Cons x xs)
  then show ?case by (cases "step s x") auto
qed simp

locale checked_step =
  fixes step :: "'s \<Rightarrow> 'a \<Rightarrow> ('e, 's) result"
    and inv :: "'s \<Rightarrow> bool"
  assumes step_inv: "inv s \<Longrightarrow> returns inv (step s x)"
begin

lemma run_inv: "inv s \<Longrightarrow> returns inv (try_fold step s xs)"
proof (induction xs arbitrary: s)
  case (Cons x xs)
  then show ?case using step_inv [OF Cons.prems, of x] by (auto intro: returns_mono)
qed simp

text \<open>A refused run stopped at a state that kept the invariant, on the element that was refused.\<close>

lemma run_error:
  "inv s \<Longrightarrow> try_fold step s xs = Inl e \<Longrightarrow>
   \<exists>ys x zs s'. xs = ys @ x # zs \<and> try_fold step s ys = Inr s' \<and> inv s' \<and> step s' x = Inl e"
proof (induction xs arbitrary: s)
  case (Cons x xs)
  show ?case
  proof (cases "step s x")
    case (Inl e')
    with Cons.prems show ?thesis
      by (intro exI [of _ "[]"]) auto
  next
    case (Inr s1)
    with Cons.prems have "inv s1" "try_fold step s1 xs = Inl e"
      using step_inv [OF Cons.prems(1), of x] by auto
    from Cons.IH [OF this] obtain ys y zs s2 where
      "xs = ys @ y # zs" "try_fold step s1 ys = Inr s2" "inv s2" "step s2 y = Inl e" by blast
    with Inr show ?thesis
      by (intro exI [of _ "x # ys"]) auto
  qed
qed simp

end

text \<open>A loop whose steps each do what a pure step does, as far as an abstraction sees, is its fold.\<close>

lemma try_fold_abs:
  fixes view :: "'s \<Rightarrow> 't"
  assumes "\<And>s x. returns (\<lambda>s'. view s' = f (view s) x) (step s x)"
  shows "returns (\<lambda>s'. view s' = foldl f (view s) xs) (try_fold step s xs)"
proof (induction xs arbitrary: s)
  case (Cons x xs)
  show ?case
  proof (cases "step s x")
    case (Inr s')
    with assms [of s x] Cons.IH [of s'] show ?thesis by simp
  qed simp
qed simp

text \<open>A loop whose every step succeeds is a plain fold.\<close>

lemma try_fold_total:
  "(\<And>s x. x \<in> set xs \<Longrightarrow> step s x = Inr (f s x)) \<Longrightarrow> try_fold step s xs = Inr (foldl f s xs)"
  by (induction xs arbitrary: s) auto

end
