(* ===== verification/Download_Error.thy ===== *)
theory Download_Error
  imports Prelude
begin

text \<open>
  \<open>src/geoip/download/mod.rs\<close>: the errors acquisition raises, how each prints, whether waiting
  can help (\<open>is_permanent\<close>) and which metric outcome it counts as (\<open>outcome\<close>). The payloads
  of errors from outside the crate (an HTTP error, an IO error, a task failure) are the text they
  print as. Counts, statuses and lengths are naturals.
\<close>

datatype download_error =
    Http str
  | UnexpectedStatus (err_url: str) (err_status: nat)
  | Io str
  | Join str
  | MissingCredential str str
  | ArchiveMemberMissing str
  | TooLarge str nat
  | NoDatabases str str
  | UnsupportedTier str str
  | ChecksumMismatch str str str
  | MalformedChecksum str
  | NotADatabase str
  | Busy str
  | NotEntitled str
  | Unparseable str str
  | CredentialRejected str nat str
  | RateLimited str "nat option"
  | Unpopulated str str
  | Undersized str nat nat nat
  | InvalidSetting str str
  | Truncated str nat nat
  | CoolingDown str nat

text \<open>The text an error displays, the \<open>#[error]\<close> attribute of its variant.\<close>

fun error_text :: "download_error \<Rightarrow> str" where
  "error_text (Http e) = ''HTTP request failed: '' @ e"
| "error_text (UnexpectedStatus url status) =
     ''download of '' @ url @ '' returned HTTP '' @ show_nat status"
| "error_text (Io e) = ''IO error: '' @ e"
| "error_text (Join e) = ''decompression task failed: '' @ e"
| "error_text (MissingCredential provider field) =
     ''provider '' @ provider @ '' requires '' @ field @ '' but it was not configured''"
| "error_text (ArchiveMemberMissing member) = member @ '' not found in the downloaded archive''"
| "error_text (TooLarge url limit) = url @ '' ran past the '' @ show_nat limit @ '' byte ceiling''"
| "error_text (NoDatabases provider kind) =
     ''no '' @ kind @ '' database available for provider '' @ provider"
| "error_text (UnsupportedTier provider tier) =
     ''the '' @ tier @ '' tier of provider '' @ provider @ '' is not modelled''"
| "error_text (ChecksumMismatch url expected actual) =
     ''download does not match the digest at '' @ url @ '': expected '' @ expected
       @ '', got '' @ actual"
| "error_text (MalformedChecksum url) = ''the digest at '' @ url @ '' is not a sha256''"
| "error_text (NotADatabase url) = url @ '' did not deliver a MaxMind DB''"
| "error_text (Busy path) = path @ '' is being fetched by another process''"
| "error_text (NotEntitled url) =
     url @ '' accepted the credential and refused the database; the account has no entitlement ''
       @ ''to it, so check the tier selected against the products the account holds''"
| "error_text (Unparseable path detail) =
     path @ '' does not parse as the table it states: '' @ detail"
| "error_text (CredentialRejected url status fields) =
     url @ '' rejected the credential with HTTP '' @ show_nat status @ ''; check '' @ fields"
| "error_text (RateLimited url _) = url @ '' is rate limiting this client''"
| "error_text (Unpopulated path field) =
     path @ '' resolved no '' @ field @ '' for any probe address''"
| "error_text (Undersized path actual existing floor_percent) =
     path @ '' is '' @ show_nat actual @ '' bytes against the '' @ show_nat existing
       @ '' on disk, under the '' @ show_nat floor_percent @ ''% floor''"
| "error_text (InvalidSetting field problem) = field @ '' '' @ problem"
| "error_text (Truncated url expected actual) =
     url @ '' delivered '' @ show_nat actual @ '' of '' @ show_nat expected @ '' bytes''"
| "error_text (CoolingDown path wait_secs) =
     path @ '' is not fetched again for another '' @ show_nat wait_secs
       @ '' seconds after its last refusal''"

text \<open>Whether coming back later, without changing the configuration, cannot help.\<close>

fun is_permanent :: "download_error \<Rightarrow> bool" where
  "is_permanent (CredentialRejected _ _ _) = True"
| "is_permanent (MissingCredential _ _) = True"
| "is_permanent (NoDatabases _ _) = True"
| "is_permanent (NotEntitled _) = True"
| "is_permanent (InvalidSetting _ _) = True"
| "is_permanent (UnsupportedTier _ _) = True"
| "is_permanent (UnexpectedStatus _ status) = (400 \<le> status \<and> status < 500 \<and> status \<noteq> 408)"
| "is_permanent _ = False"

fun outcome :: "download_error \<Rightarrow> str" where
  "outcome (Busy _) = ''busy''"
| "outcome (NotEntitled _) = ''unentitled''"
| "outcome (ChecksumMismatch _ _ _) = ''refused''"
| "outcome (MalformedChecksum _) = ''refused''"
| "outcome (NotADatabase _) = ''refused''"
| "outcome (Unparseable _ _) = ''refused''"
| "outcome (Unpopulated _ _) = ''refused''"
| "outcome (Undersized _ _ _ _) = ''refused''"
| "outcome (Truncated _ _ _) = ''refused''"
| "outcome (TooLarge _ _) = ''refused''"
| "outcome (ArchiveMemberMissing _) = ''refused''"
| "outcome _ = ''failed''"

text \<open>A refusal of what arrived is never a permanent fault: the two classes are disjoint.\<close>

lemma refused_not_permanent: "outcome e = ''refused'' \<Longrightarrow> \<not> is_permanent e"
  by (cases e) auto

end
