(* ===== verification/Table_Types.thy ===== *)
theory Table_Types
  imports Download_Error
begin

text \<open>
  \<open>src/table/config.rs\<close>: what a table source states (format, schema, index, archive), the wire
  forms its format serialises through, and the equality a reload compares sources by; and the
  errors of \<open>src/table/mod.rs\<close>. A live HTTP client is a handle the configuration cannot state,
  so the model keeps only whether one was injected.
\<close>

datatype table_format = Csv (csv_header: bool) | Json

datatype schema = Auto | Named "str list"

datatype index = Ip | Prefix | Column str

datatype source_archive = Raw | Gzip

record table_source =
  src_url :: str
  src_checksum_url :: "str option"
  src_archive :: source_archive
  src_file :: str
  src_format :: table_format
  src_schema :: schema
  src_index :: index
  src_http_client :: "nat option" \<comment> \<open>the injected client's handle\<close>

definition table_source_new :: "str \<Rightarrow> str \<Rightarrow> table_format \<Rightarrow> index \<Rightarrow> table_source" where
  "table_source_new url file format ix =
     \<lparr> src_url = url, src_checksum_url = None, src_archive = Raw, src_file = file,
       src_format = format, src_schema = Auto, src_index = ix, src_http_client = None \<rparr>"

definition source_with_http_client :: "table_source \<Rightarrow> nat \<Rightarrow> table_source" where
  "source_with_http_client s client = s\<lparr> src_http_client := Some client \<rparr>"

text \<open>Equality over the configuration, not the transport.\<close>

definition table_source_eq :: "table_source \<Rightarrow> table_source \<Rightarrow> bool" where
  "table_source_eq a b \<longleftrightarrow>
     src_url a = src_url b \<and> src_checksum_url a = src_checksum_url b \<and>
     src_archive a = src_archive b \<and> src_file a = src_file b \<and>
     src_format a = src_format b \<and> src_schema a = src_schema b \<and> src_index a = src_index b"

section \<open>The wire forms of a format\<close>

datatype bare_format = BareCsv | BareJson
datatype csv_options = CsvOptions (opt_header: bool)
datatype full_format = FullCsv csv_options
datatype format_wire = Bare bare_format | Full full_format

definition header_default :: bool where
  "header_default = True"

fun serialize_format :: "table_format \<Rightarrow> format_wire" where
  "serialize_format Json = Bare BareJson"
| "serialize_format (Csv True) = Bare BareCsv"
| "serialize_format (Csv header) = Full (FullCsv (CsvOptions header))"

fun deserialize_format :: "format_wire \<Rightarrow> table_format" where
  "deserialize_format (Bare BareJson) = Json"
| "deserialize_format (Bare BareCsv) = Csv header_default"
| "deserialize_format (Full (FullCsv (CsvOptions header))) = Csv header"

lemma format_roundtrip: "deserialize_format (serialize_format f) = f"
  by (cases f rule: serialize_format.cases) (auto simp: header_default_def)

lemma table_source_eq_equiv:
  "table_source_eq a a"
  "table_source_eq a b \<Longrightarrow> table_source_eq b a"
  "table_source_eq a b \<Longrightarrow> table_source_eq b c \<Longrightarrow> table_source_eq a c"
  by (auto simp: table_source_eq_def)

lemma injected_client_equal: "table_source_eq s (source_with_http_client s c)"
  by (simp add: table_source_eq_def source_with_http_client_def)

section \<open>Errors\<close>

datatype table_error =
    Fetch download_error
  | TableIo str
  | BadUrl str str
  | UnsafeFileName str
  | Malformed (mal_line: nat) (mal_detail: str)
  | NotAnArrayOfObjects str
  | NamesRequired
  | NoNames
  | Empty
  | UnknownColumn str str
  | NoAddressColumn str
  | NoPrefixColumn str
  | OverResidentCeiling nat

fun table_error_text :: "table_error \<Rightarrow> str" where
  "table_error_text (Fetch e) = ''fetching the table failed: '' @ error_text e"
| "table_error_text (TableIo e) = ''IO error: '' @ e"
| "table_error_text (BadUrl url detail) = url @ '' is not a URL that can be fetched: '' @ detail"
| "table_error_text (UnsafeFileName file) = ''file '' @ file @ '' is not a plain file name''"
| "table_error_text (Malformed line detail) =
     ''the table is malformed at line '' @ show_nat line @ '': '' @ detail"
| "table_error_text (NotAnArrayOfObjects detail) =
     ''the source is not a JSON array of objects: '' @ detail"
| "table_error_text NamesRequired =
     ''a CSV with no header row needs schema.named to supply the column names''"
| "table_error_text NoNames = ''schema.named names no columns''"
| "table_error_text Empty = ''the source holds no rows''"
| "table_error_text (UnknownColumn column columns) =
     ''the index names column '' @ column @ '', which is not one of: '' @ columns"
| "table_error_text (NoAddressColumn columns) =
     ''no column holds IP addresses; name one with index.column instead. columns: '' @ columns"
| "table_error_text (NoPrefixColumn columns) =
     ''no column holds CIDR ranges; name one with index.column instead. columns: '' @ columns"
| "table_error_text (OverResidentCeiling ceiling) =
     ''the table outgrew the '' @ show_nat ceiling @ ''-byte resident ceiling; raise ''
       @ ''auto_download.resident_max_bytes or point the source at less data''"

section \<open>Cells, rows and what reading a source yields\<close>

text \<open>One cell of a row; \<open>None\<close> is a value the source did not supply.\<close>

type_synonym cell = "str option"
type_synonym row = "cell list"

record parsed =
  par_columns :: "str list"
  par_rows :: "row list"
  par_held :: nat

text \<open>Bytes a cell and a row cost beyond the text in them, on a 64-bit target.\<close>

definition CELL_OVERHEAD :: nat where
  "CELL_OVERHEAD = 16"

definition ROW_OVERHEAD :: nat where
  "ROW_OVERHEAD = 32"

definition MAX_FIELDS :: nat where
  "MAX_FIELDS = 4096"

definition cell_cost :: "cell \<Rightarrow> nat" where
  "cell_cost c = (case c of None \<Rightarrow> 0 | Some t \<Rightarrow> length t) + CELL_OVERHEAD"

definition footprint :: "row \<Rightarrow> nat" where
  "footprint r = sum_list (map cell_cost r) + ROW_OVERHEAD"

definition widened :: "nat \<Rightarrow> nat" where
  "widened n = n * CELL_OVERHEAD"

text \<open>A text field as a cell: an empty field is a value the source did not supply.\<close>

definition cell_of_text :: "str \<Rightarrow> cell" where
  "cell_of_text t = (if t = [] then None else Some t)"

lemma cell_cost_of_text [simp]: "cell_cost (cell_of_text t) = length t + CELL_OVERHEAD"
  by (simp add: cell_cost_def cell_of_text_def)

text \<open>The value at a position, absent when the row is shorter or the source did not supply one.\<close>

definition cell :: "row \<Rightarrow> nat \<Rightarrow> str option" where
  "cell cells at = (if at < length cells then cells ! at else None)"

end
