(* ===== verification/Csv_Reader.thy ===== *)
theory Csv_Reader
  imports Table_Types
begin

text \<open>
  The CSV half of \<open>src/table/parse.rs\<close>: the four-state reader that takes one byte at a time, the
  memory ceiling it charges as a record grows, and \<open>read_csv\<close>, which turns its records into
  columns and rows. The lemmas show what the reader keeps (the charge never passes the ceiling,
  no field or record outgrows its bound), that the result does not depend on how the input is
  cut into chunks, and that a quoted file of any rows reads back as those rows.
\<close>

section \<open>The reader\<close>

definition QUOTE :: char where "QUOTE = CHR 0x22"
definition DELIMITER :: char where "DELIMITER = CHR '',''"
definition LF :: char where "LF = CHR 0x0A"
definition CR :: char where "CR = CHR 0x0D"

definition BOM :: str where
  "BOM = [CHR 0xEF, CHR 0xBB, CHR 0xBF]"

definition MAX_FIELD :: nat where
  "MAX_FIELD = 8 * 1024 * 1024"

text \<open>One CSV record, and the line it started on.\<close>

type_synonym csv_record = "nat \<times> str list"

datatype csv_state = FieldStart | Unquoted | Quoted | QuoteInQuoted

record csv =
  records_done :: "csv_record list"
  csv_fields :: "str list"
  field_bytes :: str
  csv_state :: csv_state
  csv_line :: nat
  record_line :: nat
  started :: bool
  after_cr :: bool
  held :: nat
  record_bytes :: nat
  ceiling :: nat

definition csv_new :: "nat \<Rightarrow> csv" where
  "csv_new c =
     \<lparr> records_done = [], csv_fields = [], field_bytes = [], csv_state = FieldStart, csv_line = 1,
       record_line = 1, started = False, after_cr = False, held = 0, record_bytes = 0,
       ceiling = c \<rparr>"

text \<open>
  Refuse once the completed records and the record being read cost more than the ceiling, \<open>opened\<close>
  being what its unclosed field will cost.
\<close>

definition charge :: "csv \<Rightarrow> nat \<Rightarrow> (table_error, unit) result" where
  "charge s opened =
     (let r = sat_add (record_bytes s) (ROW_OVERHEAD + opened)
      in if ceiling s < sat_add (held s) r then Inl (OverResidentCeiling (ceiling s)) else Inr ())"

definition csv_push :: "csv \<Rightarrow> char \<Rightarrow> (table_error, csv) result" where
  "csv_push s b =
     (if MAX_FIELD \<le> length (field_bytes s)
      then Inl (Malformed (record_line s)
                 (''a field is longer than '' @ show_nat MAX_FIELD @ '' bytes''))
      else and_then (charge s (length (field_bytes s) + 1 + CELL_OVERHEAD))
             (\<lambda>_. Inr (s\<lparr> field_bytes := field_bytes s @ [b] \<rparr>)))"

definition csv_begin :: "csv \<Rightarrow> csv" where
  "csv_begin s = (if started s then s else s\<lparr> started := True, record_line := csv_line s \<rparr>)"

text \<open>Close the field being read.\<close>

definition end_field :: "csv \<Rightarrow> (table_error, csv) result" where
  "end_field s =
     (if MAX_FIELDS \<le> length (csv_fields s)
      then Inl (Malformed (record_line s)
                 (''a record carries more than '' @ show_nat MAX_FIELDS @ '' fields''))
      else if \<not> utf8_ok (field_bytes s)
      then Inl (Malformed (record_line s) ''a field is not UTF-8'')
      else
        let s' = s\<lparr> record_bytes := sat_add (record_bytes s) (length (field_bytes s) + CELL_OVERHEAD),
                    csv_fields := csv_fields s @ [field_bytes s],
                    field_bytes := [],
                    csv_state := FieldStart \<rparr>
        in and_then (charge s' 0) (\<lambda>_. Inr s'))"

text \<open>Move the fields read so far into a completed record.\<close>

definition end_record :: "csv \<Rightarrow> (table_error, csv) result" where
  "end_record s = and_then (end_field s)
     (\<lambda>s'. Inr (s'\<lparr> held := sat_add (held s') (sat_add (record_bytes s') ROW_OVERHEAD),
                    record_bytes := 0,
                    records_done := records_done s' @ [(record_line s', csv_fields s')],
                    csv_fields := [],
                    started := False \<rparr>))"

text \<open>A blank line is not a record of one empty field.\<close>

definition newline :: "csv \<Rightarrow> (table_error, csv) result" where
  "newline s =
     (let s' = s\<lparr> csv_line := csv_line s + 1 \<rparr>
      in if \<not> started s' then Inr s' else end_record s')"

text \<open>What each state does with a byte, once the line feed of a CRLF is out of the way.\<close>

fun csv_dispatch :: "csv_state \<Rightarrow> csv \<Rightarrow> char \<Rightarrow> (table_error, csv) result" where
  "csv_dispatch FieldStart s b =
     (if b = QUOTE then Inr ((csv_begin s)\<lparr> csv_state := Quoted \<rparr>)
      else if b = DELIMITER then end_field (csv_begin s)
      else if b = LF then newline s
      else if b = CR then newline (s\<lparr> after_cr := True \<rparr>)
      else and_then (csv_push (csv_begin s) b) (\<lambda>s'. Inr (s'\<lparr> csv_state := Unquoted \<rparr>)))"
| "csv_dispatch Unquoted s b =
     (if b = DELIMITER then end_field s
      else if b = LF then newline s
      else if b = CR then newline (s\<lparr> after_cr := True \<rparr>)
      else csv_push s b)"
| "csv_dispatch Quoted s b =
     (if b = QUOTE then Inr (s\<lparr> csv_state := QuoteInQuoted \<rparr>)
      else if b = LF then csv_push (s\<lparr> csv_line := csv_line s + 1 \<rparr>) b
      else csv_push s b)"
| "csv_dispatch QuoteInQuoted s b =
     (if b = QUOTE then and_then (csv_push s QUOTE) (\<lambda>s'. Inr (s'\<lparr> csv_state := Quoted \<rparr>))
      else if b = DELIMITER then end_field s
      else if b = LF then newline s
      else if b = CR then newline (s\<lparr> after_cr := True \<rparr>)
      else Inl (Malformed (record_line s) ''a closing quote is followed by more text''))"

text \<open>Feed one byte. The line feed behind the carriage return that ended a record is dropped.\<close>

definition csv_byte :: "csv \<Rightarrow> char \<Rightarrow> (table_error, csv) result" where
  "csv_byte s b =
     (if csv_state s = Quoted then csv_dispatch (csv_state s) s b
      else if b = LF \<and> after_cr s then Inr (s\<lparr> after_cr := False \<rparr>)
      else csv_dispatch (csv_state s) (s\<lparr> after_cr := False \<rparr>) b)"

text \<open>Close whatever record is open at the end of the file.\<close>

definition csv_finish :: "csv \<Rightarrow> (table_error, csv_record list \<times> nat) result" where
  "csv_finish s =
     (if csv_state s = Quoted
      then Inl (Malformed (record_line s) ''a quoted field is never closed'')
      else if started s
      then and_then (end_record s) (\<lambda>s'. Inr (records_done s', held s'))
      else Inr (records_done s, held s))"

section \<open>Reading a whole input\<close>

text \<open>The bytes of one chunk, in order, stopping at the first error.\<close>

definition csv_feed :: "csv \<Rightarrow> str \<Rightarrow> (table_error, csv) result" where
  "csv_feed s chunk = try_fold csv_byte s chunk"

text \<open>
  What successive \<open>fill_buf\<close> calls on the reader hand back: a chunk of bytes, or an IO error. An
  empty chunk, or no further one, is the end of the input.
\<close>

type_synonym reader = "(str, str) result list"

fun csv_feed_chunks :: "csv \<Rightarrow> reader \<Rightarrow> (table_error, csv) result" where
  "csv_feed_chunks s [] = Inr s"
| "csv_feed_chunks s (Inl e # r) = Inl (TableIo e)"
| "csv_feed_chunks s (Inr chunk # r) =
     (if chunk = [] then Inr s else and_then (csv_feed s chunk) (\<lambda>s'. csv_feed_chunks s' r))"

text \<open>Drop the byte-order mark from the first field, where a publisher wrote one.\<close>

fun strip_bom :: "csv_record list \<Rightarrow> csv_record list" where
  "strip_bom ((l, f # fs) # rs) =
     (if starts_with f BOM then (l, drop (length BOM) f # fs) # rs else (l, f # fs) # rs)"
| "strip_bom rs = rs"

definition csv_records :: "reader \<Rightarrow> nat \<Rightarrow> (table_error, csv_record list \<times> nat) result" where
  "csv_records r c =
     and_then (csv_feed_chunks (csv_new c) r) (\<lambda>s.
     and_then (csv_finish s) (\<lambda>(rs, h). Inr (strip_bom rs, h)))"

text \<open>Every record as a row of cells, refused at the first one of the wrong width.\<close>

fun rows_of_records :: "nat \<Rightarrow> csv_record list \<Rightarrow> (table_error, row list) result" where
  "rows_of_records w [] = Inr []"
| "rows_of_records w ((l, fs) # rs) =
     (if length fs \<noteq> w
      then Inl (Malformed l (show_nat (length fs) @ '' fields against '' @ show_nat w @ '' columns''))
      else and_then (rows_of_records w rs) (\<lambda>rows. Inr (map cell_of_text fs # rows)))"

text \<open>
  The header record is consumed whether or not its names are used, so stated names override a
  header rather than shifting the rows.
\<close>

fun csv_columns :: "bool \<Rightarrow> schema \<Rightarrow> csv_record list \<Rightarrow> (table_error, str list \<times> csv_record list) result" where
  "csv_columns True Auto [] = Inl Empty"
| "csv_columns True Auto ((_, fs) # rs) = Inr (fs, rs)"
| "csv_columns True (Named named) [] = Inl Empty"
| "csv_columns True (Named named) (_ # rs) = Inr (named, rs)"
| "csv_columns False Auto rs = Inl NamesRequired"
| "csv_columns False (Named named) rs = Inr (named, rs)"

definition read_csv :: "reader \<Rightarrow> bool \<Rightarrow> schema \<Rightarrow> nat \<Rightarrow> (table_error, parsed) result" where
  "read_csv r header sch c =
     and_then (csv_records r c) (\<lambda>(rs, h).
     and_then (csv_columns header sch rs) (\<lambda>(columns, body).
       if columns = [] then Inl NoNames
       else and_then (rows_of_records (length columns) body) (\<lambda>rows.
         if rows = [] then Inl Empty
         else Inr \<lparr> par_columns = columns, par_rows = rows, par_held = h \<rparr>)))"

section \<open>What the reader keeps\<close>

text \<open>What one completed record costs once it is a row.\<close>

definition record_cost :: "str list \<Rightarrow> nat" where
  "record_cost fs = sum_list (map (\<lambda>f. length f + CELL_OVERHEAD) fs)"

definition records_cost :: "csv_record list \<Rightarrow> nat" where
  "records_cost rs = sum_list (map (\<lambda>(l, fs). record_cost fs + ROW_OVERHEAD) rs)"

definition record_bounded :: "str list \<Rightarrow> bool" where
  "record_bounded fs \<longleftrightarrow>
     length fs \<le> MAX_FIELDS \<and> (\<forall>f \<in> set fs. length f \<le> MAX_FIELD \<and> utf8_ok f)"

definition csv_accounts :: "csv \<Rightarrow> bool" where
  "csv_accounts s \<longleftrightarrow>
     held s = min (records_cost (records_done s)) u64_max
     \<and> record_bytes s = min (record_cost (csv_fields s)) u64_max"

definition csv_inv :: "csv \<Rightarrow> bool" where
  "csv_inv s \<longleftrightarrow>
     (\<forall>(l, fs) \<in> set (records_done s). fs \<noteq> [] \<and> record_bounded fs)
     \<and> record_bounded (csv_fields s)
     \<and> length (field_bytes s) \<le> MAX_FIELD
     \<and> csv_accounts s
     \<and> held s \<le> ceiling s
     \<and> (csv_fields s \<noteq> [] \<longrightarrow> sat_add (held s) (sat_add (record_bytes s) ROW_OVERHEAD) \<le> ceiling s)
     \<and> (field_bytes s \<noteq> [] \<longrightarrow>
          sat_add (held s) (sat_add (record_bytes s)
            (ROW_OVERHEAD + (length (field_bytes s) + CELL_OVERHEAD))) \<le> ceiling s)"

lemma record_cost_snoc [simp]: "record_cost (fs @ [f]) = record_cost fs + (length f + CELL_OVERHEAD)"
  by (simp add: record_cost_def)

lemma records_cost_snoc [simp]:
  "records_cost (rs @ [(l, fs)]) = records_cost rs + (record_cost fs + ROW_OVERHEAD)"
  by (simp add: records_cost_def)

lemma record_cost_Nil [simp]: "record_cost [] = 0"
  by (simp add: record_cost_def)

lemma csv_inv_new: "csv_inv (csv_new c)"
  by (simp add: csv_inv_def csv_accounts_def csv_new_def record_bounded_def records_cost_def u64_max_def
      MAX_FIELD_def)

lemma charge_ok: "charge s n = Inr () \<longleftrightarrow>
    sat_add (held s) (sat_add (record_bytes s) (ROW_OVERHEAD + n)) \<le> ceiling s"
  by (auto simp: charge_def Let_def)

lemma charge_Inr: "charge s n = Inr u \<longleftrightarrow>
    sat_add (held s) (sat_add (record_bytes s) (ROW_OVERHEAD + n)) \<le> ceiling s"
  using charge_ok [of s n] by simp

text \<open>The parts of the state that only say where the reader is never matter to the invariant.\<close>

lemma csv_inv_position [simp]:
  "csv_inv (s\<lparr> csv_state := q \<rparr>) = csv_inv s"
  "csv_inv (s\<lparr> csv_line := n \<rparr>) = csv_inv s"
  "csv_inv (s\<lparr> record_line := n \<rparr>) = csv_inv s"
  "csv_inv (s\<lparr> started := b \<rparr>) = csv_inv s"
  "csv_inv (s\<lparr> after_cr := b \<rparr>) = csv_inv s"
  by (simp_all add: csv_inv_def csv_accounts_def)

lemma csv_accounts_cong [simp]: "csv_accounts (s\<lparr> field_bytes := f \<rparr>) = csv_accounts s"
  by (simp add: csv_accounts_def)

lemma csv_inv_begin [simp]: "csv_inv (csv_begin s) = csv_inv s"
  by (simp add: csv_begin_def)

lemma csv_push_inv [model_intros]: "csv_inv s \<Longrightarrow> returns csv_inv (csv_push s b)"
proof (rule returnsI)
  fix s'
  assume inv: "csv_inv s" and push: "csv_push s b = Inr s'"
  from push have s': "s' = s\<lparr> field_bytes := field_bytes s @ [b] \<rparr>"
    and room: "length (field_bytes s) < MAX_FIELD"
    and fits: "sat_add (held s) (sat_add (record_bytes s)
      (ROW_OVERHEAD + (length (field_bytes s') + CELL_OVERHEAD))) \<le> ceiling s"
    by (auto simp: csv_push_def and_then_Inr_iff charge_Inr split: if_splits)
  show "csv_inv s'"
    using inv room fits by (simp add: csv_inv_def csv_accounts_cong s')
qed

text \<open>Closing a field moves its bytes from the open field to the record, and charges the cell.\<close>

lemma end_field_shape:
  assumes "end_field s = Inr s'"
  shows "s' = s\<lparr> record_bytes := sat_add (record_bytes s) (length (field_bytes s) + CELL_OVERHEAD),
      csv_fields := csv_fields s @ [field_bytes s], field_bytes := [], csv_state := FieldStart \<rparr>"
    and "length (csv_fields s) < MAX_FIELDS" and "utf8_ok (field_bytes s)"
    and "sat_add (held s) (sat_add (record_bytes s') ROW_OVERHEAD) \<le> ceiling s"
  using assms by (auto simp: end_field_def Let_def and_then_Inr_iff charge_Inr split: if_splits)

lemma end_field_inv [model_intros]: "csv_inv s \<Longrightarrow> returns csv_inv (end_field s)"
proof (rule returnsI)
  fix s'
  assume inv: "csv_inv s" and s': "end_field s = Inr s'"
  note shape = end_field_shape [OF s']
  have "csv_accounts s'"
    using inv by (simp add: shape(1) csv_inv_def csv_accounts_def sat_add_min)
  then show "csv_inv s'"
    using inv shape(2-4) by (auto simp add: csv_inv_def record_bounded_def shape(1))
qed

lemma end_record_inv [model_intros]:
  assumes "csv_inv s"
  shows "returns csv_inv (end_record s)"
proof (rule returnsI)
  fix s'
  assume "end_record s = Inr s'"
  then obtain t where t: "end_field s = Inr t"
    and s': "s' = t\<lparr> held := sat_add (held t) (sat_add (record_bytes t) ROW_OVERHEAD),
        record_bytes := 0, records_done := records_done t @ [(record_line t, csv_fields t)],
        csv_fields := [], started := False \<rparr>"
    by (auto simp: end_record_def and_then_Inr_iff)
  have inv: "csv_inv t" using returnsD [OF end_field_inv [OF assms] t] .
  moreover have "csv_fields t \<noteq> []" "field_bytes t = []"
    by (simp_all add: end_field_shape(1) [OF t])
  moreover from inv have "csv_accounts s'"
    by (auto simp: s' csv_inv_def csv_accounts_def sat_add_min sat_add_min_right)
  ultimately show "csv_inv s'"
    by (auto simp: s' csv_inv_def record_bounded_def)
qed

lemma newline_inv [model_intros]: "csv_inv s \<Longrightarrow> returns csv_inv (newline s)"
  using end_record_inv [of "s\<lparr>csv_line := csv_line s + 1\<rparr>"] by (simp add: newline_def Let_def)

lemma csv_dispatch_inv [model_intros]: "csv_inv s \<Longrightarrow> returns csv_inv (csv_dispatch q s b)"
  using csv_push_inv [of "s\<lparr>csv_line := csv_line s + 1\<rparr>" LF]
  by (cases q) (simp_all add: model_intros)

lemma csv_byte_inv: "csv_inv s \<Longrightarrow> returns csv_inv (csv_byte s b)"
  using csv_dispatch_inv [of s "csv_state s" b]
    csv_dispatch_inv [of "s\<lparr>after_cr := False\<rparr>" "csv_state s" b]
  by (simp only: csv_byte_def returns_if returns_simps csv_inv_position split: if_splits) simp

interpretation csv_bytes: checked_step csv_byte csv_inv
  by unfold_locales (rule csv_byte_inv)

lemma csv_chunks_inv: "csv_inv s \<Longrightarrow> returns csv_inv (csv_feed_chunks s r)"
proof (induction s r rule: csv_feed_chunks.induct)
  case (3 s chunk r)
  from csv_bytes.run_inv [OF "3.prems", of chunk] "3.IH" "3.prems" show ?case
    by (auto simp: csv_feed_def returns_def and_then_Inr_iff)
qed auto

lemma csv_finish_cost:
  assumes "csv_inv s"
  shows "returns (\<lambda>(rs, h). h = min (records_cost rs) u64_max \<and> h \<le> ceiling s
    \<and> (\<forall>(l, fs) \<in> set rs. fs \<noteq> [] \<and> record_bounded fs)) (csv_finish s)"
proof (cases "started s")
  case True
  have "returns (\<lambda>t. csv_inv t \<and> ceiling t = ceiling s) (end_record s)"
    using end_record_inv [OF assms]
    by (auto simp: returns_def end_record_def and_then_Inr_iff dest!: end_field_shape(1))
  with True show ?thesis
    by (auto simp: csv_finish_def csv_inv_def csv_accounts_def elim!: returns_mono)
next
  case False
  with assms show ?thesis by (auto simp: csv_finish_def csv_inv_def csv_accounts_def)
qed

lemma csv_ceiling_const:
  "returns (\<lambda>t. ceiling t = ceiling s) (csv_push s b)"
  "returns (\<lambda>t. ceiling t = ceiling s) (end_field s)"
  "returns (\<lambda>t. ceiling t = ceiling s) (end_record s)"
  by (auto simp: csv_push_def end_record_def returns_def and_then_Inr_iff split: if_splits
      dest!: end_field_shape(1))

lemma ceiling_begin [simp]: "ceiling (csv_begin s) = ceiling s"
  by (simp add: csv_begin_def)

lemma csv_byte_ceiling: "returns (\<lambda>t. ceiling t = ceiling s) (csv_byte s b)"
proof -
  have "returns (\<lambda>t. ceiling t = ceiling s) (newline u)" if "ceiling u = ceiling s" for u
    using csv_ceiling_const(3) [of "u\<lparr>csv_line := csv_line u + 1\<rparr>"] that
    by (simp add: newline_def Let_def)
  moreover have "returns (\<lambda>t. ceiling t = ceiling s) (csv_push u b')"
    "returns (\<lambda>t. ceiling t = ceiling s) (end_field u)" if "ceiling u = ceiling s" for u b'
    using csv_ceiling_const(1,2) [of u] that by simp_all
  ultimately have "returns (\<lambda>t. ceiling t = ceiling s) (csv_dispatch q u b)"
    if "ceiling u = ceiling s" for q u
    using that by (cases q) simp_all
  then show ?thesis by (simp add: csv_byte_def del: csv_dispatch.simps)
qed

interpretation csv_ceiling: checked_step csv_byte "\<lambda>s. ceiling s = c" for c
  using csv_byte_ceiling by unfold_locales (metis (mono_tags, lifting) returns_mono)

lemma csv_chunks_ceiling:
  "ceiling s = c \<Longrightarrow> returns (\<lambda>t. ceiling t = c) (csv_feed_chunks s r)"
proof (induction s r rule: csv_feed_chunks.induct)
  case (3 s chunk r)
  from csv_ceiling.run_inv [OF "3.prems", of chunk] "3.IH" "3.prems" show ?case
    by (auto simp: csv_feed_def returns_def and_then_Inr_iff)
qed auto

lemma strip_bom_props:
  "length (strip_bom rs) = length rs"
  "records_cost (strip_bom rs) \<le> records_cost rs"
  "(\<forall>(l, fs) \<in> set rs. fs \<noteq> []) \<Longrightarrow> (\<forall>(l, fs) \<in> set (strip_bom rs). fs \<noteq> [])"
  by (cases rs rule: strip_bom.cases; auto simp: records_cost_def record_cost_def)+

lemma csv_records_cost:
  assumes "c \<le> u64_max"
  shows "returns (\<lambda>(rs, h). min (records_cost rs) u64_max \<le> h \<and> h \<le> c
    \<and> (\<forall>(l, fs) \<in> set rs. fs \<noteq> [])) (csv_records r c)"
proof -
  have "returns (\<lambda>s. csv_inv s) (csv_feed_chunks (csv_new c) r)"
    by (rule csv_chunks_inv [OF csv_inv_new])
  moreover have "returns (\<lambda>s. ceiling s = c) (csv_feed_chunks (csv_new c) r)"
    by (rule csv_chunks_ceiling) (simp add: csv_new_def)
  ultimately have "returns (\<lambda>s. csv_inv s \<and> ceiling s = c) (csv_feed_chunks (csv_new c) r)"
    by (simp add: returns_def)
  then show ?thesis
    unfolding csv_records_def returns_simps
  proof (rule returns_mono)
    fix s
    assume s: "csv_inv s \<and> ceiling s = c"
    show "returns (\<lambda>x. returns (\<lambda>(rs, h). min (records_cost rs) u64_max \<le> h \<and> h \<le> c
        \<and> (\<forall>(l, fs) \<in> set rs. fs \<noteq> [])) ((\<lambda>(rs, h). Inr (strip_bom rs, h)) x)) (csv_finish s)"
    proof (rule returns_mono [OF csv_finish_cost])
      show "csv_inv s" using s ..
      fix x
      assume x: "case x of (rs, h) \<Rightarrow> h = min (records_cost rs) u64_max \<and> h \<le> ceiling s
          \<and> (\<forall>(l, fs) \<in> set rs. fs \<noteq> [] \<and> record_bounded fs)"
      obtain rs h where rs: "x = (rs, h)" by (cases x)
      have "min (records_cost (strip_bom rs)) u64_max \<le> min (records_cost rs) u64_max"
        by (rule min.mono [OF strip_bom_props(2)]) simp
      moreover have "\<forall>(l, fs) \<in> set (strip_bom rs). fs \<noteq> []"
        by (rule strip_bom_props(3)) (use x rs in auto)
      ultimately show "returns (\<lambda>(rs, h). min (records_cost rs) u64_max \<le> h \<and> h \<le> c
          \<and> (\<forall>(l, fs) \<in> set rs. fs \<noteq> [])) ((\<lambda>(rs, h). Inr (strip_bom rs, h)) x)"
        using s x by (simp add: rs)
    qed
  qed
qed


lemma footprint_record [simp]: "footprint (map cell_of_text fs) = record_cost fs + ROW_OVERHEAD"
  by (simp add: footprint_def record_cost_def comp_def)

lemma rows_of_records_ok:
  assumes "rows_of_records w rs = Inr rows"
  shows "rows = map (map cell_of_text \<circ> snd) rs" and "\<forall>r \<in> set rows. length r = w"
    and "sum_list (map footprint rows) = records_cost rs"
proof -
  have "rows = map (map cell_of_text \<circ> snd) rs \<and> list_all (\<lambda>(l, fs). length fs = w) rs"
    using assms
    by (induction rs arbitrary: rows) (auto simp: and_then_Inr_iff split: if_splits)
  then show rows: "rows = map (map cell_of_text \<circ> snd) rs" and "\<forall>r \<in> set rows. length r = w"
    by (force simp: list_all_iff)+
  show "sum_list (map footprint rows) = records_cost rs"
    unfolding rows by (induction rs) (auto simp: records_cost_def)
qed

lemma rows_of_records_error:
  "rows_of_records w rs = Inl e \<Longrightarrow>
   \<exists>l fs. (l, fs) \<in> set rs \<and> length fs \<noteq> w
     \<and> e = Malformed l (show_nat (length fs) @ '' fields against '' @ show_nat w @ '' columns'')"
  by (induction rs) (auto simp: and_then_Inl_iff split: if_splits; blast)+

lemma csv_columns_cost:
  "csv_columns hdr sch rs = Inr (cols, body) \<Longrightarrow>
   records_cost body \<le> records_cost rs \<and> (\<exists>pre. rs = pre @ body)"
  by (cases "(hdr, sch, rs)" rule: csv_columns.cases) (auto simp: records_cost_def)

text \<open>
  What reading a CSV yields: a rectangular, non-empty table whose rows cost no more than what was
  charged for them, which is within the ceiling.
\<close>

lemma read_csv_bounds:
  assumes "c \<le> u64_max"
  shows "returns (\<lambda>p. par_columns p \<noteq> [] \<and> par_rows p \<noteq> []
      \<and> (\<forall>r \<in> set (par_rows p). length r = length (par_columns p))
      \<and> min (sum_list (map footprint (par_rows p))) u64_max \<le> par_held p \<and> par_held p \<le> c)
    (read_csv r header sch c)"
proof (rule returnsI)
  fix p
  assume "read_csv r header sch c = Inr p"
  then obtain rs h cols body rows where
    rec: "csv_records r c = Inr (rs, h)" and cols: "csv_columns header sch rs = Inr (cols, body)"
    and rows: "rows_of_records (length cols) body = Inr rows" and ne: "cols \<noteq> []" "rows \<noteq> []"
    and p: "p = \<lparr> par_columns = cols, par_rows = rows, par_held = h \<rparr>"
    by (auto simp: read_csv_def and_then_Inr_iff split: if_splits)
  from csv_records_cost [OF assms, of r] rec have "min (records_cost rs) u64_max \<le> h" "h \<le> c"
    by auto
  moreover have "records_cost body \<le> records_cost rs"
    using csv_columns_cost [OF cols] by simp
  ultimately show "par_columns p \<noteq> [] \<and> par_rows p \<noteq> []
      \<and> (\<forall>r \<in> set (par_rows p). length r = length (par_columns p))
      \<and> min (sum_list (map footprint (par_rows p))) u64_max \<le> par_held p \<and> par_held p \<le> c"
    using rows_of_records_ok [OF rows] ne by (auto simp: p)
qed

section \<open>Chunks\<close>

lemma csv_feed_append:
  "csv_feed s (xs @ ys) = and_then (csv_feed s xs) (\<lambda>s'. csv_feed s' ys)"
  by (simp add: csv_feed_def try_fold_append)

lemma csv_feed_chunks_concat:
  "[] \<notin> set cs \<Longrightarrow> csv_feed_chunks s (map Inr cs) = csv_feed s (concat cs)"
proof (induction cs arbitrary: s)
  case (Cons c cs)
  then show ?case
    by (cases "csv_feed s c") (auto simp: csv_feed_append)
qed (simp add: csv_feed_def)

lemma csv_records_chunking:
  assumes "[] \<notin> set cs" and "[] \<notin> set ds" and "concat cs = concat ds"
  shows "csv_records (map Inr cs) c = csv_records (map Inr ds) c"
  using assms by (simp add: csv_records_def csv_feed_chunks_concat)

section \<open>Round trip\<close>

text \<open>
  A writer that quotes every field and doubles the quotes in it, as RFC 4180 has it, with any of
  the three line endings; it is the specification the reader is measured against.
\<close>

definition escape :: "str \<Rightarrow> str" where
  "escape f = concat (map (\<lambda>c. if c = QUOTE then [QUOTE, QUOTE] else [c]) f)"

definition quote_field :: "str \<Rightarrow> str" where
  "quote_field f = QUOTE # escape f @ [QUOTE]"

fun render_fields :: "str list \<Rightarrow> str" where
  "render_fields [] = []"
| "render_fields [f] = quote_field f"
| "render_fields (f # fs) = quote_field f @ DELIMITER # render_fields fs"

definition line_ending :: "str \<Rightarrow> bool" where
  "line_ending e \<longleftrightarrow> e = [LF] \<or> e = [CR] \<or> e = [CR, LF]"

definition render_csv :: "str \<Rightarrow> str list list \<Rightarrow> str" where
  "render_csv e rows = concat (map (\<lambda>r. render_fields r @ e) rows)"

lemma char_distinct [simp]:
  "QUOTE \<noteq> DELIMITER" "QUOTE \<noteq> LF" "QUOTE \<noteq> CR" "DELIMITER \<noteq> QUOTE" "DELIMITER \<noteq> LF"
  "DELIMITER \<noteq> CR" "LF \<noteq> QUOTE" "LF \<noteq> DELIMITER" "LF \<noteq> CR" "CR \<noteq> QUOTE" "CR \<noteq> DELIMITER" "CR \<noteq> LF"
  by (simp_all add: QUOTE_def DELIMITER_def LF_def CR_def)

lemma charge_unbounded [simp]: "ceiling s = u64_max \<Longrightarrow> charge s n = Inr ()"
  by (simp add: charge_ok)

text \<open>
  Two positions the reader passes through on a quoted file: ready for the next field of a record,
  with \<open>rs\<close> read and \<open>fs\<close> before it, and closed after the quote that ends field \<open>f\<close>.
\<close>

definition ready :: "csv \<Rightarrow> str list list \<Rightarrow> str list \<Rightarrow> bool" where
  "ready s rs fs \<longleftrightarrow> csv_state s = FieldStart \<and> field_bytes s = [] \<and> ceiling s = u64_max
     \<and> map snd (records_done s) = rs \<and> csv_fields s = fs \<and> (started s \<longleftrightarrow> fs \<noteq> [])"

definition closed :: "csv \<Rightarrow> str list list \<Rightarrow> str list \<Rightarrow> str \<Rightarrow> bool" where
  "closed s rs fs f \<longleftrightarrow> csv_state s = QuoteInQuoted \<and> field_bytes s = f \<and> ceiling s = u64_max
     \<and> map snd (records_done s) = rs \<and> csv_fields s = fs \<and> started s \<and> \<not> after_cr s"

lemma feed_simps [simp]:
  "csv_feed s [] = Inr s"
  "csv_feed s (b # bs) = and_then (csv_byte s b) (\<lambda>s'. csv_feed s' bs)"
  by (simp_all add: csv_feed_def)

lemma after_cr_same: "\<not> after_cr s \<Longrightarrow> s\<lparr> after_cr := False \<rparr> = s"
  by simp

lemma feed_escape:
  assumes "csv_state s = Quoted" and "ceiling s = u64_max" and "\<not> after_cr s"
    and "length (field_bytes s) + length f \<le> MAX_FIELD"
  shows "\<exists>n. csv_feed s (escape f) = Inr (s\<lparr> field_bytes := field_bytes s @ f, csv_line := n \<rparr>)"
  using assms
proof (induction f arbitrary: s)
  case Nil
  show ?case by (rule exI [of _ "csv_line s"]) (simp add: escape_def)
next
  case (Cons c f)
  let ?m = "if c = LF then csv_line s + 1 else csv_line s"
  let ?t = "s\<lparr> field_bytes := field_bytes s @ [c], csv_line := ?m \<rparr>"
  have "csv_feed s (if c = QUOTE then [QUOTE, QUOTE] else [c]) = Inr ?t"
    using Cons.prems by (auto simp: csv_byte_def csv_push_def after_cr_same)
  moreover from Cons.IH [of ?t] Cons.prems obtain n where
    "csv_feed ?t (escape f) = Inr (?t\<lparr> field_bytes := field_bytes ?t @ f, csv_line := n \<rparr>)"
    by auto
  ultimately show ?case
    by (auto simp: escape_def csv_feed_append)
qed

lemma feed_quoted:
  assumes "ready s rs fs" and "length f \<le> MAX_FIELD"
  shows "\<exists>s'. csv_feed s (quote_field f) = Inr s' \<and> closed s' rs fs f"
proof -
  obtain t where t: "csv_byte s QUOTE = Inr t" "csv_state t = Quoted" "ceiling t = u64_max"
    "field_bytes t = []" "map snd (records_done t) = rs" "csv_fields t = fs" "started t" "\<not> after_cr t"
    using assms(1) by (simp add: csv_byte_def csv_begin_def ready_def)
  from feed_escape [OF t(2,3,8)] assms(2) t(4) obtain n where
    esc: "csv_feed t (escape f) = Inr (t\<lparr> field_bytes := f, csv_line := n \<rparr>)" by auto
  have close: "csv_byte u QUOTE = Inr (u\<lparr> csv_state := QuoteInQuoted \<rparr>)" if "csv_state u = Quoted" for u
    using that by (simp add: csv_byte_def)
  have "csv_feed s (quote_field f) = Inr (t\<lparr> field_bytes := f, csv_line := n, csv_state := QuoteInQuoted \<rparr>)"
    by (simp add: quote_field_def csv_feed_append t(1,2) esc close)
  with t show ?thesis by (simp add: closed_def)
qed

lemma end_field_closed:
  assumes "closed s rs fs f" and "length fs < MAX_FIELDS" and "utf8_ok f"
  shows "\<exists>s'. end_field s = Inr s' \<and> ready s' rs (fs @ [f]) \<and> \<not> after_cr s'"
  using assms by (simp add: end_field_def Let_def closed_def ready_def)

lemma feed_delimiter:
  assumes "closed s rs fs f" and "length fs < MAX_FIELDS" and "utf8_ok f"
  shows "\<exists>s'. csv_byte s DELIMITER = Inr s' \<and> ready s' rs (fs @ [f])"
proof -
  have "csv_byte s DELIMITER = end_field s"
    using assms(1) by (simp add: csv_byte_def closed_def after_cr_same)
  then show ?thesis using end_field_closed [OF assms] by auto
qed

lemma newline_closed:
  assumes "closed s rs fs f" and "length fs < MAX_FIELDS" and "utf8_ok f"
  shows "\<exists>s'. newline s = Inr s' \<and> ready s' (rs @ [fs @ [f]]) []"
    and "\<exists>s'. newline (s\<lparr> after_cr := True \<rparr>) = Inr s' \<and> ready s' (rs @ [fs @ [f]]) [] \<and> after_cr s'"
  using assms by (auto simp: newline_def end_record_def end_field_def Let_def closed_def ready_def)

lemma feed_ending:
  assumes "closed s rs fs f" and "length fs < MAX_FIELDS" and "utf8_ok f" and "line_ending e"
  shows "\<exists>s'. csv_feed s e = Inr s' \<and> ready s' (rs @ [fs @ [f]]) []"
proof -
  have same: "s\<lparr> after_cr := False \<rparr> = s"
    using assms(1) by (simp add: closed_def)
  have lf: "csv_byte s LF = newline s" and cr: "csv_byte s CR = newline (s\<lparr> after_cr := True \<rparr>)"
    using assms(1) by (simp_all add: csv_byte_def closed_def same)
  from newline_closed [OF assms(1-3)] obtain s1 s2 where
    1: "newline s = Inr s1" "ready s1 (rs @ [fs @ [f]]) []" and
    2: "newline (s\<lparr> after_cr := True \<rparr>) = Inr s2" "ready s2 (rs @ [fs @ [f]]) []" "after_cr s2"
    by blast
  have 3: "csv_byte s2 LF = Inr (s2\<lparr> after_cr := False \<rparr>)"
    using 2 by (simp add: csv_byte_def ready_def)
  show ?thesis
    using assms(4) 1 2 3 by (auto simp: line_ending_def lf cr ready_def)
qed

lemma feed_record:
  assumes "ready s rs fs" and "gs \<noteq> []" and "length fs + length gs \<le> MAX_FIELDS"
    and "\<forall>f \<in> set gs. length f \<le> MAX_FIELD \<and> utf8_ok f" and "line_ending e"
  shows "\<exists>s'. csv_feed s (render_fields gs @ e) = Inr s' \<and> ready s' (rs @ [fs @ gs]) []"
  using assms
proof (induction gs arbitrary: s fs rule: render_fields.induct)
  case (2 f)
  from 2 obtain t where t: "csv_feed s (quote_field f) = Inr t" "closed t rs fs f"
    using feed_quoted by fastforce
  from feed_ending [OF t(2)] 2 obtain u where "csv_feed t e = Inr u" "ready u (rs @ [fs @ [f]]) []"
    by auto
  with t show ?case by (auto simp: csv_feed_append)
next
  case (3 f g gs)
  from "3.prems" have f: "length f \<le> MAX_FIELD" "utf8_ok f" "length fs < MAX_FIELDS" by auto
  from feed_quoted [OF "3.prems"(1) f(1)] obtain t where
    t: "csv_feed s (quote_field f) = Inr t" "closed t rs fs f" by blast
  from feed_delimiter [OF t(2) f(3,2)] obtain u where
    u: "csv_byte t DELIMITER = Inr u" "ready u rs (fs @ [f])" by blast
  from "3.IH" [OF u(2)] "3.prems" obtain v where
    v: "csv_feed u (render_fields (g # gs) @ e) = Inr v" "ready v (rs @ [(fs @ [f]) @ g # gs]) []"
    by auto
  have "render_fields (f # g # gs) @ e = quote_field f @ DELIMITER # render_fields (g # gs) @ e"
    by simp
  then have "csv_feed s (render_fields (f # g # gs) @ e) = Inr v"
    by (simp only: csv_feed_append [of s "quote_field f"] t(1) u(1) v(1) feed_simps and_then.simps)
  with v(2) show ?case by auto
qed simp

definition csv_row_ok :: "str list \<Rightarrow> bool" where
  "csv_row_ok r \<longleftrightarrow> r \<noteq> [] \<and> length r \<le> MAX_FIELDS \<and> (\<forall>f \<in> set r. length f \<le> MAX_FIELD \<and> utf8_ok f)"

lemma feed_rows:
  assumes "ready s rs []" and "\<forall>r \<in> set rows. csv_row_ok r" and "line_ending e"
  shows "\<exists>s'. csv_feed s (render_csv e rows) = Inr s' \<and> ready s' (rs @ rows) []"
  using assms(1,2)
proof (induction rows arbitrary: s rs)
  case (Cons r rows)
  from feed_record [OF Cons.prems(1), of r e] Cons.prems(2) assms(3) obtain t where
    t: "csv_feed s (render_fields r @ e) = Inr t" "ready t (rs @ [r]) []"
    by (auto simp: csv_row_ok_def)
  from Cons.IH [OF t(2)] Cons.prems(2) obtain u where
    "csv_feed t (render_csv e rows) = Inr u" "ready u ((rs @ [r]) @ rows) []" by auto
  moreover have "render_csv e (r # rows) = (render_fields r @ e) @ render_csv e rows"
    by (simp add: render_csv_def)
  ultimately have "csv_feed s (render_csv e (r # rows)) = Inr u"
    using t by (simp only: csv_feed_append and_then.simps)
  with \<open>ready u ((rs @ [r]) @ rows) []\<close> show ?case by auto
qed (auto simp: render_csv_def)

text \<open>The fields of the first record, without the byte-order mark the reader drops.\<close>

fun drop_bom :: "str list list \<Rightarrow> str list list" where
  "drop_bom ((f # fs) # rs) = ((if starts_with f BOM then drop (length BOM) f else f) # fs) # rs"
| "drop_bom rs = rs"

lemma map_snd_strip_bom: "map snd (strip_bom rs) = drop_bom (map snd rs)"
  by (cases rs rule: strip_bom.cases) auto

lemma csv_roundtrip:
  assumes "\<forall>r \<in> set rows. csv_row_ok r" and "line_ending e" and "concat cs = render_csv e rows"
    and "[] \<notin> set cs"
  shows "\<exists>rs h. csv_records (map Inr cs) u64_max = Inr (rs, h) \<and> map snd rs = drop_bom rows"
proof -
  have "ready (csv_new u64_max) [] []"
    by (simp add: ready_def csv_new_def)
  from feed_rows [OF this assms(1,2)] obtain s where
    s: "csv_feed (csv_new u64_max) (render_csv e rows) = Inr s" "ready s ([] @ rows) []" by blast
  then have "csv_finish s = Inr (records_done s, held s)" "map snd (records_done s) = rows"
    by (auto simp: csv_finish_def ready_def)
  with s show ?thesis
    by (auto simp: csv_records_def csv_feed_chunks_concat [OF assms(4)] assms(3) map_snd_strip_bom)
qed

lemma rows_of_records_total:
  "\<forall>(l, fs) \<in> set rs. length fs = w \<Longrightarrow> rows_of_records w rs = Inr (map (map cell_of_text) (map snd rs))"
  by (induction rs) auto

text \<open>The equations that run the reader on a concrete input.\<close>

lemmas csv_eval =
  read_csv_def csv_records_def csv_new_def csv_byte_def csv_begin_def csv_push_def charge_def
  end_field_def end_record_def newline_def csv_finish_def Let_def sat_add_def u64_max_def
  MAX_FIELD_def MAX_FIELDS_def CELL_OVERHEAD_def ROW_OVERHEAD_def utf8_ok.simps(2) between_def
  QUOTE_def DELIMITER_def LF_def CR_def BOM_def starts_with_def cell_of_text_def

section \<open>Properties of the CSV reader\<close>

text \<open>A file of quoted fields, written with any of the three line endings and cut into any
  non-empty chunks, reads back as its header and its rows, an empty field as an absent cell.\<close>

theorem read_csv_of_rendered:
  assumes "csv_row_ok header" and "\<not> starts_with (hd header) BOM" and "rows \<noteq> []"
    and "\<forall>r \<in> set rows. csv_row_ok r \<and> length r = length header"
    and "line_ending e" and "[] \<notin> set cs" and "concat cs = render_csv e (header # rows)"
  shows "\<exists>p. read_csv (map Inr cs) True Auto u64_max = Inr p \<and> par_columns p = header
    \<and> par_rows p = map (map cell_of_text) rows"
proof -
  have "\<forall>r \<in> set (header # rows). csv_row_ok r" using assms(1,4) by auto
  from csv_roundtrip [OF this assms(5,7,6)] obtain rs h where
    rs: "csv_records (map Inr cs) u64_max = Inr (rs, h)" "map snd rs = drop_bom (header # rows)"
    by blast
  obtain f fs where header: "header = f # fs" using assms(1) by (cases header) (auto simp: csv_row_ok_def)
  with rs(2) assms(2) obtain l body where body: "rs = (l, header) # body" "map snd body = rows"
    by (auto simp: map_eq_Cons_conv)
  have "rows_of_records (length header) body = Inr (map (map cell_of_text) (map snd body))"
    using assms(4) body(2) by (intro rows_of_records_total) fastforce
  then show ?thesis
    using rs(1) body assms(3) header by (auto simp: read_csv_def)
qed

theorem read_csv_of_rendered_witness:
  "\<exists>p. read_csv (map Inr [render_csv [CR, LF] [[''asn'', ''name''], [''1'', ''a'' @ [LF, QUOTE] @ '',b''], [''2'', '''']]])
       True Auto u64_max = Inr p
     \<and> par_columns p = [''asn'', ''name'']
     \<and> par_rows p = map (map cell_of_text) [[''1'', ''a'' @ [LF, QUOTE] @ '',b''], [''2'', '''']]"
  by (rule read_csv_of_rendered [where e = "[CR, LF]"])
    (simp_all add: csv_row_ok_def MAX_FIELDS_def MAX_FIELD_def line_ending_def starts_with_def BOM_def
      utf8_ok.simps(2) between_def render_csv_def quote_field_def LF_def QUOTE_def)

text \<open>A CSV read under a ceiling is rectangular and not empty, and its rows cost no more than
  the bytes charged for them, which stay within the ceiling.\<close>

theorem read_csv_within_ceiling:
  assumes "c < u64_max" and "read_csv r header sch c = Inr p"
  shows "par_columns p \<noteq> [] \<and> par_rows p \<noteq> []
    \<and> (\<forall>row \<in> set (par_rows p). length row = length (par_columns p))
    \<and> sum_list (map footprint (par_rows p)) \<le> par_held p \<and> par_held p \<le> c"
  using returnsD [OF read_csv_bounds [of c] assms(2)] assms(1) by (auto simp: min_le_iff_disj)

theorem read_csv_within_ceiling_witness:
  "\<exists>p. read_csv [Inr (''a,b'' @ [LF] @ ''1,2'' @ [LF])] True Auto 134 = Inr p \<and> par_held p \<le> 134
     \<and> read_csv [Inr (''a,b'' @ [LF] @ ''1,2'' @ [LF])] True Auto 131 = Inl (OverResidentCeiling 131)"
proof -
  have "is_ok (read_csv [Inr (''a,b'' @ [LF] @ ''1,2'' @ [LF])] True Auto 134)"
    by (simp add: csv_eval)
  then obtain p where p: "read_csv [Inr (''a,b'' @ [LF] @ ''1,2'' @ [LF])] True Auto 134 = Inr p"
    by (auto simp: is_ok_def split: sum.splits)
  have "read_csv [Inr (''a,b'' @ [LF] @ ''1,2'' @ [LF])] True Auto 131 = Inl (OverResidentCeiling 131)"
    by (simp add: csv_eval)
  with p read_csv_within_ceiling [OF _ p] show ?thesis by (simp add: u64_max_def)
qed

text \<open>At every byte of every input, what the reader holds (its completed records, the closed
  fields of the open record and the bytes of the open field) is within the ceiling, and no field or
  record passes its own bound, so neither one long field nor one wide record is buffered whole.\<close>

theorem csv_holds_within_ceiling:
  assumes "c < u64_max" and "csv_feed (csv_new c) bs = Inr s"
  shows "records_cost (records_done s) + record_cost (csv_fields s) + length (field_bytes s) \<le> c
    \<and> length (field_bytes s) \<le> MAX_FIELD \<and> length (csv_fields s) \<le> MAX_FIELDS"
proof -
  have inv: "csv_inv s"
    using csv_bytes.run_inv [OF csv_inv_new, of c bs] assms(2) by (simp add: csv_feed_def)
  have c: "ceiling s = c"
    using csv_ceiling.run_inv [of "csv_new c" c bs] assms(2) by (simp add: csv_feed_def csv_new_def)
  have "records_cost (records_done s) + record_cost (csv_fields s) + length (field_bytes s) \<le> c"
  proof (cases "field_bytes s = [] \<and> csv_fields s = []")
    case True
    with inv assms(1) c show ?thesis by (auto simp: csv_inv_def csv_accounts_def)
  next
    case False
    define n where "n = (if field_bytes s = [] then ROW_OVERHEAD
      else ROW_OVERHEAD + (length (field_bytes s) + CELL_OVERHEAD))"
    have "sat_add (held s) (sat_add (record_bytes s) n) \<le> c" "length (field_bytes s) \<le> n"
      using False inv c by (auto simp: csv_inv_def n_def)
    then have "sat_add (held s) (sat_add (record_bytes s) (length (field_bytes s))) \<le> c"
      by (meson le_refl le_trans sat_add_mono)
    with inv assms(1) show ?thesis
      by (auto simp: csv_inv_def csv_accounts_def sat_add_def min_def split: if_splits)
  qed
  with inv show ?thesis by (simp add: csv_inv_def record_bounded_def)
qed

theorem csv_holds_within_ceiling_witness:
  "\<exists>s. csv_feed (csv_new 60) ''a'' = Inr s \<and> length (field_bytes s) = 1
     \<and> records_cost (records_done s) + record_cost (csv_fields s) + length (field_bytes s) \<le> 60"
proof -
  have "\<exists>s. csv_feed (csv_new 60) ''a'' = Inr s \<and> length (field_bytes s) = 1"
    by (simp add: csv_eval)
  then obtain s where s: "csv_feed (csv_new 60) ''a'' = Inr s" "length (field_bytes s) = 1" by blast
  from csv_holds_within_ceiling [OF _ s(1)] s show ?thesis by (auto simp: u64_max_def)
qed

text \<open>The records read, the bytes charged and the error raised depend on the bytes of the
  input alone, not on how the reader was handed them.\<close>

theorem csv_chunking_irrelevant:
  assumes "[] \<notin> set cs" and "[] \<notin> set ds" and "concat cs = concat ds"
  shows "read_csv (map Inr cs) header sch c = read_csv (map Inr ds) header sch c"
  unfolding read_csv_def csv_records_chunking [OF assms] ..

theorem csv_chunking_irrelevant_witness:
  "read_csv (map Inr [''a'' @ [CR], [LF] @ ''1'']) True Auto 500 = read_csv (map Inr [''a'' @ [CR, LF] @ ''1'']) True Auto 500"
  by (rule csv_chunking_irrelevant) simp_all

section \<open>A byte-order mark before a quoted header\<close>

text \<open>
  The mark is dropped from the first field after the file has been read, so it opens that field:
  a quote behind it is no longer the first byte of a field and is data, as is every quote after it.
\<close>

definition plain :: "str \<Rightarrow> bool" where
  "plain f \<longleftrightarrow> (\<forall>c \<in> set f. c \<noteq> DELIMITER \<and> c \<noteq> LF \<and> c \<noteq> CR)"

lemma feed_unquoted:
  assumes "csv_state s = Unquoted" and "ceiling s = u64_max" and "\<not> after_cr s" and "plain f"
    and "length (field_bytes s) + length f \<le> MAX_FIELD"
  shows "csv_feed s f = Inr (s\<lparr> field_bytes := field_bytes s @ f \<rparr>)"
  using assms
proof (induction f arbitrary: s)
  case (Cons c f)
  let ?t = "s\<lparr> field_bytes := field_bytes s @ [c] \<rparr>"
  have "csv_byte s c = Inr ?t"
    using Cons.prems by (auto simp: csv_byte_def csv_push_def after_cr_same plain_def)
  moreover have "csv_feed ?t f = Inr (?t\<lparr> field_bytes := field_bytes ?t @ f \<rparr>)"
    using Cons.prems by (intro Cons.IH) (auto simp: plain_def)
  ultimately show ?case by simp
qed simp

lemma feed_bom:
  "\<exists>s. csv_feed (csv_new u64_max) BOM = Inr s \<and> csv_state s = Unquoted \<and> field_bytes s = BOM
     \<and> ceiling s = u64_max \<and> \<not> after_cr s \<and> started s \<and> records_done s = [] \<and> csv_fields s = []
     \<and> record_line s = 1"
  by (simp add: BOM_def csv_new_def csv_byte_def csv_begin_def csv_push_def QUOTE_def DELIMITER_def
      LF_def CR_def MAX_FIELD_def)

lemma utf8_ok_bom: "utf8_ok (BOM @ f) = utf8_ok f"
  by (simp add: BOM_def utf8_ok.simps(2) between_def)

text \<open>Behind a byte-order mark a quoted first field keeps its quotes as data, where the same
  field without the mark reads as its text: the mark is stripped only after the field is closed.\<close>

theorem bom_makes_quotes_data:
  assumes "plain f" and "utf8_ok (quote_field f)" and "length f + 5 \<le> MAX_FIELD" and "QUOTE \<notin> set f"
  shows "\<exists>h. csv_records [Inr (BOM @ quote_field f @ [LF])] u64_max = Inr ([(1, [quote_field f])], h)"
proof -
  have esc: "escape f = f"
    using assms(4) by (induction f) (auto simp: escape_def)
  from feed_bom obtain s where s: "csv_feed (csv_new u64_max) BOM = Inr s" "csv_state s = Unquoted"
    "field_bytes s = BOM" "ceiling s = u64_max" "\<not> after_cr s" "started s" "records_done s = []"
    "csv_fields s = []" "record_line s = 1" by blast
  let ?t = "s\<lparr> field_bytes := BOM @ quote_field f \<rparr>"
  have "csv_feed s (quote_field f) = Inr ?t"
    using feed_unquoted [OF s(2,4,5), of "quote_field f"] assms(1,3) s(3)
    by (auto simp: plain_def quote_field_def esc BOM_def)
  moreover have "\<exists>u. csv_byte ?t LF = Inr u \<and> csv_state u = FieldStart \<and> \<not> started u
      \<and> records_done u = [(1, [BOM @ quote_field f])]"
    using s assms(2)
    by (simp add: csv_byte_def newline_def end_record_def end_field_def Let_def utf8_ok_bom
        MAX_FIELDS_def after_cr_same)
  ultimately obtain u where u: "csv_feed (csv_new u64_max) (BOM @ quote_field f @ [LF]) = Inr u"
    "csv_state u = FieldStart" "\<not> started u" "records_done u = [(1, [BOM @ quote_field f])]"
    using s(1) by (auto simp: csv_feed_append)
  have ne: "BOM @ quote_field f @ [LF] \<noteq> []" by (simp add: BOM_def)
  show ?thesis
    using u ne by (simp add: csv_records_def csv_finish_def)
qed

theorem bom_makes_quotes_data_witness:
  "(\<exists>h. csv_records [Inr (BOM @ quote_field ''asn'' @ [LF])] u64_max = Inr ([(1, [quote_field ''asn''])], h))
   \<and> csv_records [Inr (quote_field ''asn'' @ [LF])] u64_max = Inr ([(1, [''asn''])], 51)"
proof
  show "\<exists>h. csv_records [Inr (BOM @ quote_field ''asn'' @ [LF])] u64_max = Inr ([(1, [quote_field ''asn''])], h)"
    by (rule bom_makes_quotes_data)
      (simp_all add: plain_def DELIMITER_def LF_def CR_def QUOTE_def quote_field_def escape_def
        utf8_ok.simps(2) between_def MAX_FIELD_def)
  show "csv_records [Inr (quote_field ''asn'' @ [LF])] u64_max = Inr ([(1, [''asn''])], 51)"
    by (simp add: csv_eval quote_field_def escape_def)
qed

end
