(* ===== verification/Csv_Language.thy ===== *)
theory Csv_Language
  imports Csv_Reader
begin

text \<open>
  The language \<open>Csv\<close> of \<open>src/table/parse.rs\<close> reads, stated apart from the machine that reads it: a
  file is lines, blank or a record, each with its own line ending, of which the last may have none; a
  field is written bare or enclosed in quotes, field by field. The lemmas show that the machine
  accepts the files of this language and no others, however they are cut into chunks, and reads of
  each the fields that were written.
\<close>

section \<open>Files\<close>

datatype written = Bare (field_text: str) | Enclosed (field_text: str)

fun written_as :: "written \<Rightarrow> str" where
  "written_as (Bare f) = f"
| "written_as (Enclosed f) = quote_field f"

text \<open>A bare field opens with no quote and holds no delimiter and no line ending.\<close>

definition bare :: "str \<Rightarrow> bool" where
  "bare f \<longleftrightarrow> plain f \<and> (f \<noteq> [] \<longrightarrow> hd f \<noteq> QUOTE)"

definition written_ok :: "written \<Rightarrow> bool" where
  "written_ok w \<longleftrightarrow> length (field_text w) \<le> MAX_FIELD \<and> utf8_ok (field_text w)
     \<and> (case w of Bare f \<Rightarrow> bare f | Enclosed f \<Rightarrow> True)"

text \<open>A record; a line with one field and nothing in it is blank, and no record.\<close>

definition record_ok :: "written list \<Rightarrow> bool" where
  "record_ok ws \<longleftrightarrow> ws \<noteq> [] \<and> ws \<noteq> [Bare []] \<and> length ws \<le> MAX_FIELDS \<and> (\<forall>w \<in> set ws. written_ok w)"

fun record_text :: "written list \<Rightarrow> str" where
  "record_text [] = []"
| "record_text [w] = written_as w"
| "record_text (w # ws) = written_as w @ DELIMITER # record_text ws"

type_synonym csv_lines = "(written list \<times> str) list"

definition lines_text :: "csv_lines \<Rightarrow> str" where
  "lines_text ls = concat (map (\<lambda>(ws, e). record_text ws @ e) ls)"

definition lines_ok :: "csv_lines \<Rightarrow> bool" where
  "lines_ok ls \<longleftrightarrow> (\<forall>(ws, e) \<in> set ls. line_ending e \<and> (ws = [] \<or> record_ok ws))"

definition lines_rows :: "csv_lines \<Rightarrow> str list list" where
  "lines_rows ls = map (map field_text) (filter (\<lambda>ws. ws \<noteq> []) (map fst ls))"

text \<open>A file: lines, and what stands behind the last line ending.\<close>

definition file_ok :: "csv_lines \<Rightarrow> written list \<Rightarrow> bool" where
  "file_ok ls ws \<longleftrightarrow> lines_ok ls \<and> (ws = [] \<or> record_ok ws)"

definition csv_text :: "csv_lines \<Rightarrow> written list \<Rightarrow> str" where
  "csv_text ls ws = lines_text ls @ record_text ws"

definition csv_rows :: "csv_lines \<Rightarrow> written list \<Rightarrow> str list list" where
  "csv_rows ls ws = lines_rows ls @ (if ws = [] then [] else [map field_text ws])"

lemma lines_simps [simp]:
  "lines_text [] = []" "lines_text (l # ls) = record_text (fst l) @ snd l @ lines_text ls"
  "lines_text (ls @ ls') = lines_text ls @ lines_text ls'"
  "lines_ok []" "lines_ok (l # ls) \<longleftrightarrow> line_ending (snd l) \<and> (fst l = [] \<or> record_ok (fst l)) \<and> lines_ok ls"
  "lines_ok (ls @ ls') \<longleftrightarrow> lines_ok ls \<and> lines_ok ls'"
  "lines_rows [] = []" "lines_rows (ls @ ls') = lines_rows ls @ lines_rows ls'"
  "lines_rows (l # ls) = (if fst l = [] then lines_rows ls else map field_text (fst l) # lines_rows ls)"
  by (auto simp: lines_text_def lines_ok_def lines_rows_def split: prod.split)

text \<open>The fields of a record that have their delimiter behind them.\<close>

definition fields_text :: "written list \<Rightarrow> str" where
  "fields_text ws = concat (map (\<lambda>w. written_as w @ [DELIMITER]) ws)"

lemma record_text_snoc: "record_text (ws @ [w]) = fields_text ws @ written_as w"
  by (induction ws rule: record_text.induct) (simp_all add: fields_text_def)

lemma fields_text_snoc: "fields_text (ws @ [w]) = fields_text ws @ written_as w @ [DELIMITER]"
  by (simp add: fields_text_def)

lemma escape_snoc: "escape (f @ [c]) = escape f @ (if c = QUOTE then [QUOTE, QUOTE] else [c])"
  by (simp add: escape_def)

section \<open>Whatever is accepted is a file\<close>

text \<open>What of the field being read has been read.\<close>

datatype part = Before | InBare str | InQuotes str | AfterQuote str

fun part_text :: "part \<Rightarrow> str" where
  "part_text Before = []"
| "part_text (InBare f) = f"
| "part_text (InQuotes f) = QUOTE # escape f"
| "part_text (AfterQuote f) = quote_field f"

fun part_state :: "part \<Rightarrow> csv_state" where
  "part_state Before = FieldStart"
| "part_state (InBare f) = Unquoted"
| "part_state (InQuotes f) = Quoted"
| "part_state (AfterQuote f) = QuoteInQuoted"

fun part_field :: "part \<Rightarrow> str" where
  "part_field Before = []"
| "part_field (InBare f) = f"
| "part_field (InQuotes f) = f"
| "part_field (AfterQuote f) = f"

text \<open>Where the machine stands: the lines read, the fields of the record being read, the part of a field.\<close>

definition holds_text :: "csv \<Rightarrow> csv_lines \<Rightarrow> written list \<Rightarrow> part \<Rightarrow> bool" where
  "holds_text s ls ws p \<longleftrightarrow>
     ceiling s = u64_max \<and> map snd (records_done s) = lines_rows ls \<and> csv_fields s = map field_text ws
     \<and> csv_state s = part_state p \<and> field_bytes s = part_field p
     \<and> lines_ok ls \<and> (\<forall>w \<in> set ws. written_ok w) \<and> length ws \<le> MAX_FIELDS \<and> length (part_field p) \<le> MAX_FIELD
     \<and> (\<forall>f. p = InBare f \<longrightarrow> f \<noteq> [] \<and> bare f)"

definition stands :: "csv \<Rightarrow> csv_lines \<Rightarrow> written list \<Rightarrow> part \<Rightarrow> bool" where
  "stands s ls ws p \<longleftrightarrow>
     holds_text s ls ws p \<and> (started s \<longleftrightarrow> ws \<noteq> [] \<or> p \<noteq> Before)
     \<and> (after_cr s \<longrightarrow> p = Before \<and> ws = [] \<and> (\<exists>ls' r. ls = ls' @ [(r, [CR])]))"

definition text_read :: "csv_lines \<Rightarrow> written list \<Rightarrow> part \<Rightarrow> str" where
  "text_read ls ws p = lines_text ls @ fields_text ws @ part_text p"

text \<open>A part as a field, where the record may end or a delimiter may follow.\<close>

fun part_written :: "part \<Rightarrow> written" where
  "part_written Before = Bare []"
| "part_written (InBare f) = Bare f"
| "part_written (InQuotes f) = Enclosed f"
| "part_written (AfterQuote f) = Enclosed f"

lemma part_written_field [simp]: "field_text (part_written p) = part_field p"
  by (cases p) simp_all

lemma part_written_text: "part_state p \<noteq> Quoted \<Longrightarrow> written_as (part_written p) = part_text p"
  by (cases p) simp_all

lemma part_written_ok:
  "holds_text s ls ws p \<Longrightarrow> utf8_ok (part_field p) \<Longrightarrow> written_ok (part_written p)"
  by (cases p) (auto simp: holds_text_def written_ok_def bare_def plain_def)

lemma end_field_holds:
  assumes "holds_text s ls ws p" and "end_field s = Inr s'"
  shows "holds_text s' ls (ws @ [part_written p]) Before \<and> started s' = started s \<and> after_cr s' = after_cr s
    \<and> written_ok (part_written p) \<and> length ws < MAX_FIELDS"
proof -
  from assms have "utf8_ok (part_field p)" "length ws < MAX_FIELDS"
    by (auto simp: end_field_def holds_text_def split: if_splits)
  with part_written_ok [OF assms(1)] assms show ?thesis
    by (auto simp: end_field_def holds_text_def Let_def split: if_splits)
qed

lemma newline_holds:
  assumes "holds_text s ls ws p" and "started s \<longleftrightarrow> ws \<noteq> [] \<or> p \<noteq> Before" and "newline s = Inr s'" and "line_ending e"
  shows "\<exists>row. holds_text s' (ls @ [(row, e)]) [] Before \<and> \<not> started s' \<and> after_cr s' = after_cr s
    \<and> row = (if started s then ws @ [part_written p] else [])"
proof (cases "started s")
  case False
  with assms show ?thesis by (auto simp: newline_def holds_text_def)
next
  case True
  let ?s = "s\<lparr> csv_line := csv_line s + 1 \<rparr>"
  from True assms(3) obtain t where t: "end_field ?s = Inr t"
    and s': "s' = t\<lparr> held := sat_add (held t) (sat_add (record_bytes t) ROW_OVERHEAD), record_bytes := 0,
      records_done := records_done t @ [(record_line t, csv_fields t)], csv_fields := [], started := False \<rparr>"
    by (auto simp: newline_def end_record_def and_then_Inr_iff)
  have "holds_text ?s ls ws p" using assms(1) by (simp add: holds_text_def)
  from end_field_holds [OF this t] have h: "holds_text t ls (ws @ [part_written p]) Before"
    and rest: "after_cr t = after_cr s" "written_ok (part_written p)" "length ws < MAX_FIELDS" by auto
  have "record_ok (ws @ [part_written p])"
    using assms(1,2) True rest by (cases p) (auto simp: record_ok_def holds_text_def)
  with h rest(1) True assms(4) show ?thesis by (auto simp: s' holds_text_def)
qed

lemma delimiter_step:
  assumes "holds_text s ls ws p" and "part_state p \<noteq> Quoted" and "started s" and "\<not> after_cr s" and "end_field s = Inr s'"
  shows "stands s' ls (ws @ [part_written p]) Before
    \<and> text_read ls (ws @ [part_written p]) Before = text_read ls ws p @ [DELIMITER]"
  using end_field_holds [OF assms(1,5)] assms(2-4)
  by (simp add: stands_def text_read_def fields_text_snoc part_written_text)

lemma ending_step:
  assumes "stands s ls ws p" and "part_state p \<noteq> Quoted" and "b = LF \<or> b = CR"
    and "newline (s\<lparr> after_cr := (b = CR) \<rparr>) = Inr s'"
  shows "\<exists>ls'. stands s' ls' [] Before \<and> text_read ls' [] Before = text_read ls ws p @ [b]"
proof -
  let ?row = "if ws \<noteq> [] \<or> p \<noteq> Before then ws @ [part_written p] else []"
  have "holds_text (s\<lparr> after_cr := (b = CR) \<rparr>) ls ws p" "started s \<longleftrightarrow> ws \<noteq> [] \<or> p \<noteq> Before"
    using assms(1) by (simp_all add: stands_def holds_text_def)
  from newline_holds [OF this(1) _ assms(4), of "[b]"] this(2) assms(3)
  have "holds_text s' (ls @ [(?row, [b])]) [] Before" "\<not> started s'" "after_cr s' = (b = CR)"
    by (auto simp: line_ending_def)
  then have "stands s' (ls @ [(?row, [b])]) [] Before" by (auto simp: stands_def)
  moreover have "text_read (ls @ [(?row, [b])]) [] Before = text_read ls ws p @ [b]"
    using assms(2) by (auto simp: text_read_def record_text_snoc part_written_text fields_text_def)
  ultimately show ?thesis by blast
qed

lemma push_step:
  assumes "holds_text s ls ws p" and "csv_push s b = Inr s'"
  shows "s' = s\<lparr> field_bytes := part_field p @ [b] \<rparr> \<and> length (part_field p) < MAX_FIELD"
  using assms by (auto simp: csv_push_def holds_text_def split: if_splits)

text \<open>One byte more, by the state the machine is in; what it leads to is again where a machine stands.\<close>

definition moves_on :: "csv \<Rightarrow> csv_lines \<Rightarrow> written list \<Rightarrow> part \<Rightarrow> char \<Rightarrow> bool" where
  "moves_on s' ls ws p b \<longleftrightarrow>
     (\<exists>ls' ws' p'. stands s' ls' ws' p' \<and> text_read ls' ws' p' = text_read ls ws p @ [b])"

lemma moves_onI: "stands s' ls' ws' p' \<Longrightarrow> text_read ls' ws' p' = text_read ls ws p @ [b] \<Longrightarrow> moves_on s' ls ws p b"
  by (auto simp: moves_on_def)

lemma moves_on_delimiter:
  assumes "holds_text s ls ws p" and "part_state p \<noteq> Quoted" and "started s" and "\<not> after_cr s" and "end_field s = Inr s'"
  shows "moves_on s' ls ws p DELIMITER"
  using delimiter_step [OF assms] by (auto simp: moves_on_def)

lemma moves_on_ending:
  assumes "stands s ls ws p" and "part_state p \<noteq> Quoted" and "b = LF \<or> b = CR" and "\<not> after_cr s"
    and "newline (if b = CR then s\<lparr> after_cr := True \<rparr> else s) = Inr s'"
  shows "moves_on s' ls ws p b"
proof -
  have "(if b = CR then s\<lparr> after_cr := True \<rparr> else s) = s\<lparr> after_cr := (b = CR) \<rparr>"
    using assms(3,4) by auto
  with assms(5) ending_step [OF assms(1-3)] show ?thesis by (auto simp: moves_on_def)
qed

lemma before_moves:
  assumes "stands s ls ws Before" and "\<not> after_cr s" and "csv_dispatch FieldStart s b = Inr s'"
  shows "moves_on s' ls ws Before b"
proof -
  let ?b = "csv_begin s"
  have h: "holds_text ?b ls ws Before" "started ?b" "\<not> after_cr ?b"
    using assms(1,2) by (simp_all add: csv_begin_def stands_def holds_text_def)
  consider "b = QUOTE" | "b = DELIMITER" | "b = LF \<or> b = CR"
    | "b \<noteq> QUOTE" "b \<noteq> DELIMITER" "b \<noteq> LF" "b \<noteq> CR" by blast
  then show ?thesis
  proof cases
    case 1
    with assms(3) h have "stands s' ls ws (InQuotes [])" by (auto simp: stands_def holds_text_def)
    then show ?thesis by (rule moves_onI) (simp add: text_read_def escape_def 1)
  next
    case 2
    with assms(3) moves_on_delimiter [OF h(1) _ h(2,3)] show ?thesis by simp
  next
    case 3
    with assms(3) show ?thesis by (intro moves_on_ending [OF assms(1) _ 3 assms(2)]) auto
  next
    case 4
    with assms(3) obtain u where u: "csv_push ?b b = Inr u" "s' = u\<lparr> csv_state := Unquoted \<rparr>"
      by (auto simp: and_then_Inr_iff)
    from push_step [OF h(1) u(1)] have "stands s' ls ws (InBare [b])"
      using h 4 by (auto simp: stands_def holds_text_def u(2) bare_def plain_def)
    then show ?thesis by (rule moves_onI) (simp add: text_read_def)
  qed
qed

lemma bare_moves:
  assumes "stands s ls ws (InBare f)" and "csv_dispatch Unquoted s b = Inr s'"
  shows "moves_on s' ls ws (InBare f) b"
proof -
  have h: "holds_text s ls ws (InBare f)" "started s" "\<not> after_cr s"
    using assms(1) by (simp_all add: stands_def)
  consider "b = DELIMITER" | "b = LF \<or> b = CR" | "b \<noteq> DELIMITER" "b \<noteq> LF" "b \<noteq> CR" by blast
  then show ?thesis
  proof cases
    case 1
    with assms(2) moves_on_delimiter [OF h(1) _ h(2,3)] show ?thesis by simp
  next
    case 2
    with assms(2) show ?thesis by (intro moves_on_ending [OF assms(1) _ 2 h(3)]) auto
  next
    case 3
    with assms(2) push_step [OF h(1)] have "stands s' ls ws (InBare (f @ [b]))"
      using h by (fastforce simp: stands_def holds_text_def bare_def plain_def)
    then show ?thesis by (rule moves_onI) (simp add: text_read_def)
  qed
qed

lemma quoted_moves:
  assumes "stands s ls ws (InQuotes f)" and "csv_dispatch Quoted s b = Inr s'"
  shows "moves_on s' ls ws (InQuotes f) b"
proof (cases "b = QUOTE")
  case True
  with assms have "stands s' ls ws (AfterQuote f)" by (auto simp: stands_def holds_text_def)
  then show ?thesis by (rule moves_onI) (simp add: text_read_def quote_field_def True)
next
  case False
  let ?u = "if b = LF then s\<lparr> csv_line := csv_line s + 1 \<rparr> else s"
  have u: "holds_text ?u ls ws (InQuotes f)" using assms(1) by (simp add: stands_def holds_text_def)
  from assms(2) False have "csv_push ?u b = Inr s'" by (auto split: if_splits)
  from push_step [OF u this] have "stands s' ls ws (InQuotes (f @ [b]))"
    using assms(1) by (auto simp: stands_def holds_text_def)
  then show ?thesis by (rule moves_onI) (simp add: text_read_def escape_snoc False)
qed

lemma after_quote_moves:
  assumes "stands s ls ws (AfterQuote f)" and "csv_dispatch QuoteInQuoted s b = Inr s'"
  shows "moves_on s' ls ws (AfterQuote f) b"
proof -
  have h: "holds_text s ls ws (AfterQuote f)" "started s" "\<not> after_cr s"
    using assms(1) by (simp_all add: stands_def)
  consider "b = QUOTE" | "b = DELIMITER" | "b = LF \<or> b = CR" using assms(2) by (auto split: if_splits)
  then show ?thesis
  proof cases
    case 1
    with assms(2) obtain u where u: "csv_push s QUOTE = Inr u" "s' = u\<lparr> csv_state := Quoted \<rparr>"
      by (auto simp: and_then_Inr_iff)
    from push_step [OF h(1) u(1)] have "stands s' ls ws (InQuotes (f @ [QUOTE]))"
      using h by (auto simp: stands_def holds_text_def u(2))
    then show ?thesis by (rule moves_onI) (simp add: text_read_def escape_snoc quote_field_def 1)
  next
    case 2
    with assms(2) moves_on_delimiter [OF h(1) _ h(2,3)] show ?thesis by simp
  next
    case 3
    with assms(2) show ?thesis by (intro moves_on_ending [OF assms(1) _ 3 h(3)]) auto
  qed
qed

lemma byte_moves:
  assumes "stands s ls ws p" and "csv_byte s b = Inr s'"
  shows "moves_on s' ls ws p b"
proof (cases "csv_state s \<noteq> Quoted \<and> b = LF \<and> after_cr s")
  case True
  with assms obtain ls' r where ls: "ls = ls' @ [(r, [CR])]" "ws = []" "p = Before" and s': "s' = s\<lparr> after_cr := False \<rparr>"
    by (auto simp: stands_def csv_byte_def)
  have "stands s' (ls' @ [(r, [CR, LF])]) [] Before"
    using assms(1) by (auto simp: stands_def holds_text_def s' ls line_ending_def)
  moreover have "text_read (ls' @ [(r, [CR, LF])]) [] Before = text_read ls ws p @ [b]"
    using True by (simp add: text_read_def ls fields_text_def)
  ultimately show ?thesis by (rule moves_onI)
next
  case False
  let ?t = "s\<lparr> after_cr := False \<rparr>"
  have t: "stands ?t ls ws p" and p: "csv_state s = part_state p" using assms(1) by (simp_all add: stands_def holds_text_def)
  have same: "?t = s" if "p \<noteq> Before" using assms(1) that by (simp add: stands_def)
  from False assms(2) have "csv_dispatch (part_state p) (if part_state p = Quoted then s else ?t) b = Inr s'"
    by (auto simp: csv_byte_def p)
  with t same show ?thesis
    by (cases p) (auto intro: before_moves bare_moves quoted_moves after_quote_moves)
qed

lemma feed_moves: "stands s ls ws p \<Longrightarrow> csv_feed s bs = Inr s' \<Longrightarrow>
    \<exists>ls' ws' p'. stands s' ls' ws' p' \<and> text_read ls' ws' p' = text_read ls ws p @ bs"
proof (induction bs arbitrary: s ls ws p)
  case (Cons b bs)
  from Cons.prems(2) obtain t where t: "csv_byte s b = Inr t" "csv_feed t bs = Inr s'" by (auto simp: and_then_Inr_iff)
  from byte_moves [OF Cons.prems(1) t(1)] Cons.IH [OF _ t(2)] show ?case by (fastforce simp: moves_on_def)
qed auto

lemma finish_stands:
  assumes "stands s ls ws p" and "csv_finish s = Inr (rs, h)"
  shows "\<exists>row. file_ok ls row \<and> csv_text ls row = text_read ls ws p \<and> map snd rs = csv_rows ls row"
proof (cases "started s")
  case False
  with assms have "file_ok ls [] \<and> csv_text ls [] = text_read ls ws p \<and> map snd rs = csv_rows ls []"
    by (auto simp: csv_finish_def stands_def holds_text_def file_ok_def csv_text_def text_read_def fields_text_def
        csv_rows_def split: if_splits)
  then show ?thesis by blast
next
  case True
  let ?row = "ws @ [part_written p]"
  from assms True obtain t where t: "end_field s = Inr t" and rs: "map snd rs = map snd (records_done t) @ [csv_fields t]"
    and q: "part_state p \<noteq> Quoted"
    by (auto simp: csv_finish_def end_record_def and_then_Inr_iff stands_def holds_text_def split: if_splits)
  have h: "holds_text s ls ws p" using assms(1) by (simp add: stands_def)
  from end_field_holds [OF h t] have t': "holds_text t ls ?row Before" "written_ok (part_written p)" "length ws < MAX_FIELDS"
    by auto
  have "record_ok ?row"
    using assms(1) True t' by (cases p) (auto simp: record_ok_def stands_def holds_text_def)
  then have "file_ok ls ?row \<and> csv_text ls ?row = text_read ls ws p \<and> map snd rs = csv_rows ls ?row"
    using t' rs q by (auto simp: file_ok_def csv_text_def text_read_def record_text_snoc part_written_text
        csv_rows_def holds_text_def)
  then show ?thesis by blast
qed

section \<open>Every file is accepted\<close>

text \<open>Behind the text of a field that may end here.\<close>

definition fielded :: "csv \<Rightarrow> str list list \<Rightarrow> str list \<Rightarrow> str \<Rightarrow> bool" where
  "fielded s rs fs f \<longleftrightarrow> csv_state s \<noteq> Quoted \<and> (csv_state s = FieldStart \<longrightarrow> f = []) \<and> field_bytes s = f
     \<and> ceiling s = u64_max \<and> map snd (records_done s) = rs \<and> csv_fields s = fs \<and> started s \<and> \<not> after_cr s"

definition expects :: "csv \<Rightarrow> str list list \<Rightarrow> str list \<Rightarrow> bool" where
  "expects s rs fs \<longleftrightarrow> ready s rs fs \<and> (fs \<noteq> [] \<longrightarrow> \<not> after_cr s)"

lemma end_fielded:
  assumes "fielded s rs fs f" and "length fs < MAX_FIELDS" and "utf8_ok f"
  shows "\<exists>s'. end_field s = Inr s' \<and> expects s' rs (fs @ [f])"
    and "\<exists>s'. end_record s = Inr s' \<and> expects s' (rs @ [fs @ [f]]) [] \<and> after_cr s' = after_cr s"
    and "\<exists>s'. newline s = Inr s' \<and> expects s' (rs @ [fs @ [f]]) []"
    and "\<exists>s'. newline (s\<lparr> after_cr := True \<rparr>) = Inr s' \<and> expects s' (rs @ [fs @ [f]]) [] \<and> after_cr s'"
  using assms by (auto simp: newline_def end_record_def end_field_def Let_def fielded_def expects_def ready_def)

lemma fielded_bytes:
  assumes "fielded s rs fs f"
  shows "csv_byte s DELIMITER = end_field s" and "csv_byte s LF = newline s"
    and "csv_byte s CR = newline (s\<lparr> after_cr := True \<rparr>)"
  using assms by (cases "csv_state s"; simp add: csv_byte_def fielded_def after_cr_same csv_begin_def)+

text \<open>The field's own text, where there is any.\<close>

lemma feed_written:
  assumes "expects s rs fs" and "written_ok w" and "w \<noteq> Bare [] \<or> fs \<noteq> []"
  shows "\<exists>s'. csv_feed s (written_as w) = Inr s' \<and> fielded s' rs fs (field_text w)"
proof (cases w)
  case (Enclosed f)
  with feed_quoted [of s rs fs f] assms(1,2) show ?thesis
    by (auto simp: expects_def written_ok_def closed_def fielded_def)
next
  case (Bare f)
  show ?thesis
  proof (cases f)
    case Nil
    with assms Bare show ?thesis by (auto simp: expects_def ready_def fielded_def)
  next
    case (Cons c g)
    let ?t = "(csv_begin (s\<lparr> after_cr := False \<rparr>))\<lparr> field_bytes := [c], csv_state := Unquoted \<rparr>"
    have c: "c \<noteq> QUOTE" "c \<noteq> DELIMITER" "c \<noteq> LF" "c \<noteq> CR" "plain g" "length g < MAX_FIELD"
      using assms(2) by (auto simp: Bare Cons written_ok_def bare_def plain_def)
    have "csv_byte s c = Inr ?t"
      using assms(1) c by (auto simp: csv_byte_def csv_push_def csv_begin_def expects_def ready_def)
    moreover have "csv_feed ?t g = Inr (?t\<lparr> field_bytes := [c] @ g \<rparr>)"
      using feed_unquoted [of ?t g] assms(1) c by (simp add: csv_begin_def expects_def ready_def)
    ultimately show ?thesis
      using assms(1) by (auto simp: Bare Cons fielded_def csv_begin_def expects_def ready_def)
  qed
qed

lemma feed_delimited:
  assumes "expects s rs fs" and "written_ok w" and "length fs < MAX_FIELDS"
  shows "\<exists>s'. csv_feed s (written_as w @ [DELIMITER]) = Inr s' \<and> expects s' rs (fs @ [field_text w])"
proof (cases "w = Bare [] \<and> fs = []")
  case True
  let ?b = "csv_begin (s\<lparr> after_cr := False \<rparr>)"
  have b: "fielded ?b rs fs []" using assms(1) True by (auto simp: csv_begin_def fielded_def expects_def ready_def)
  have "csv_byte s DELIMITER = end_field ?b"
    using assms(1) by (simp add: csv_byte_def expects_def ready_def)
  with end_fielded(1) [OF b assms(3)] True show ?thesis by auto
next
  case False
  with feed_written [OF assms(1,2)] obtain t where t: "csv_feed s (written_as w) = Inr t" "fielded t rs fs (field_text w)"
    by auto
  with end_fielded(1) [OF t(2) assms(3)] fielded_bytes(1) [OF t(2)] assms(2) show ?thesis
    by (auto simp: csv_feed_append written_ok_def)
qed

lemma feed_fields:
  assumes "expects s rs fs" and "\<forall>w \<in> set ws. written_ok w" and "length fs + length ws \<le> MAX_FIELDS"
  shows "\<exists>s'. csv_feed s (fields_text ws) = Inr s' \<and> expects s' rs (fs @ map field_text ws)"
  using assms
proof (induction ws arbitrary: s fs)
  case (Cons w ws)
  from feed_delimited [OF Cons.prems(1), of w] Cons.prems obtain t where
    t: "csv_feed s (written_as w @ [DELIMITER]) = Inr t" "expects t rs (fs @ [field_text w])" by auto
  from Cons.IH [OF t(2)] Cons.prems obtain u where
    "csv_feed t (fields_text ws) = Inr u" "expects u rs ((fs @ [field_text w]) @ map field_text ws)" by auto
  moreover have "fields_text (w # ws) = (written_as w @ [DELIMITER]) @ fields_text ws" by (simp add: fields_text_def)
  ultimately show ?case
    using t(1) by (simp only: csv_feed_append [of s "written_as w @ [DELIMITER]"] and_then.simps) auto
qed (auto simp: fields_text_def)

lemma feed_record_text:
  assumes "expects s rs []" and "record_ok ws"
  shows "\<exists>s' gs f. csv_feed s (record_text ws) = Inr s' \<and> fielded s' rs gs f \<and> map field_text ws = gs @ [f]
    \<and> length gs < MAX_FIELDS \<and> utf8_ok f"
proof -
  obtain vs w where ws: "ws = vs @ [w]" using assms(2) by (cases ws rule: rev_cases) (auto simp: record_ok_def)
  from assms(2) have ok: "\<forall>v \<in> set vs. written_ok v" "written_ok w" "length vs < MAX_FIELDS" "w \<noteq> Bare [] \<or> vs \<noteq> []"
    by (auto simp: ws record_ok_def)
  from feed_fields [OF assms(1) ok(1)] ok(3) obtain t where
    t: "csv_feed s (fields_text vs) = Inr t" "expects t rs (map field_text vs)" by auto
  from feed_written [OF t(2) ok(2)] ok(4) obtain u where
    "csv_feed t (written_as w) = Inr u" "fielded u rs (map field_text vs) (field_text w)" by auto
  with t(1) ok show ?thesis
    by (auto simp: ws record_text_snoc csv_feed_append written_ok_def)
qed

lemma feed_line:
  assumes "expects s rs []" and "ws = [] \<or> record_ok ws" and "line_ending e"
  shows "\<exists>s'. csv_feed s (record_text ws @ e) = Inr s'
    \<and> expects s' (rs @ (if ws = [] then [] else [map field_text ws])) []"
proof (cases "ws = []")
  case True
  from assms(1,3) show ?thesis
    by (auto simp: True line_ending_def csv_byte_def newline_def expects_def ready_def)
next
  case False
  with assms(2) feed_record_text [OF assms(1)] obtain t gs f where
    t: "csv_feed s (record_text ws) = Inr t" "fielded t rs gs f" "map field_text ws = gs @ [f]"
      "length gs < MAX_FIELDS" "utf8_ok f" by blast
  note ends = end_fielded [OF t(2,4,5)] fielded_bytes [OF t(2)]
  have "\<exists>s'. csv_feed t e = Inr s' \<and> expects s' (rs @ [gs @ [f]]) []"
    using assms(3) ends by (auto simp: line_ending_def) (auto simp: csv_byte_def expects_def ready_def)
  with t(1,3) False show ?thesis by (auto simp: csv_feed_append)
qed

lemma feed_lines:
  assumes "expects s rs []" and "lines_ok ls"
  shows "\<exists>s'. csv_feed s (lines_text ls) = Inr s' \<and> expects s' (rs @ lines_rows ls) []"
  using assms
proof (induction ls arbitrary: s rs)
  case (Cons l ls)
  from feed_line [OF Cons.prems(1), of "fst l" "snd l"] Cons.prems(2) obtain t where
    t: "csv_feed s (record_text (fst l) @ snd l) = Inr t"
      "expects t (rs @ (if fst l = [] then [] else [map field_text (fst l)])) []" by auto
  from Cons.IH [OF t(2)] Cons.prems(2) obtain u where u: "csv_feed t (lines_text ls) = Inr u"
      "expects u ((rs @ (if fst l = [] then [] else [map field_text (fst l)])) @ lines_rows ls) []" by auto
  have "lines_text (l # ls) = (record_text (fst l) @ snd l) @ lines_text ls" by simp
  then have "csv_feed s (lines_text (l # ls)) = Inr u"
    by (simp only: csv_feed_append [of s "record_text (fst l) @ snd l"] t(1) u(1) and_then.simps)
  with u(2) show ?case by auto
qed auto

lemma feed_file:
  assumes "file_ok ls ws"
  shows "\<exists>s rs h. csv_feed (csv_new u64_max) (csv_text ls ws) = Inr s \<and> csv_finish s = Inr (rs, h)
    \<and> map snd rs = csv_rows ls ws"
proof -
  have "expects (csv_new u64_max) [] []" by (simp add: expects_def ready_def csv_new_def)
  from feed_lines [OF this] assms obtain t where
    t: "csv_feed (csv_new u64_max) (lines_text ls) = Inr t" "expects t (lines_rows ls) []" by (auto simp: file_ok_def)
  show ?thesis
  proof (cases "ws = []")
    case True
    with t show ?thesis by (auto simp: csv_text_def csv_rows_def csv_finish_def expects_def ready_def)
  next
    case False
    then have "record_ok ws" using assms by (simp add: file_ok_def)
    from feed_record_text [OF t(2) this] obtain u gs f where
      u: "csv_feed t (record_text ws) = Inr u" "fielded u (lines_rows ls) gs f" "map field_text ws = gs @ [f]"
        "length gs < MAX_FIELDS" "utf8_ok f" by blast
    from end_fielded(2) [OF u(2,4,5)] obtain v where
      v: "end_record u = Inr v" "expects v (lines_rows ls @ [gs @ [f]]) []" by blast
    have "csv_finish u = Inr (records_done v, held v)" "map snd (records_done v) = lines_rows ls @ [gs @ [f]]"
      using u(2) v by (simp_all add: csv_finish_def fielded_def expects_def ready_def)
    with t(1) u(1,3) False show ?thesis by (auto simp: csv_text_def csv_rows_def csv_feed_append)
  qed
qed

section \<open>The reader and the language\<close>

text \<open>With no ceiling, what the reader accepts is the language and what it reads of a file is what was
  written there: an input, however cut, is read as some records exactly when it is the text of a file,
  bare and quoted fields, line endings and blank lines in any mixture, with those records, a
  byte-order mark dropped from the first field. Everything else is refused.\<close>

theorem csv_reads_exactly_the_language:
  assumes "[] \<notin> set cs"
  shows "(\<exists>rs h. csv_records (map Inr cs) u64_max = Inr (rs, h) \<and> map snd rs = rows) \<longleftrightarrow>
    (\<exists>ls ws. file_ok ls ws \<and> csv_text ls ws = concat cs \<and> drop_bom (csv_rows ls ws) = rows)"
proof
  assume "\<exists>rs h. csv_records (map Inr cs) u64_max = Inr (rs, h) \<and> map snd rs = rows"
  then obtain s rs h where s: "csv_feed (csv_new u64_max) (concat cs) = Inr s" "csv_finish s = Inr (rs, h)"
    and rows: "map snd (strip_bom rs) = rows"
    by (auto simp: csv_records_def csv_feed_chunks_concat [OF assms] and_then_Inr_iff)
  have "stands (csv_new u64_max) [] [] Before" by (simp add: stands_def holds_text_def csv_new_def)
  from feed_moves [OF this s(1)] obtain ls ws p where
    "stands s ls ws p" "text_read ls ws p = concat cs" by (auto simp: text_read_def fields_text_def)
  with finish_stands [OF _ s(2)] rows show "\<exists>ls ws. file_ok ls ws \<and> csv_text ls ws = concat cs \<and> drop_bom (csv_rows ls ws) = rows"
    by (metis map_snd_strip_bom)
next
  assume "\<exists>ls ws. file_ok ls ws \<and> csv_text ls ws = concat cs \<and> drop_bom (csv_rows ls ws) = rows"
  then obtain ls ws where "file_ok ls ws" and bytes: "csv_text ls ws = concat cs" and rows: "drop_bom (csv_rows ls ws) = rows"
    by blast
  from feed_file [OF this(1)] obtain s rs h where
    "csv_feed (csv_new u64_max) (concat cs) = Inr s" "csv_finish s = Inr (rs, h)" "map snd rs = csv_rows ls ws"
    by (auto simp: bytes)
  with rows show "\<exists>rs h. csv_records (map Inr cs) u64_max = Inr (rs, h) \<and> map snd rs = rows"
    by (auto simp: csv_records_def csv_feed_chunks_concat [OF assms] map_snd_strip_bom)
qed

definition mixed_lines :: csv_lines where
  "mixed_lines =
     [([Bare ''asn'', Bare ''name''], [CR, LF]), ([], [CR]), ([Bare ''1'', Enclosed (''a,'' @ [QUOTE, LF])], [LF])]"

lemma mixed_ok: "file_ok mixed_lines [Bare ''2'', Bare []]"
  by (simp add: file_ok_def mixed_lines_def line_ending_def record_ok_def written_ok_def bare_def plain_def
      MAX_FIELD_def MAX_FIELDS_def utf8_ok.simps(2) between_def DELIMITER_def LF_def CR_def QUOTE_def)

text \<open>A mixture that is read, in two chunks, and a quote never closed that is no file.\<close>

theorem csv_reads_exactly_the_language_witness:
  "(\<exists>rs h. csv_records (map Inr [''asn,n'', drop 5 (csv_text mixed_lines [Bare ''2'', Bare []])]) u64_max = Inr (rs, h)
      \<and> map snd rs = [[''asn'', ''name''], [''1'', ''a,'' @ [QUOTE, LF]], [''2'', []]])
   \<and> \<not> (\<exists>ls ws. file_ok ls ws \<and> csv_text ls ws = QUOTE # ''a'')"
proof
  let ?cs = "[''asn,n'', drop 5 (csv_text mixed_lines [Bare ''2'', Bare []])]"
  have cs: "[] \<notin> set ?cs" and bytes: "concat ?cs = csv_text mixed_lines [Bare ''2'', Bare []]"
    by (simp_all add: csv_text_def mixed_lines_def DELIMITER_def)
  have "drop_bom (csv_rows mixed_lines [Bare ''2'', Bare []]) =
      [[''asn'', ''name''], [''1'', ''a,'' @ [QUOTE, LF]], [''2'', []]]"
    by (simp add: csv_rows_def mixed_lines_def starts_with_def BOM_def)
  with mixed_ok bytes show "\<exists>rs h. csv_records (map Inr ?cs) u64_max = Inr (rs, h)
      \<and> map snd rs = [[''asn'', ''name''], [''1'', ''a,'' @ [QUOTE, LF]], [''2'', []]]"
    unfolding csv_reads_exactly_the_language [OF cs] by metis
next
  have open_quote: "csv_records (map Inr [QUOTE # ''a'']) u64_max = Inl (Malformed 1 ''a quoted field is never closed'')"
    by (simp add: csv_eval)
  have "[] \<notin> set [QUOTE # ''a'']" by simp
  note never = csv_reads_exactly_the_language [OF this]
  have "\<not> (\<exists>ls ws. file_ok ls ws \<and> csv_text ls ws = QUOTE # ''a'' \<and> drop_bom (csv_rows ls ws) = rows)" for rows
    using never [of rows] open_quote by simp
  then show "\<not> (\<exists>ls ws. file_ok ls ws \<and> csv_text ls ws = QUOTE # ''a'')" by blast
qed

end
