(* ===== verification/Json_Reader.thy ===== *)
theory Json_Reader
  imports Csv_Reader
begin

text \<open>
  The JSON half of \<open>src/table/parse.rs\<close>: the meter that bounds the text of one element, the walk
  over the array's elements that widens the table as new keys appear, and \<open>read\<close>, which chooses
  between the two encodings. \<open>serde_json\<close> is not part of the repository: a document is what it
  makes of the bytes, given as the outcome of reading each element in the room it is left. The
  lemmas show that the one-pass widening gives the table two passes would give, that the charge is
  the exact cost of the rows, and that no element takes more bytes than its room.
\<close>

section \<open>The meter\<close>

text \<open>Bytes left for the element being read, \<open>None\<close> between elements, and whether one ran out.\<close>

record meter =
  room :: "nat option"
  tripped :: bool

definition meter_default :: meter where
  "meter_default = \<lparr> room = None, tripped = False \<rparr>"

text \<open>
  An \<open>io::Read\<close>: asked for some number of bytes, what it delivers and the reader it leaves, or an
  IO error.
\<close>

type_synonym 'r io_read = "'r \<Rightarrow> nat \<Rightarrow> (str, str \<times> 'r) result"

definition metered_read :: "'r io_read \<Rightarrow> meter \<times> 'r \<Rightarrow> nat \<Rightarrow> (str, str \<times> meter \<times> 'r) result \<times> meter" where
  "metered_read inner mr len =
     (let (m, r) = mr in
      case room m of
        None \<Rightarrow> (map_err id (and_then (inner r len) (\<lambda>(bs, r'). Inr (bs, m, r'))), m)
      | Some left \<Rightarrow>
          if left = 0
          then (Inl ''an element outgrew the resident ceiling'', m\<lparr> tripped := True \<rparr>)
          else (case inner r (min len left) of
                  Inl e \<Rightarrow> (Inl e, m)
                | Inr (bs, r') \<Rightarrow>
                    let m' = m\<lparr> room := Some (left - length bs) \<rparr> in (Inr (bs, m', r'), m')))"

text \<open>A parser's successive requests while it reads one element, and all the bytes it was given.\<close>

fun metered_run :: "'r io_read \<Rightarrow> meter \<times> 'r \<Rightarrow> nat list \<Rightarrow> str" where
  "metered_run inner mr [] = []"
| "metered_run inner mr (len # lens) =
     (case fst (metered_read inner mr len) of
        Inl e \<Rightarrow> []
      | Inr (bs, mr') \<Rightarrow> bs @ metered_run inner mr' lens)"

text \<open>The contract of \<open>io::Read\<close>: never more bytes than the buffer holds.\<close>

locale byte_source =
  fixes inner :: "'r \<Rightarrow> nat \<Rightarrow> (str, str \<times> 'r) result"
  assumes fits_buffer: "inner r len = Inr (bs, r') \<Longrightarrow> length bs \<le> len"
begin

lemma metered_step:
  assumes "room m = Some left" and "fst (metered_read inner (m, r) len) = Inr (bs, m', r')"
  shows "length bs \<le> left \<and> room m' = Some (left - length bs)"
  using assms fits_buffer [of r "min len left"]
  by (auto simp: metered_read_def Let_def split: if_splits sum.splits)

lemma metered_total: "room m = Some left \<Longrightarrow> length (metered_run inner (m, r) lens) \<le> left"
proof (induction lens arbitrary: m r left)
  case (Cons len lens)
  show ?case
  proof (cases "fst (metered_read inner (m, r) len)")
    case (Inr out)
    obtain bs m' r' where out: "out = (bs, m', r')" by (cases out)
    with Inr metered_step [OF Cons.prems] have "length bs \<le> left" "room m' = Some (left - length bs)"
      by blast+
    with Cons.IH [of m' "left - length bs" r'] show ?thesis by (simp add: Inr out)
  qed simp
qed simp

text \<open>The metered reader keeps the contract of the reader it wraps.\<close>

lemma metered_source: "byte_source (\<lambda>mr len. fst (metered_read inner mr len))"
proof
  fix mr :: "meter \<times> 'r" and len bs mr'
  assume run: "fst (metered_read inner mr len) = Inr (bs, mr')"
  obtain m r where mr: "mr = (m, r)" by (cases mr)
  show "length bs \<le> len"
  proof (cases "room m")
    case None
    with run fits_buffer [of r len] show ?thesis
      by (cases "inner r len") (auto simp: metered_read_def mr)
  next
    case (Some left)
    with run fits_buffer [of r "min len left"] show ?thesis
      by (auto simp: metered_read_def mr Let_def split: if_splits sum.splits)
  qed
qed

end

text \<open>Reading from a slice, as \<open>impl Read for &[u8]\<close> does.\<close>

definition slice_read :: "str io_read" where
  "slice_read s len = Inr (take len s, drop len s)"

interpretation slice: byte_source slice_read
  by unfold_locales (auto simp: slice_read_def)

interpretation metered_slice: byte_source "\<lambda>mr len. fst (metered_read slice_read mr len)"
  by (rule slice.metered_source)

section \<open>Documents\<close>

datatype json =
    JNull
  | JBool bool
  | JNumber str
  | JString str
  | JArray "json list"
  | JObject "(str \<times> json) list"

fun as_object :: "json \<Rightarrow> (str \<times> json) list option" where
  "as_object (JObject kvs) = Some kvs"
| "as_object _ = None"

text \<open>What \<open>serde_json\<close> reports when it is asked for an element with some room.\<close>

datatype element_read = Element json | OutOfRoom | Broken str

type_synonym element = "nat \<Rightarrow> element_read"

text \<open>
  A document: not an array at all, or an array's elements and what stands where it should end (an
  error in closing the array, or anything after it).
\<close>

datatype document = NotArray str | Elements "element list" "str option"

text \<open>A JSON value as a cell; \<open>to_text\<close> is \<open>Value::to_string\<close>.\<close>

fun cell_of_value :: "(json \<Rightarrow> str) \<Rightarrow> json option \<Rightarrow> cell" where
  "cell_of_value to_text None = None"
| "cell_of_value to_text (Some JNull) = None"
| "cell_of_value to_text (Some (JString t)) = cell_of_text t"
| "cell_of_value to_text (Some v) = Some (to_text v)"

section \<open>The walk over the elements\<close>

record walk =
  w_columns :: "str list"
  w_rows :: "row list"
  w_held :: nat
  w_seen :: nat

text \<open>What ends a walk early: a reason kept for the caller, or an error of the parser's own.\<close>

datatype visit_error = Stopped table_error | Serde str

definition insert_at :: "nat \<Rightarrow> 'a \<Rightarrow> 'a list \<Rightarrow> 'a list" where
  "insert_at i x xs = take i xs @ x # drop i xs"

text \<open>\<open>binary_search\<close> on a sorted slice: where the key is missing, the place that keeps the order.\<close>

definition insertion_point :: "str \<Rightarrow> str list \<Rightarrow> nat option" where
  "insertion_point key cs =
     (if key \<in> set cs then None else Some (length (takeWhile (\<lambda>c. c < key) cs)))"

text \<open>One key of an object that names its own columns: a new one widens every row already read.\<close>

definition widen :: "walk \<Rightarrow> str \<Rightarrow> (visit_error, walk) result" where
  "widen w key =
     (case insertion_point key (w_columns w) of
        None \<Rightarrow> Inr w
      | Some i \<Rightarrow>
          if MAX_FIELDS \<le> length (w_columns w)
          then Inl (Stopped (NotAnArrayOfObjects
                 (''the objects carry more than '' @ show_nat MAX_FIELDS @ '' keys'')))
          else Inr (w\<lparr> w_columns := insert_at i key (w_columns w),
                       w_rows := map (insert_at i None) (w_rows w),
                       w_held := sat_add (w_held w) (widened (length (w_rows w))) \<rparr>))"

definition row_of_object :: "(json \<Rightarrow> str) \<Rightarrow> str list \<Rightarrow> (str \<times> json) list \<Rightarrow> row" where
  "row_of_object to_text cs kvs = map (\<lambda>c. cell_of_value to_text (map_of kvs c)) cs"

definition take_object ::
    "(json \<Rightarrow> str) \<Rightarrow> nat \<Rightarrow> walk \<Rightarrow> (str \<times> json) list \<Rightarrow> (visit_error, walk) result" where
  "take_object to_text c w kvs =
     (let row = row_of_object to_text (w_columns w) kvs;
          held = sat_add (w_held w) (footprint row)
      in if c < held then Inl (Stopped (OverResidentCeiling c))
         else Inr (w\<lparr> w_held := held, w_rows := w_rows w @ [row], w_seen := w_seen w + 1 \<rparr>))"

text \<open>One round of the loop: the element, its object, its new keys, its row.\<close>

definition visit_element ::
    "(json \<Rightarrow> str) \<Rightarrow> bool \<Rightarrow> nat \<Rightarrow> walk \<Rightarrow> element \<Rightarrow> (visit_error, walk) result" where
  "visit_element to_text stated c w e =
     (case e (c - w_held w) of
        OutOfRoom \<Rightarrow> Inl (Stopped (OverResidentCeiling c))
      | Broken err \<Rightarrow> Inl (Serde err)
      | Element v \<Rightarrow>
          (case as_object v of
             None \<Rightarrow> Inl (Stopped (NotAnArrayOfObjects
                       (''element '' @ show_nat (w_seen w) @ '' is not an object'')))
           | Some kvs \<Rightarrow>
               and_then (if stated then Inr w else try_fold widen w (map fst kvs))
                 (\<lambda>w'. take_object to_text c w' kvs)))"

definition walk_start :: "schema \<Rightarrow> walk" where
  "walk_start sch =
     \<lparr> w_columns = (case sch of Auto \<Rightarrow> [] | Named names \<Rightarrow> names), w_rows = [], w_held = 0,
       w_seen = 0 \<rparr>"

definition visit_seq ::
    "(json \<Rightarrow> str) \<Rightarrow> schema \<Rightarrow> nat \<Rightarrow> element list \<Rightarrow> (visit_error, parsed) result" where
  "visit_seq to_text sch c es =
     and_then (try_fold (visit_element to_text (sch \<noteq> Auto) c) (walk_start sch) es) (\<lambda>w.
       if w_seen w = 0 then Inl (Stopped Empty)
       else if w_columns w = [] then Inl (Stopped NoNames)
       else Inr \<lparr> par_columns = w_columns w, par_rows = w_rows w, par_held = w_held w \<rparr>)"

text \<open>What stopped the walk is the answer, ahead of what the parser then makes of the document.\<close>

fun not_an_array :: "visit_error \<Rightarrow> table_error" where
  "not_an_array (Stopped e) = e"
| "not_an_array (Serde detail) = NotAnArrayOfObjects detail"

definition read_json ::
    "(json \<Rightarrow> str) \<Rightarrow> document \<Rightarrow> schema \<Rightarrow> nat \<Rightarrow> (table_error, parsed) result" where
  "read_json to_text doc sch c =
     (case doc of
        NotArray e \<Rightarrow> Inl (NotAnArrayOfObjects e)
      | Elements es trailing \<Rightarrow>
          and_then (map_err not_an_array (visit_seq to_text sch c es)) (\<lambda>p.
            case trailing of Some e \<Rightarrow> Inl (NotAnArrayOfObjects e) | None \<Rightarrow> Inr p))"

text \<open>
  Read a source file into columns and rows. \<open>document_of\<close> is what \<open>serde_json\<close> makes of the bytes.
\<close>

definition read_table ::
    "(reader \<Rightarrow> document) \<Rightarrow> (json \<Rightarrow> str) \<Rightarrow> reader \<Rightarrow> table_format \<Rightarrow> schema \<Rightarrow> nat
     \<Rightarrow> (table_error, parsed) result" where
  "read_table document_of to_text r fmt sch c =
     (case fmt of
        Csv header \<Rightarrow> read_csv r header sch c
      | Json \<Rightarrow> read_json to_text (document_of r) sch c)"

section \<open>One pass gives the table two passes would\<close>

text \<open>Every key of every object, and what the rows under some columns cost.\<close>

definition keys_of :: "(str \<times> json) list list \<Rightarrow> str list" where
  "keys_of objs = concat (map (map fst) objs)"

definition rows_of_objects ::
    "(json \<Rightarrow> str) \<Rightarrow> str list \<Rightarrow> (str \<times> json) list list \<Rightarrow> row list" where
  "rows_of_objects to_text cs objs = map (row_of_object to_text cs) objs"

definition rows_cost :: "row list \<Rightarrow> nat" where
  "rows_cost rs = sum_list (map footprint rs)"

text \<open>The reference: gather all the keys, sort them, then read each object under them.\<close>

definition two_pass :: "(json \<Rightarrow> str) \<Rightarrow> (str \<times> json) list list \<Rightarrow> str list \<times> row list" where
  "two_pass to_text objs =
     (let cs = sort (remdups (keys_of objs)) in (cs, rows_of_objects to_text cs objs))"

definition walked :: "(json \<Rightarrow> str) \<Rightarrow> (str \<times> json) list list \<Rightarrow> str set \<Rightarrow> walk \<Rightarrow> bool" where
  "walked to_text objs extra w \<longleftrightarrow>
     sorted_wrt (<) (w_columns w)
     \<and> set (w_columns w) = set (keys_of objs) \<union> extra
     \<and> w_rows w = rows_of_objects to_text (w_columns w) objs
     \<and> w_held w = min (rows_cost (w_rows w)) u64_max
     \<and> w_seen w = length objs
     \<and> length (w_columns w) \<le> MAX_FIELDS"

lemma footprint_insert [simp]: "i \<le> length r \<Longrightarrow> footprint (insert_at i None r) = footprint r + CELL_OVERHEAD"
proof -
  assume "i \<le> length r"
  have "sum_list (map cell_cost r) = sum_list (map cell_cost (take i r)) + sum_list (map cell_cost (drop i r))"
    by (metis append_take_drop_id map_append sum_list_append)
  then show ?thesis
    by (simp add: footprint_def insert_at_def cell_cost_def)
qed

lemma insert_at_set [simp]: "set (insert_at i x xs) = insert x (set xs)"
proof -
  have "set xs = set (take i xs) \<union> set (drop i xs)"
    by (metis append_take_drop_id set_append)
  then show ?thesis by (auto simp: insert_at_def)
qed

lemma map_insert_at: "i \<le> length xs \<Longrightarrow> map f (insert_at i x xs) = insert_at i (f x) (map f xs)"
  by (simp add: insert_at_def take_map drop_map)

lemma length_insert_at [simp]: "i \<le> length xs \<Longrightarrow> length (insert_at i x xs) = Suc (length xs)"
  by (simp add: insert_at_def)

text \<open>The place \<open>binary_search\<close> reports keeps the columns in order.\<close>

lemma insertion_point_sorted:
  assumes "sorted_wrt (<) cs" and "insertion_point key cs = Some i"
  shows "sorted_wrt (<) (insert_at i key cs)" and "i \<le> length cs" and "key \<notin> set cs"
proof -
  from assms(2) have new: "key \<notin> set cs" and i: "i = length (takeWhile (\<lambda>c. c < key) cs)"
    by (auto simp: insertion_point_def split: if_splits)
  show "key \<notin> set cs" by (rule new)
  show "i \<le> length cs" by (simp add: i length_takeWhile_le)
  have split: "insert_at i key cs = takeWhile (\<lambda>c. c < key) cs @ key # dropWhile (\<lambda>c. c < key) cs"
    by (simp add: insert_at_def i takeWhile_eq_take [symmetric] dropWhile_eq_drop [symmetric])
  have below: "\<forall>c \<in> set (takeWhile (\<lambda>c. c < key) cs). c < key"
    by (auto dest: set_takeWhileD)
  have above: "\<forall>c \<in> set (dropWhile (\<lambda>c. c < key) cs). key < c"
  proof (cases "dropWhile (\<lambda>c. c < key) cs")
    case Nil
    show ?thesis unfolding Nil by simp
  next
    case (Cons d ds)
    then have "\<not> d < key" by (simp add: dropWhile_eq_Cons_conv)
    moreover have "d \<in> set cs" using Cons by (metis list.set_intros(1) set_dropWhileD)
    ultimately have "key < d" using new by (metis linorder_less_linear)
    moreover have "sorted_wrt (<) (d # ds)"
      using assms(1) Cons by (metis sorted_wrt_append takeWhile_dropWhile_id)
    ultimately show ?thesis using Cons by (auto intro: order.strict_trans)
  qed
  have "sorted_wrt (<) (takeWhile (\<lambda>c. c < key) cs @ dropWhile (\<lambda>c. c < key) cs)"
    using assms(1) by simp
  then show "sorted_wrt (<) (insert_at i key cs)"
    unfolding split using below above
    by (auto simp: sorted_wrt_append intro: order.strict_trans [of _ key])
qed

lemma rows_cost_widened:
  "(\<And>r. r \<in> set rs \<Longrightarrow> i \<le> length r) \<Longrightarrow>
   rows_cost (map (insert_at i None) rs) = rows_cost rs + widened (length rs)"
  by (induction rs) (auto simp: rows_cost_def widened_def)

lemma widen_walked:
  assumes inv: "walked to_text objs extra w"
  shows "returns (walked to_text objs (insert key extra)) (widen w key)"
proof (cases "insertion_point key (w_columns w)")
  case None
  with inv show ?thesis
    by (auto simp: widen_def walked_def insertion_point_def split: if_splits)
next
  case (Some i)
  from inv have sorted: "sorted_wrt (<) (w_columns w)" by (simp add: walked_def)
  note at = insertion_point_sorted [OF sorted Some]
  from inv at(3) have "key \<notin> set (keys_of objs)" by (auto simp: walked_def)
  then have absent: "map_of kvs key = None" if "kvs \<in> set objs" for kvs
    using that by (auto simp: keys_of_def map_of_eq_None_iff)
  have rows: "map (insert_at i None) (w_rows w) = rows_of_objects to_text (insert_at i key (w_columns w)) objs"
    using inv absent at(2)
    by (auto simp: walked_def rows_of_objects_def row_of_object_def map_insert_at)
  have cost: "rows_cost (map (insert_at i None) (w_rows w)) = rows_cost (w_rows w) + widened (length (w_rows w))"
    using inv at(2) by (intro rows_cost_widened) (auto simp: walked_def rows_of_objects_def row_of_object_def)
  show ?thesis
    using inv at(1,2) rows cost by (auto simp: widen_def Some walked_def sat_add_min)
qed

lemma widens_walked:
  "walked to_text objs extra w \<Longrightarrow>
   returns (walked to_text objs (extra \<union> set keys)) (try_fold widen w keys)"
proof (induction keys arbitrary: extra w)
  case (Cons k keys)
  have "returns (walked to_text objs (insert k extra)) (widen w k)"
    using Cons.prems by (rule widen_walked)
  then show ?case
    using Cons.IH [of "insert k extra"] by (auto elim!: returns_mono)
qed simp

lemma keys_of_snoc [simp]: "set (keys_of (objs @ [kvs])) = set (keys_of objs) \<union> fst ` set kvs"
  by (simp add: keys_of_def)

lemma take_object_walked:
  "walked to_text objs (fst ` set kvs) w \<Longrightarrow>
   returns (\<lambda>w'. walked to_text (objs @ [kvs]) {} w' \<and> w_held w' \<le> c) (take_object to_text c w kvs)"
  by (auto simp: take_object_def Let_def walked_def rows_of_objects_def rows_cost_def sat_add_min)

lemma visit_element_walked:
  assumes "walked to_text objs {} w" and "visit_element to_text False c w e = Inr w'"
  shows "\<exists>kvs. e (c - w_held w) = Element (JObject kvs) \<and> walked to_text (objs @ [kvs]) {} w' \<and> w_held w' \<le> c"
proof -
  from assms(2) obtain v kvs w1 where e: "e (c - w_held w) = Element v" "as_object v = Some kvs"
    and w1: "try_fold widen w (map fst kvs) = Inr w1" and w': "take_object to_text c w1 kvs = Inr w'"
    by (auto simp: visit_element_def and_then_Inr_iff split: element_read.splits option.splits)
  have "walked to_text objs (fst ` set kvs) w1"
    using returnsD [OF widens_walked [OF assms(1)] w1] by simp
  from returnsD [OF take_object_walked [OF this] w'] e show ?thesis
    by (cases v) auto
qed

text \<open>What the elements read as, each in some room the ceiling left it.\<close>

definition reads_as :: "nat \<Rightarrow> element list \<Rightarrow> (str \<times> json) list list \<Rightarrow> bool" where
  "reads_as c es objs \<longleftrightarrow> list_all2 (\<lambda>e kvs. \<exists>room \<le> c. e room = Element (JObject kvs)) es objs"

lemma visit_elements_walked:
  "walked to_text objs {} w \<Longrightarrow> w_held w \<le> c \<Longrightarrow>
   try_fold (visit_element to_text False c) w es = Inr w' \<Longrightarrow>
   \<exists>later. reads_as c es later \<and> walked to_text (objs @ later) {} w' \<and> w_held w' \<le> c"
proof (induction es arbitrary: objs w)
  case Nil
  then show ?case by (auto simp: reads_as_def)
next
  case (Cons e es)
  from Cons.prems(3) obtain w1 where w1: "visit_element to_text False c w e = Inr w1"
    and rest: "try_fold (visit_element to_text False c) w1 es = Inr w'"
    by (auto simp: and_then_Inr_iff)
  from visit_element_walked [OF Cons.prems(1) w1] obtain kvs where kvs:
    "e (c - w_held w) = Element (JObject kvs)" "walked to_text (objs @ [kvs]) {} w1" "w_held w1 \<le> c"
    by blast
  from Cons.IH [OF kvs(2,3) rest] obtain later where
    "reads_as c es later" "walked to_text ((objs @ [kvs]) @ later) {} w'" "w_held w' \<le> c" by blast
  with kvs(1) show ?case
    by (intro exI [of _ "kvs # later"]) (auto simp: reads_as_def intro!: exI [of _ "c - w_held w"])
qed

lemma walked_start: "walked to_text [] {} (walk_start Auto)"
  by (simp add: walked_def walk_start_def keys_of_def rows_of_objects_def rows_cost_def)

lemma walked_columns:
  assumes "walked to_text objs {} w"
  shows "w_columns w = sort (remdups (keys_of objs))"
proof -
  from assms have "sorted_wrt (<) (w_columns w)" and set: "set (w_columns w) = set (keys_of objs)"
    by (simp_all add: walked_def)
  then have "sorted (w_columns w)" "distinct (w_columns w)"
    by (simp_all add: strict_sorted_iff)
  with set show ?thesis
    by (intro sorted_distinct_set_unique) simp_all
qed

lemma read_json_auto:
  assumes "read_json to_text (Elements es trailing) Auto c = Inr p"
  shows "trailing = None \<and> (\<exists>objs w. reads_as c es objs \<and> walked to_text objs {} w \<and> w_held w \<le> c
    \<and> objs \<noteq> [] \<and> p = \<lparr> par_columns = w_columns w, par_rows = w_rows w, par_held = w_held w \<rparr>)"
proof -
  have t: "trailing = None"
    using assms by (cases trailing) (auto simp: read_json_def and_then_Inr_iff)
  with assms have v: "visit_seq to_text Auto c es = Inr p"
    by (auto simp: read_json_def and_then_Inr_iff)
  from v obtain w where w: "try_fold (visit_element to_text False c) (walk_start Auto) es = Inr w"
    and seen: "w_seen w \<noteq> 0"
    and p: "p = \<lparr> par_columns = w_columns w, par_rows = w_rows w, par_held = w_held w \<rparr>"
    by (clarsimp simp: visit_seq_def and_then_Inr_iff split: if_splits)
  have "w_held (walk_start Auto) \<le> c" by (simp add: walk_start_def)
  from visit_elements_walked [OF walked_start this w] obtain objs where
    "reads_as c es objs" "walked to_text objs {} w" "w_held w \<le> c" unfolding append_Nil by blast
  moreover from this seen have "objs \<noteq> []" by (auto simp: walked_def)
  ultimately show ?thesis using t p by blast
qed

text \<open>C21: a JSON array whose columns are not stated reads, in one widening pass, as the sorted union
  of its objects' keys and one row per object under them: what gathering the keys first would give.\<close>

theorem json_one_pass_is_two_pass:
  assumes "read_json to_text (Elements es trailing) Auto c = Inr p"
  shows "\<exists>objs. reads_as c es objs \<and> (par_columns p, par_rows p) = two_pass to_text objs"
proof -
  from read_json_auto [OF assms] obtain objs w where w: "reads_as c es objs" "walked to_text objs {} w"
    and p: "p = \<lparr> par_columns = w_columns w, par_rows = w_rows w, par_held = w_held w \<rparr>" by blast
  from w(2) have "w_rows w = rows_of_objects to_text (w_columns w) objs" by (simp add: walked_def)
  then have "(par_columns p, par_rows p) = two_pass to_text objs"
    unfolding two_pass_def Let_def walked_columns [OF w(2), symmetric] p by simp
  with w(1) show ?thesis by blast
qed

text \<open>The bytes a widened JSON table is charged are the exact cost of its rows, and they stay
  within the ceiling.\<close>

theorem json_charge_is_exact:
  assumes "read_json to_text (Elements es trailing) Auto c = Inr p" and "c < u64_max"
  shows "par_held p = rows_cost (par_rows p) \<and> par_held p \<le> c
    \<and> (\<forall>r \<in> set (par_rows p). length r = length (par_columns p))"
proof -
  from read_json_auto [OF assms(1)] obtain objs w where
    w: "walked to_text objs {} w" "w_held w \<le> c"
    "p = \<lparr> par_columns = w_columns w, par_rows = w_rows w, par_held = w_held w \<rparr>" by blast
  then have "w_held w = min (rows_cost (w_rows w)) u64_max" by (simp add: walked_def)
  with w(2) assms(2) have "w_held w = rows_cost (w_rows w)" by simp
  with w show ?thesis
    by (auto simp: walked_def rows_of_objects_def row_of_object_def)
qed

section \<open>What fits is read\<close>

lemma footprint_row_of_object:
  "distinct cs \<Longrightarrow> footprint (row_of_object to_text cs kvs) =
     (\<Sum>c \<in> set cs. cell_cost (cell_of_value to_text (map_of kvs c))) + ROW_OVERHEAD"
  by (simp add: footprint_def row_of_object_def comp_def sum_list_distinct_conv_sum_set)

lemma rows_cost_mono:
  assumes "distinct cs" "distinct ds" "set cs \<subseteq> set ds"
  shows "rows_cost (rows_of_objects to_text cs objs) \<le> rows_cost (rows_of_objects to_text ds (objs @ later))"
proof -
  have each: "footprint (row_of_object to_text cs kvs) \<le> footprint (row_of_object to_text ds kvs)" for kvs
    using assms by (simp add: footprint_row_of_object sum_mono2)
  have "rows_cost (rows_of_objects to_text cs objs) \<le> rows_cost (rows_of_objects to_text ds objs)"
    by (induction objs) (auto simp: rows_cost_def rows_of_objects_def intro: add_mono each)
  then show ?thesis
    by (simp add: rows_cost_def rows_of_objects_def)
qed

lemma widens_succeed:
  "walked to_text objs extra w \<Longrightarrow> set (keys_of objs) \<union> extra \<union> set keys \<subseteq> K \<Longrightarrow> finite K \<Longrightarrow>
   card K \<le> MAX_FIELDS \<Longrightarrow> \<exists>w'. try_fold widen w keys = Inr w'"
proof (induction keys arbitrary: extra w)
  case (Cons k keys)
  have "\<exists>w1. widen w k = Inr w1"
  proof (cases "insertion_point k (w_columns w)")
    case (Some i)
    from Cons.prems(1) have cols: "set (w_columns w) = set (keys_of objs) \<union> extra"
      and "distinct (w_columns w)" by (auto simp: walked_def strict_sorted_iff)
    have "k \<notin> set (w_columns w)" using Some by (auto simp: insertion_point_def split: if_splits)
    with cols Cons.prems(2,3) have "card (set (w_columns w)) < card K"
      by (intro psubset_card_mono) auto
    with \<open>distinct (w_columns w)\<close> Cons.prems(4) show ?thesis
      by (simp add: widen_def Some distinct_card)
  qed (simp add: widen_def)
  then obtain w1 where w1: "widen w k = Inr w1" by blast
  have "walked to_text objs (insert k extra) w1"
    using returnsD [OF widen_walked [OF Cons.prems(1)] w1] .
  from Cons.IH [OF this] Cons.prems show ?case by (simp add: w1)
qed simp

text \<open>The table some objects make under a schema, and what the rows of it are charged.\<close>

definition table_of :: "(json \<Rightarrow> str) \<Rightarrow> schema \<Rightarrow> (str \<times> json) list list \<Rightarrow> str list \<times> row list" where
  "table_of to_text sch objs =
     (case sch of Auto \<Rightarrow> two_pass to_text objs | Named names \<Rightarrow> (names, rows_of_objects to_text names objs))"

definition charged :: "(json \<Rightarrow> str) \<Rightarrow> schema \<Rightarrow> (str \<times> json) list list \<Rightarrow> nat" where
  "charged to_text sch objs = min (rows_cost (snd (table_of to_text sch objs))) u64_max"

definition walked_as :: "(json \<Rightarrow> str) \<Rightarrow> schema \<Rightarrow> (str \<times> json) list list \<Rightarrow> walk \<Rightarrow> bool" where
  "walked_as to_text sch objs w \<longleftrightarrow>
     (w_columns w, w_rows w) = table_of to_text sch objs \<and> w_held w = charged to_text sch objs
     \<and> w_seen w = length objs \<and> (sch = Auto \<longrightarrow> walked to_text objs {} w)"

lemma walked_as_auto: "walked_as to_text Auto objs w \<longleftrightarrow> walked to_text objs {} w"
proof
  assume w: "walked to_text objs {} w"
  from walked_columns [OF w] w show "walked_as to_text Auto objs w"
    by (auto simp: walked_as_def charged_def table_of_def two_pass_def Let_def walked_def)
qed (simp add: walked_as_def)

lemma walked_as_start: "walked_as to_text sch [] (walk_start sch)"
proof (cases sch)
  case Auto
  then show ?thesis by (simp add: walked_as_auto walked_start)
qed (simp add: walked_as_def walk_start_def table_of_def charged_def rows_of_objects_def rows_cost_def)

text \<open>The walk with one more row, if that is taken.\<close>

definition taken :: "(json \<Rightarrow> str) \<Rightarrow> walk \<Rightarrow> (str \<times> json) list \<Rightarrow> walk" where
  "taken to_text w kvs =
     (let row = row_of_object to_text (w_columns w) kvs
      in w\<lparr> w_held := sat_add (w_held w) (footprint row), w_rows := w_rows w @ [row], w_seen := w_seen w + 1 \<rparr>)"

lemma take_object_iff:
  "take_object to_text c w kvs = Inr w' \<longleftrightarrow> w' = taken to_text w kvs \<and> w_held (taken to_text w kvs) \<le> c"
  by (auto simp: take_object_def taken_def Let_def)

lemma taken_named:
  "walked_as to_text (Named names) objs w \<Longrightarrow> walked_as to_text (Named names) (objs @ [kvs]) (taken to_text w kvs)"
  by (auto simp: walked_as_def table_of_def charged_def rows_of_objects_def rows_cost_def sat_add_min taken_def Let_def)

lemma taken_auto:
  "walked to_text objs (fst ` set kvs) w \<Longrightarrow> walked_as to_text Auto (objs @ [kvs]) (taken to_text w kvs)"
  by (auto simp: walked_as_auto walked_def rows_of_objects_def rows_cost_def sat_add_min taken_def Let_def)

definition names_within :: "schema \<Rightarrow> (json \<Rightarrow> str) \<Rightarrow> (str \<times> json) list list \<Rightarrow> bool" where
  "names_within sch to_text objs \<longleftrightarrow> (sch = Auto \<longrightarrow> length (fst (table_of to_text sch objs)) \<le> MAX_FIELDS)"

lemma widens_to:
  assumes "walked to_text objs {} w"
  shows "(\<exists>w1. try_fold widen w (map fst kvs) = Inr w1) \<longleftrightarrow> names_within Auto to_text (objs @ [kvs])"
proof -
  let ?K = "set (keys_of (objs @ [kvs]))"
  have cols: "length (fst (table_of to_text Auto (objs @ [kvs]))) = card ?K"
    by (simp add: table_of_def two_pass_def Let_def length_remdups_card_conv)
  show ?thesis
  proof
    assume "\<exists>w1. try_fold widen w (map fst kvs) = Inr w1"
    then obtain w1 where "try_fold widen w (map fst kvs) = Inr w1" by blast
    from returnsD [OF widens_walked [OF assms] this]
    have "set (w_columns w1) = ?K" "distinct (w_columns w1)" "length (w_columns w1) \<le> MAX_FIELDS"
      by (auto simp: walked_def strict_sorted_iff)
    then show "names_within Auto to_text (objs @ [kvs])" using cols by (simp add: names_within_def distinct_card [symmetric])
  next
    assume "names_within Auto to_text (objs @ [kvs])"
    then show "\<exists>w1. try_fold widen w (map fst kvs) = Inr w1"
      using cols by (intro widens_succeed [OF assms, of _ ?K]) (simp_all add: names_within_def)
  qed
qed

text \<open>One round goes on exactly if the element's text fits the room left and its row the ceiling.\<close>

lemma visit_round:
  assumes w: "walked_as to_text sch objs w"
    and e: "\<And>room. e room = (if n \<le> room then Element (JObject kvs) else OutOfRoom)"
  shows "(\<exists>w'. visit_element to_text (sch \<noteq> Auto) c w e = Inr w') \<longleftrightarrow>
      n \<le> c - charged to_text sch objs \<and> charged to_text sch (objs @ [kvs]) \<le> c
      \<and> names_within sch to_text (objs @ [kvs])"
    and "visit_element to_text (sch \<noteq> Auto) c w e = Inr w' \<Longrightarrow> walked_as to_text sch (objs @ [kvs]) w'"
proof -
  have held: "w_held w = charged to_text sch objs" using w by (simp add: walked_as_def)
  have "((\<exists>w'. visit_element to_text (sch \<noteq> Auto) c w e = Inr w') \<longleftrightarrow>
      n \<le> c - charged to_text sch objs \<and> charged to_text sch (objs @ [kvs]) \<le> c
      \<and> names_within sch to_text (objs @ [kvs]))
    \<and> (\<forall>w'. visit_element to_text (sch \<noteq> Auto) c w e = Inr w' \<longrightarrow> walked_as to_text sch (objs @ [kvs]) w')"
  proof (cases sch)
    case (Named names)
    with w have after: "walked_as to_text sch (objs @ [kvs]) (taken to_text w kvs)" by (simp add: taken_named)
    then have "w_held (taken to_text w kvs) = charged to_text sch (objs @ [kvs])" by (simp add: walked_as_def)
    with after held Named show ?thesis
      by (simp add: visit_element_def e names_within_def take_object_iff)
  next
    case Auto
    with w have walked: "walked to_text objs {} w" by (simp add: walked_as_auto)
    show ?thesis
    proof (cases "names_within Auto to_text (objs @ [kvs])")
      case False
      with widens_to [OF walked, of kvs] have "\<not> (\<exists>w1. try_fold widen w (map fst kvs) = Inr w1)" by blast
      with False Auto show ?thesis by (auto simp: visit_element_def e and_then_Inr_iff)
    next
      case True
      with widens_to [OF walked, of kvs] obtain w1 where w1: "try_fold widen w (map fst kvs) = Inr w1" by blast
      have "walked to_text objs (fst ` set kvs) w1" using returnsD [OF widens_walked [OF walked] w1] by simp
      then have after: "walked_as to_text Auto (objs @ [kvs]) (taken to_text w1 kvs)" by (rule taken_auto)
      then have "w_held (taken to_text w1 kvs) = charged to_text Auto (objs @ [kvs])" by (simp add: walked_as_def)
      with after True held Auto show ?thesis by (simp add: visit_element_def e w1 take_object_iff)
    qed
  qed
  then show "(\<exists>w'. visit_element to_text (sch \<noteq> Auto) c w e = Inr w') \<longleftrightarrow>
      n \<le> c - charged to_text sch objs \<and> charged to_text sch (objs @ [kvs]) \<le> c
      \<and> names_within sch to_text (objs @ [kvs])"
    and "visit_element to_text (sch \<noteq> Auto) c w e = Inr w' \<Longrightarrow> walked_as to_text sch (objs @ [kvs]) w'" by blast+
qed

text \<open>
  Objects fit a ceiling when the text of each, its size first, fits the room the rows before it leave,
  the rows all together fit, and the columns keep to the bound where the objects name them.
\<close>

definition objects_fit :: "(json \<Rightarrow> str) \<Rightarrow> schema \<Rightarrow> nat \<Rightarrow> (nat \<times> (str \<times> json) list) list \<Rightarrow> bool" where
  "objects_fit to_text sch c objs \<longleftrightarrow>
     (\<forall>k < length objs. fst (objs ! k) \<le> c - charged to_text sch (map snd (take k objs)))
     \<and> charged to_text sch (map snd objs) \<le> c \<and> names_within sch to_text (map snd objs)"

lemma charged_snoc: "charged to_text sch objs \<le> charged to_text sch (objs @ [kvs])"
proof (cases sch)
  case Auto
  have "rows_cost (rows_of_objects to_text (sort (remdups (keys_of objs))) objs)
      \<le> rows_cost (rows_of_objects to_text (sort (remdups (keys_of (objs @ [kvs])))) (objs @ [kvs]))"
    by (rule rows_cost_mono) auto
  with Auto show ?thesis by (auto simp: charged_def table_of_def two_pass_def Let_def)
qed (auto simp: charged_def table_of_def rows_of_objects_def rows_cost_def)

lemma names_within_snoc: "names_within sch to_text (objs @ [kvs]) \<Longrightarrow> names_within sch to_text objs"
proof -
  have "card (set (keys_of objs)) \<le> card (set (keys_of (objs @ [kvs])))" by (rule card_mono) auto
  then show "names_within sch to_text (objs @ [kvs]) \<Longrightarrow> names_within sch to_text objs"
    by (auto simp: names_within_def table_of_def two_pass_def Let_def length_remdups_card_conv)
qed

lemma objects_fit_snoc:
  "objects_fit to_text sch c (objs @ [(n, kvs)]) \<longleftrightarrow>
     objects_fit to_text sch c objs \<and> n \<le> c - charged to_text sch (map snd objs)
     \<and> charged to_text sch (map snd objs @ [kvs]) \<le> c \<and> names_within sch to_text (map snd objs @ [kvs])"
proof -
  have "(\<forall>k < length (objs @ [(n, kvs)]). fst ((objs @ [(n, kvs)]) ! k) \<le>
        c - charged to_text sch (map snd (take k (objs @ [(n, kvs)])))) \<longleftrightarrow>
      (\<forall>k < length objs. fst (objs ! k) \<le> c - charged to_text sch (map snd (take k objs)))
      \<and> n \<le> c - charged to_text sch (map snd objs)"
    by (auto simp: less_Suc_eq nth_append)
  then show ?thesis
    using charged_snoc [of to_text sch "map snd objs" kvs] names_within_snoc [of sch to_text "map snd objs" kvs]
    by (auto simp: objects_fit_def)
qed

text \<open>An element whose text is an object's and takes so many bytes.\<close>

definition object_text :: "element \<Rightarrow> nat \<times> (str \<times> json) list \<Rightarrow> bool" where
  "object_text e obj \<longleftrightarrow> (\<forall>room. e room = (if fst obj \<le> room then Element (JObject (snd obj)) else OutOfRoom))"

lemma visit_rounds:
  assumes "list_all2 object_text es objs"
  shows "((\<exists>w. try_fold (visit_element to_text (sch \<noteq> Auto) c) (walk_start sch) es = Inr w) \<longleftrightarrow> objects_fit to_text sch c objs)
    \<and> (\<forall>w. try_fold (visit_element to_text (sch \<noteq> Auto) c) (walk_start sch) es = Inr w \<longrightarrow> walked_as to_text sch (map snd objs) w)"
  using assms
proof (induction es arbitrary: objs rule: rev_induct)
  case Nil
  have "charged to_text sch [] = 0" "names_within sch to_text []"
    by (auto simp: charged_def table_of_def two_pass_def keys_of_def rows_of_objects_def rows_cost_def names_within_def split: schema.split)
  with Nil walked_as_start [of to_text sch] show ?case by (simp add: objects_fit_def)
next
  case (snoc e es)
  then obtain before n kvs where objs: "objs = before @ [(n, kvs)]" and rest: "list_all2 object_text es before"
    and sized: "object_text e (n, kvs)"
    by (auto simp: list_all2_append1 list_all2_Cons1)
  have e: "e room = (if n \<le> room then Element (JObject kvs) else OutOfRoom)" for room
    using sized by (simp add: object_text_def)
  note IH = snoc.IH [OF rest]
  show ?case
  proof (cases "try_fold (visit_element to_text (sch \<noteq> Auto) c) (walk_start sch) es")
    case (Inl err)
    with IH have "\<not> objects_fit to_text sch c before" by auto
    with Inl show ?thesis by (simp add: objs objects_fit_snoc try_fold_append)
  next
    case (Inr w)
    have last: "and_then r Inr = r" for r :: "(visit_error, walk) result" by (cases r) simp_all
    from Inr IH have "objects_fit to_text sch c before" and w: "walked_as to_text sch (map snd before) w" by auto
    with Inr visit_round(1) [OF w e, of c] visit_round(2) [OF w e, of c] show ?thesis
      by (simp add: objs objects_fit_snoc try_fold_append last)
  qed
qed

text \<open>C29: an array of objects is read as a table under a ceiling exactly when the text of each object
  fits the room the rows before it leave, the rows fit together, and there is a row and a column, no
  more of them than the bound where the objects name them; what is read is then the table two passes
  give, or under the columns stated the objects' values there, charged its cost.\<close>

theorem json_admits_what_fits:
  assumes "list_all2 object_text es objs"
  shows "read_json to_text (Elements es None) sch c = Inr p \<longleftrightarrow>
    objects_fit to_text sch c objs \<and> objs \<noteq> [] \<and> fst (table_of to_text sch (map snd objs)) \<noteq> []
    \<and> p = \<lparr> par_columns = fst (table_of to_text sch (map snd objs)), par_rows = snd (table_of to_text sch (map snd objs)),
            par_held = charged to_text sch (map snd objs) \<rparr>"
proof (cases "try_fold (visit_element to_text (sch \<noteq> Auto) c) (walk_start sch) es")
  case (Inl err)
  with visit_rounds [OF assms, of to_text sch c] have "\<not> objects_fit to_text sch c objs" by auto
  with Inl show ?thesis by (simp add: read_json_def visit_seq_def)
next
  case (Inr w)
  with visit_rounds [OF assms, of to_text sch c] have "objects_fit to_text sch c objs"
    and w: "walked_as to_text sch (map snd objs) w" by auto
  moreover have "w_columns w = fst (table_of to_text sch (map snd objs))" "w_rows w = snd (table_of to_text sch (map snd objs))"
    "w_held w = charged to_text sch (map snd objs)" "w_seen w = length objs"
    using w by (simp_all add: walked_as_def prod_eq_iff)
  ultimately show ?thesis using Inr by (auto simp: read_json_def visit_seq_def)
qed

text \<open>Whatever the elements are, a table that is read has been charged for its rows, within the ceiling.\<close>

lemma named_walk_charged:
  assumes "try_fold (visit_element to_text True c) w es = Inr w'"
    and "w_held w = min (rows_cost (w_rows w)) u64_max \<and> w_held w \<le> c"
  shows "w_held w' = min (rows_cost (w_rows w')) u64_max \<and> w_held w' \<le> c"
  using assms
proof (induction es arbitrary: w)
  case (Cons e es)
  then obtain w1 where w1: "visit_element to_text True c w e = Inr w1" "try_fold (visit_element to_text True c) w1 es = Inr w'"
    by (auto simp: and_then_Inr_iff)
  then obtain kvs where "take_object to_text c w kvs = Inr w1"
    by (auto simp: visit_element_def split: element_read.splits option.splits)
  then have "w_held w1 = min (rows_cost (w_rows w1)) u64_max \<and> w_held w1 \<le> c"
    using Cons.prems(2) by (auto simp: take_object_iff taken_def Let_def rows_cost_def sat_add_min)
  with Cons.IH w1(2) show ?case by blast
qed simp

lemma read_json_charged:
  assumes "read_json to_text doc sch c = Inr p"
  shows "par_held p = min (rows_cost (par_rows p)) u64_max \<and> par_held p \<le> c"
proof -
  obtain es trailing where doc: "doc = Elements es trailing" using assms by (cases doc) (simp_all add: read_json_def)
  show ?thesis
  proof (cases sch)
    case Auto
    with read_json_auto assms doc show ?thesis by (fastforce simp: walked_def)
  next
    case (Named names)
    then obtain w where w: "try_fold (visit_element to_text True c) (walk_start sch) es = Inr w"
      and p: "par_rows p = w_rows w" "par_held p = w_held w"
      using assms by (auto simp: doc read_json_def visit_seq_def and_then_Inr_iff split: option.splits if_splits)
    show ?thesis
      unfolding p by (rule named_walk_charged [OF w]) (simp add: walk_start_def rows_cost_def)
  qed
qed

lemmas json_eval =
  read_json_def visit_seq_def visit_element_def walk_start_def widen_def insertion_point_def
  insert_at_def take_object_def row_of_object_def footprint_def cell_cost_def cell_of_text_def
  widened_def CELL_OVERHEAD_def ROW_OVERHEAD_def MAX_FIELDS_def Let_def sat_add_def u64_max_def

text \<open>Two objects of different keys, each element \<open>20\<close> bytes of text.\<close>

definition ragged_document :: document where
  "ragged_document =
     Elements (map (\<lambda>kvs room. if 20 \<le> room then Element (JObject kvs) else OutOfRoom)
                [[(''b'', JString ''x'')], [(''a'', JBool True), (''b'', JNull)]]) None"

lemma ragged_document_reads:
  "read_json (\<lambda>_. ''true'') ragged_document Auto 1000 =
     Inr \<lparr> par_columns = [''a'', ''b''], par_rows = [[None, Some ''x''], [Some ''true'', None]],
           par_held = 133 \<rparr>"
  by (simp add: ragged_document_def json_eval)

theorem json_one_pass_is_two_pass_witness:
  "\<exists>objs. reads_as 1000 (case ragged_document of Elements es _ \<Rightarrow> es) objs
     \<and> ([''a'', ''b''], [[None, Some ''x''], [Some ''true'', None]]) = two_pass (\<lambda>_. ''true'') objs"
  using json_one_pass_is_two_pass [OF ragged_document_reads [unfolded ragged_document_def]]
  by (simp add: ragged_document_def)

theorem json_charge_is_exact_witness:
  "133 = rows_cost [[None, Some ''x''], [Some ''true'', None]] \<and> (133::nat) \<le> 1000"
  using json_charge_is_exact [OF ragged_document_reads [unfolded ragged_document_def]]
  by (simp add: u64_max_def)

theorem json_admits_what_fits_witness:
  "read_json (\<lambda>_. ''true'') ragged_document Auto 1000 =
     Inr \<lparr> par_columns = [''a'', ''b''], par_rows = [[None, Some ''x''], [Some ''true'', None]], par_held = 133 \<rparr>
   \<and> (\<forall>p. read_json (\<lambda>_. ''true'') ragged_document Auto 19 \<noteq> Inr p)"
proof -
  let ?objs = "[(20, [(''b'', JString ''x'')]), (20, [(''a'', JBool True), (''b'', JNull)])] :: (nat \<times> (str \<times> json) list) list"
  obtain es where es: "ragged_document = Elements es None" "list_all2 object_text es ?objs"
    by (simp add: ragged_document_def object_text_def)
  note read = json_admits_what_fits [OF es(2), where to_text = "\<lambda>_. ''true''" and sch = Auto, folded es(1)]
  have "\<not> objects_fit (\<lambda>_. ''true'') Auto 19 ?objs" by (auto simp: objects_fit_def)
  moreover have "read_json (\<lambda>_. ''true'') ragged_document Auto 1000 =
     Inr \<lparr> par_columns = [''a'', ''b''], par_rows = [[None, Some ''x''], [Some ''true'', None]], par_held = 133 \<rparr>"
    unfolding read
    by (simp add: objects_fit_def charged_def names_within_def table_of_def two_pass_def keys_of_def rows_of_objects_def
        row_of_object_def cell_of_text_def rows_cost_def footprint_def cell_cost_def CELL_OVERHEAD_def ROW_OVERHEAD_def
        MAX_FIELDS_def u64_max_def less_Suc_eq)
  ultimately show ?thesis using read by blast
qed

text \<open>However the parser asks for bytes while it reads one element, it is given at most the room
  the ceiling left that element.\<close>

theorem element_stays_in_its_room:
  assumes "room m = Some left"
  shows "length (metered_run slice_read (m, bytes) requests) \<le> left"
  using assms by (rule slice.metered_total)

theorem element_stays_in_its_room_witness:
  "length (metered_run slice_read (\<lparr> room = Some 3, tripped = False \<rparr>, ''[{1}]'') [2, 2, 2]) \<le> 3
   \<and> metered_run slice_read (\<lparr> room = Some 3, tripped = False \<rparr>, ''[{1}]'') [2, 2, 2] = ''[{1''"
  using element_stays_in_its_room [of "\<lparr> room = Some 3, tripped = False \<rparr>" 3 "''[{1}]''" "[2, 2, 2]"]
  by (simp add: metered_read_def slice_read_def Let_def)

end
