(* ===== verification/Ip_Addr.thy ===== *)
theory Ip_Addr
  imports Prelude
begin

text \<open>
  Addresses as the words they are, the textual forms \<open>IpAddr\<close>'s \<open>FromStr\<close> reads (the standard
  library's recursive-descent parser), and \<open>src/geoip/private.rs\<close>: which addresses carry no
  geolocation. The reserved space is characterised by the numeric ranges of the RFCs.
\<close>

unbundle bit_operations_syntax

section \<open>Addresses\<close>

type_synonym ipv4 = "32 word"
type_synonym ipv6 = "128 word"

datatype ip_addr = V4 ipv4 | V6 ipv6

text \<open>\<open>IpAddr\<close>'s order: every IPv4 address before every IPv6 one, each by its value.\<close>

instantiation ip_addr :: linorder
begin

fun less_eq_ip_addr :: "ip_addr \<Rightarrow> ip_addr \<Rightarrow> bool" where
  "less_eq_ip_addr (V4 a) (V4 b) = (a \<le> b)"
| "less_eq_ip_addr (V4 _) (V6 _) = True"
| "less_eq_ip_addr (V6 _) (V4 _) = False"
| "less_eq_ip_addr (V6 a) (V6 b) = (a \<le> b)"

definition less_ip_addr :: "ip_addr \<Rightarrow> ip_addr \<Rightarrow> bool" where
  "less_ip_addr a b \<longleftrightarrow> a \<le> b \<and> \<not> b \<le> a"

instance
proof
  fix a b c :: ip_addr
  show "a < b \<longleftrightarrow> a \<le> b \<and> \<not> b \<le> a" by (rule less_ip_addr_def)
  show "a \<le> a" by (cases a) auto
  show "a \<le> b \<Longrightarrow> b \<le> c \<Longrightarrow> a \<le> c" by (cases a; cases b; cases c) auto
  show "a \<le> b \<Longrightarrow> b \<le> a \<Longrightarrow> a = b" by (cases a; cases b) auto
  show "a \<le> b \<or> b \<le> a" by (cases a; cases b) auto
qed

end

definition octet :: "nat \<Rightarrow> ipv4 \<Rightarrow> 8 word" where
  "octet i a = ucast (drop_bit (8 * (3 - i)) a)"

definition segment :: "nat \<Rightarrow> ipv6 \<Rightarrow> 16 word" where
  "segment i a = ucast (drop_bit (16 * (7 - i)) a)"

definition ipv4_of_octets :: "nat list \<Rightarrow> ipv4" where
  "ipv4_of_octets os = foldl (\<lambda>acc x. acc * 256 + of_nat x) 0 os"

definition ipv6_of_segments :: "nat list \<Rightarrow> ipv6" where
  "ipv6_of_segments ss = foldl (\<lambda>acc x. acc * 65536 + of_nat x) 0 ss"

section \<open>Reading an address\<close>

text \<open>
  Each reader takes the rest of the text and returns what it read with what is left, or nothing,
  in which case the text is where it was. A digit is \<open>char::to_digit\<close> in the radix.
\<close>

definition to_digit :: "nat \<Rightarrow> char \<Rightarrow> nat option" where
  "to_digit radix c =
     (let n = byte_of c;
          d = (if between 48 57 c then n - 48
               else if between 97 122 c then n - 87
               else if between 65 90 c then n - 55
               else radix)
      in if d < radix then Some d else None)"

text \<open>The digits at the front, refused once there are more than \<open>max_digits\<close> of them.\<close>

fun read_digits :: "nat \<Rightarrow> nat \<Rightarrow> nat \<Rightarrow> nat \<Rightarrow> str \<Rightarrow> (nat \<times> nat \<times> str) option" where
  "read_digits radix max_digits seen acc [] = Some (seen, acc, [])"
| "read_digits radix max_digits seen acc (c # s) =
     (case to_digit radix c of
        None \<Rightarrow> Some (seen, acc, c # s)
      | Some d \<Rightarrow> if max_digits < seen + 1 then None
                  else read_digits radix max_digits (seen + 1) (acc * radix + d) s)"

definition read_number :: "nat \<Rightarrow> nat \<Rightarrow> bool \<Rightarrow> nat \<Rightarrow> str \<Rightarrow> (nat \<times> str) option" where
  "read_number radix max_digits allow_zero_prefix bound s =
     (case read_digits radix max_digits 0 0 s of
        None \<Rightarrow> None
      | Some (seen, n, r) \<Rightarrow>
          if seen = 0 then None
          else if \<not> allow_zero_prefix \<and> take 1 s = ''0'' \<and> 1 < seen then None
          else if bound < n then None
          else Some (n, r))"

definition read_given_char :: "char \<Rightarrow> str \<Rightarrow> str option" where
  "read_given_char c s = (case s of [] \<Rightarrow> None | d # r \<Rightarrow> if d = c then Some r else None)"

definition read_separator :: "char \<Rightarrow> nat \<Rightarrow> (str \<Rightarrow> ('a \<times> str) option) \<Rightarrow> str \<Rightarrow> ('a \<times> str) option" where
  "read_separator sep i inner s =
     (if i = 0 then inner s
      else case read_given_char sep s of None \<Rightarrow> None | Some r \<Rightarrow> inner r)"

text \<open>\<open>todo\<close> octets from position \<open>i\<close> on.\<close>

fun read_octets :: "nat \<Rightarrow> nat \<Rightarrow> str \<Rightarrow> (nat list \<times> str) option" where
  "read_octets 0 i s = Some ([], s)"
| "read_octets (Suc todo) i s =
     (case read_separator CHR ''.'' i (read_number 10 3 False 255) s of
        None \<Rightarrow> None
      | Some (x, r) \<Rightarrow>
          (case read_octets todo (Suc i) r of None \<Rightarrow> None | Some (xs, r') \<Rightarrow> Some (x # xs, r')))"

definition read_ipv4 :: "str \<Rightarrow> (nat list \<times> str) option" where
  "read_ipv4 = read_octets 4 0"

text \<open>
  Up to \<open>todo\<close> groups from position \<open>i\<close> on, with whether the last two came from an embedded IPv4
  address, for which two groups have to be left.
\<close>

fun read_groups :: "nat \<Rightarrow> nat \<Rightarrow> str \<Rightarrow> nat list \<times> bool \<times> str" where
  "read_groups 0 i s = ([], False, s)"
| "read_groups (Suc todo) i s =
     (case (if 0 < todo then read_separator CHR '':'' i read_ipv4 s else None) of
        Some (os, r) \<Rightarrow> ([os ! 0 * 256 + os ! 1, os ! 2 * 256 + os ! 3], True, r)
      | None \<Rightarrow>
          (case read_separator CHR '':'' i (read_number 16 4 True 65535) s of
             None \<Rightarrow> ([], False, s)
           | Some (g, r) \<Rightarrow>
               (case read_groups todo (Suc i) r of (gs, v4, r') \<Rightarrow> (g # gs, v4, r'))))"

definition read_ipv6 :: "str \<Rightarrow> (nat list \<times> str) option" where
  "read_ipv6 s =
     (case read_groups 8 0 s of (front, front_v4, r) \<Rightarrow>
        if length front = 8 then Some (front, r)
        else if front_v4 then None
        else (case Option.bind (read_given_char CHR '':'' r) (read_given_char CHR '':'') of
            None \<Rightarrow> None
          | Some r' \<Rightarrow>
              (case read_groups (8 - (length front + 1)) 0 r' of (back, _, r'') \<Rightarrow>
                 Some (front @ replicate (8 - (length front + length back)) 0 @ back, r''))))"

text \<open>\<open>str::parse::<IpAddr>\<close>: the whole text has to be the address.\<close>

definition parse_ip_addr :: "str \<Rightarrow> ip_addr option" where
  "parse_ip_addr s =
     (case read_ipv4 s of
        Some (os, r) \<Rightarrow> if r = [] then Some (V4 (ipv4_of_octets os)) else None
      | None \<Rightarrow>
          (case read_ipv6 s of
             Some (ss, r) \<Rightarrow> if r = [] then Some (V6 (ipv6_of_segments ss)) else None
           | None \<Rightarrow> None))"

lemma read_counted_numeral:
  "read_octets (numeral k) i s =
     (case read_separator CHR ''.'' i (read_number 10 3 False 255) s of
        None \<Rightarrow> None
      | Some (x, r) \<Rightarrow>
          (case read_octets (pred_numeral k) (Suc i) r of
             None \<Rightarrow> None
           | Some (xs, r') \<Rightarrow> Some (x # xs, r')))"
  "read_groups (numeral k) i s =
     (case (if 0 < pred_numeral k then read_separator CHR '':'' i read_ipv4 s else None) of
        Some (os, r) \<Rightarrow> ([os ! 0 * 256 + os ! 1, os ! 2 * 256 + os ! 3], True, r)
      | None \<Rightarrow>
          (case read_separator CHR '':'' i (read_number 16 4 True 65535) s of
             None \<Rightarrow> ([], False, s)
           | Some (g, r) \<Rightarrow>
               (case read_groups (pred_numeral k) (Suc i) r of (gs, v4, r') \<Rightarrow> (g # gs, v4, r'))))"
  by (simp_all add: numeral_eq_Suc)

lemmas parse_ip_eval =
  read_counted_numeral replicate_counted parse_ip_addr_def read_ipv4_def read_ipv6_def read_number_def read_separator_def
  read_given_char_def to_digit_def between_def ipv4_of_octets_def ipv6_of_segments_def Let_def

section \<open>Addresses that cannot have a geolocation answer\<close>

text \<open>Carrier-grade NAT space, \<open>100.64.0.0/10\<close>, and the space reserved for future use, \<open>240.0.0.0/4\<close>.\<close>

definition is_shared_v4 :: "ipv4 \<Rightarrow> bool" where
  "is_shared_v4 a \<longleftrightarrow> octet 0 a = 100 \<and> octet 1 a AND 0xC0 = 0x40"

definition is_reserved_v4 :: "ipv4 \<Rightarrow> bool" where
  "is_reserved_v4 a \<longleftrightarrow> octet 0 a AND 0xF0 = 0xF0"

text \<open>The \<open>std\<close> predicates, by their octets.\<close>

definition is_private_v4 :: "ipv4 \<Rightarrow> bool" where
  "is_private_v4 a \<longleftrightarrow>
     \<comment> \<open>\<open>is_private\<close>\<close>
     octet 0 a = 10
     \<or> (octet 0 a = 172 \<and> 16 \<le> octet 1 a \<and> octet 1 a \<le> 31)
     \<or> (octet 0 a = 192 \<and> octet 1 a = 168)
     \<comment> \<open>\<open>is_loopback\<close>, \<open>is_link_local\<close>, \<open>is_broadcast\<close>, \<open>is_multicast\<close>, \<open>is_unspecified\<close>\<close>
     \<or> octet 0 a = 127
     \<or> (octet 0 a = 169 \<and> octet 1 a = 254)
     \<or> a = 0xFFFFFFFF
     \<or> (224 \<le> octet 0 a \<and> octet 0 a \<le> 239)
     \<or> a = 0
     \<comment> \<open>\<open>is_documentation\<close>\<close>
     \<or> (octet 0 a = 192 \<and> octet 1 a = 0 \<and> octet 2 a = 2)
     \<or> (octet 0 a = 198 \<and> octet 1 a = 51 \<and> octet 2 a = 100)
     \<or> (octet 0 a = 203 \<and> octet 1 a = 0 \<and> octet 2 a = 113)
     \<or> is_shared_v4 a
     \<or> is_reserved_v4 a"

text \<open>\<open>to_ipv4_mapped\<close>: \<open>::ffff:0:0/96\<close> holds the IPv4 addresses.\<close>

definition to_ipv4_mapped :: "ipv6 \<Rightarrow> ipv4 option" where
  "to_ipv4_mapped a = (if drop_bit 32 a = 0xFFFF then Some (ucast a) else None)"

definition is_documentation_v6 :: "ipv6 \<Rightarrow> bool" where
  "is_documentation_v6 a \<longleftrightarrow> segment 0 a = 0x2001 \<and> segment 1 a = 0x0db8"

definition is_private_v6 :: "ipv6 \<Rightarrow> bool" where
  "is_private_v6 a \<longleftrightarrow>
     (case to_ipv4_mapped a of
        Some v4 \<Rightarrow> is_private_v4 v4
      | None \<Rightarrow>
          a = 1 \<or> a = 0
          \<or> segment 0 a AND 0xFF00 = 0xFF00
          \<or> segment 0 a AND 0xFE00 = 0xFC00
          \<or> segment 0 a AND 0xFFC0 = 0xFE80
          \<or> is_documentation_v6 a)"

fun is_private :: "ip_addr \<Rightarrow> bool" where
  "is_private (V4 a) = is_private_v4 a"
| "is_private (V6 a) = is_private_v6 a"

section \<open>The reserved IPv4 space, as ranges\<close>

text \<open>First and last address of every block \<open>is_private_v4\<close> is about, by RFC.\<close>

definition reserved_v4_ranges :: "(nat \<times> nat) list" where
  "reserved_v4_ranges =
     [(0x00000000, 0x00000000), \<comment> \<open>0.0.0.0\<close>
      (0x0A000000, 0x0AFFFFFF), \<comment> \<open>10.0.0.0/8\<close>
      (0x64400000, 0x647FFFFF), \<comment> \<open>100.64.0.0/10\<close>
      (0x7F000000, 0x7FFFFFFF), \<comment> \<open>127.0.0.0/8\<close>
      (0xA9FE0000, 0xA9FEFFFF), \<comment> \<open>169.254.0.0/16\<close>
      (0xAC100000, 0xAC1FFFFF), \<comment> \<open>172.16.0.0/12\<close>
      (0xC0000200, 0xC00002FF), \<comment> \<open>192.0.2.0/24\<close>
      (0xC0A80000, 0xC0A8FFFF), \<comment> \<open>192.168.0.0/16\<close>
      (0xC6336400, 0xC63364FF), \<comment> \<open>198.51.100.0/24\<close>
      (0xCB007100, 0xCB0071FF), \<comment> \<open>203.0.113.0/24\<close>
      (0xE0000000, 0xFFFFFFFF)] \<comment> \<open>224.0.0.0/4 and 240.0.0.0/4\<close>"

definition in_ranges :: "(nat \<times> nat) list \<Rightarrow> nat \<Rightarrow> bool" where
  "in_ranges rs n \<longleftrightarrow> list_ex (\<lambda>(lo, hi). lo \<le> n \<and> n \<le> hi) rs"

text \<open>The octets are the base-256 digits of the address.\<close>

lemma octet_unat: "unat (octet i a) = unat a div 2 ^ (8 * (3 - i)) mod 256"
  unfolding octet_def unsigned_ucast_eq unsigned_drop_bit_eq unfolding drop_bit_eq_div take_bit_eq_mod
  using unsigned_less [of a, where 'a = nat] by simp

lemma base_256_digits:
  fixes n :: nat
  assumes "n < 4294967296"
  shows "n = (n div 16777216 mod 256) * 16777216 + (n div 65536 mod 256) * 65536
     + (n div 256 mod 256) * 256 + n mod 256"
proof -
  have digit: "k div m = k div (m * 256) * 256 + k div m mod 256" for k m :: nat
    by (simp add: div_mult2_eq)
  have "n div 16777216 < 256" using assms by simp
  then have "n div 16777216 mod 256 = n div 16777216" by (rule mod_less)
  moreover have "n = n div 256 * 256 + n mod 256" by simp
  moreover have "n div 256 = n div 65536 * 256 + n div 256 mod 256" using digit [of n 256] by simp
  moreover have "n div 65536 = n div 16777216 * 256 + n div 65536 mod 256"
    using digit [of n 65536] by simp
  ultimately show ?thesis by linarith
qed

lemma octets_sum:
  "unat a = unat (octet 0 a) * 16777216 + unat (octet 1 a) * 65536 + unat (octet 2 a) * 256
     + unat (octet 3 a)"
proof -
  have "unat a < 4294967296" using unsigned_less [of a] by simp
  note sum = base_256_digits [OF this]
  have "unat (octet 0 a) = unat a div 16777216 mod 256" "unat (octet 1 a) = unat a div 65536 mod 256"
    "unat (octet 2 a) = unat a div 256 mod 256" "unat (octet 3 a) = unat a mod 256"
    by (simp_all add: octet_unat)
  with sum show ?thesis by (simp only:)
qed

text \<open>A masked octet is the octet rounded down to a multiple of the mask's lowest bit.\<close>

lemma high_bits: "x AND NOT (mask n) = push_bit n (drop_bit n x)" for x :: "'a::len word"
  by (rule bit_word_eqI) (auto simp: bit_simps)

lemma masked_octet:
  fixes x :: "8 word"
  shows "x AND 0xC0 = 0x40 \<longleftrightarrow> 64 \<le> unat x \<and> unat x \<le> 127"
    and "x AND 0xF0 = 0xF0 \<longleftrightarrow> 240 \<le> unat x"
proof -
  have m: "(0xC0 :: 8 word) = NOT (mask 6)" "(0xF0 :: 8 word) = NOT (mask 4)"
    by (simp_all add: mask_eq_exp_minus_1)
  have "unat x < 256" using unsigned_less [of x] by simp
  have "unat (x AND 0xC0) = unat x div 64 * 64"
    unfolding m high_bits unsigned_push_bit_eq unsigned_drop_bit_eq
    unfolding take_bit_eq_mod push_bit_eq_mult drop_bit_eq_div
    using \<open>unat x < 256\<close> by simp
  then have "x AND 0xC0 = 0x40 \<longleftrightarrow> unat x div 64 = 1" unfolding word_unat_eq_iff by simp
  also have "\<dots> \<longleftrightarrow> 64 \<le> unat x \<and> unat x \<le> 127" by linarith
  finally show "x AND 0xC0 = 0x40 \<longleftrightarrow> 64 \<le> unat x \<and> unat x \<le> 127" .
  have "unat (x AND 0xF0) = unat x div 16 * 16"
    unfolding m high_bits unsigned_push_bit_eq unsigned_drop_bit_eq
    unfolding take_bit_eq_mod push_bit_eq_mult drop_bit_eq_div
    using \<open>unat x < 256\<close> by simp
  then have "x AND 0xF0 = 0xF0 \<longleftrightarrow> unat x div 16 = 15" unfolding word_unat_eq_iff by simp
  also have "\<dots> \<longleftrightarrow> 240 \<le> unat x" using \<open>unat x < 256\<close> by linarith
  finally show "x AND 0xF0 = 0xF0 \<longleftrightarrow> 240 \<le> unat x" .
qed

text \<open>A number lies in a range with a fixed leading digit when its leading digit is that one.\<close>

lemma leading_digit:
  fixes w c m r lo hi :: nat
  assumes "r < m" "hi < m"
  shows "c * m + lo \<le> w * m + r \<and> w * m + r \<le> c * m + hi \<longleftrightarrow> w = c \<and> lo \<le> r \<and> r \<le> hi"
proof (cases w c rule: linorder_cases)
  case less
  then have "Suc w * m \<le> c * m" by (intro mult_le_mono1) simp
  with less assms show ?thesis by simp
next
  case greater
  then have "Suc c * m \<le> w * m" by (intro mult_le_mono1) simp
  with greater assms show ?thesis by simp
qed simp

lemma private_v4_in_ranges: "is_private_v4 a = in_ranges reserved_v4_ranges (unat a)"
proof -
  define w x y z where digits: "w = unat (octet 0 a)" "x = unat (octet 1 a)" "y = unat (octet 2 a)"
    "z = unat (octet 3 a)"
  have bounds: "w < 256" "x < 256" "y < 256" "z < 256"
    unfolding digits using unsigned_less [where 'b = 8 and 'a = nat] by simp_all
  define n where "n = unat a"
  have n: "n = w * 16777216 + x * 65536 + y * 256 + z"
    unfolding n_def digits by (rule octets_sum)
  have top: "n < 4294967296" using n bounds by linarith
  have lead8: "c * 16777216 + lo \<le> n \<and> n \<le> c * 16777216 + hi \<longleftrightarrow>
      w = c \<and> lo \<le> x * 65536 + (y * 256 + z) \<and> x * 65536 + (y * 256 + z) \<le> hi"
    if "hi < 16777216" for c lo hi
    using leading_digit [of "x * 65536 + (y * 256 + z)" 16777216 hi c lo w] bounds that
    by (simp add: n add.assoc)
  have lead16: "d * 65536 + lo \<le> x * 65536 + (y * 256 + z) \<and> x * 65536 + (y * 256 + z) \<le> d * 65536 + hi
      \<longleftrightarrow> x = d \<and> lo \<le> y * 256 + z \<and> y * 256 + z \<le> hi"
    if "hi < 65536" for d lo hi
    using leading_digit [of "y * 256 + z" 65536 hi d lo x] bounds that by simp
  have lead24: "e * 256 \<le> y * 256 + z \<and> y * 256 + z \<le> e * 256 + 255 \<longleftrightarrow> y = e" for e
    using leading_digit [of z 256 255 e 0 y] bounds by simp
  have low: "x * 65536 + (y * 256 + z) \<le> 16777215" "y * 256 + z \<le> 65535"
    using bounds by linarith+
  have slash8: "octet 0 a = of_nat c \<longleftrightarrow> c * 16777216 \<le> n \<and> n \<le> c * 16777216 + 16777215"
    if "c < 256" for c
    using lead8 [of 16777215 c 0] low(1) that
    by (simp add: word_unat_eq_iff digits(1) [symmetric] unat_of_nat)
  have slash16: "octet 0 a = of_nat c \<and> octet 1 a = of_nat d \<longleftrightarrow>
      c * 16777216 + d * 65536 \<le> n \<and> n \<le> c * 16777216 + (d * 65536 + 65535)"
    if "c < 256" "d < 256" for c d
    using lead8 [of "d * 65536 + 65535" c "d * 65536"] lead16 [of 65535 d 0] low(2) that
    by (simp add: word_unat_eq_iff digits(1,2) [symmetric, unfolded One_nat_def] unat_of_nat)
  have slash24: "octet 0 a = of_nat c \<and> octet 1 a = of_nat d \<and> octet 2 a = of_nat e \<longleftrightarrow>
      c * 16777216 + (d * 65536 + e * 256) \<le> n \<and> n \<le> c * 16777216 + (d * 65536 + (e * 256 + 255))"
    if "c < 256" "d < 256" "e < 256" for c d e
    using lead8 [of "d * 65536 + (e * 256 + 255)" c "d * 65536 + e * 256"]
      lead16 [of "e * 256 + 255" d "e * 256"] lead24 [of e] that
    by (simp add: word_unat_eq_iff digits(1-3) [symmetric, unfolded One_nat_def] unat_of_nat)
  have mid: "16 \<le> x \<and> x \<le> 31 \<longleftrightarrow> 1048576 \<le> x * 65536 + (y * 256 + z) \<and> x * 65536 + (y * 256 + z) \<le> 2097151"
    "64 \<le> x \<and> x \<le> 127 \<longleftrightarrow> 4194304 \<le> x * 65536 + (y * 256 + z) \<and> x * 65536 + (y * 256 + z) \<le> 8388607"
    using low(2) by (safe; linarith)+
  have slash12: "octet 0 a = 172 \<and> 16 \<le> octet 1 a \<and> octet 1 a \<le> 31 \<longleftrightarrow>
      0xAC100000 \<le> n \<and> n \<le> 0xAC1FFFFF"
    using lead8 [of 2097151 172 1048576] mid(1)
    by (simp add: word_unat_eq_iff word_le_nat_alt digits(1,2) [symmetric, unfolded One_nat_def])
  have shared: "is_shared_v4 a \<longleftrightarrow> 0x64400000 \<le> n \<and> n \<le> 0x647FFFFF"
    using lead8 [of 8388607 100 4194304] mid(2)
    by (simp add: is_shared_v4_def masked_octet [of "octet (Suc 0) a"] word_unat_eq_iff [of "octet 0 a"]
        digits(1,2) [symmetric, unfolded One_nat_def])
  have reserved: "is_reserved_v4 a \<longleftrightarrow> 0xF0000000 \<le> n"
    unfolding is_reserved_v4_def masked_octet digits(1) [symmetric]
    using n bounds by simp (safe; linarith)
  have multicast: "224 \<le> octet 0 a \<and> octet 0 a \<le> 239 \<longleftrightarrow> 0xE0000000 \<le> n \<and> n \<le> 0xEFFFFFFF"
    unfolding word_le_nat_alt digits(1) [symmetric] using n bounds by simp (safe; linarith)
  have ends: "a = 0 \<longleftrightarrow> n = 0" "a = 0xFFFFFFFF \<longleftrightarrow> n = 0xFFFFFFFF"
    unfolding word_unat_eq_iff n_def by simp_all
  have iff: "is_private_v4 a \<longleftrightarrow>
     (0x0A000000 \<le> n \<and> n \<le> 0x0AFFFFFF) \<or> (0xAC100000 \<le> n \<and> n \<le> 0xAC1FFFFF)
     \<or> (0xC0A80000 \<le> n \<and> n \<le> 0xC0A8FFFF) \<or> (0x7F000000 \<le> n \<and> n \<le> 0x7FFFFFFF)
     \<or> (0xA9FE0000 \<le> n \<and> n \<le> 0xA9FEFFFF) \<or> n = 0xFFFFFFFF
     \<or> (0xE0000000 \<le> n \<and> n \<le> 0xEFFFFFFF) \<or> n = 0
     \<or> (0xC0000200 \<le> n \<and> n \<le> 0xC00002FF) \<or> (0xC6336400 \<le> n \<and> n \<le> 0xC63364FF)
     \<or> (0xCB007100 \<le> n \<and> n \<le> 0xCB0071FF) \<or> (0x64400000 \<le> n \<and> n \<le> 0x647FFFFF)
     \<or> 0xF0000000 \<le> n"
    unfolding is_private_v4_def shared reserved slash12 multicast ends
    using slash8 [of 10] slash16 [of 192 168] slash8 [of 127] slash16 [of 169 254]
      slash24 [of 192 0 2] slash24 [of 198 51 100] slash24 [of 203 0 113] by simp
  have merge: "n = 0xFFFFFFFF \<or> (0xE0000000 \<le> n \<and> n \<le> 0xEFFFFFFF) \<or> 0xF0000000 \<le> n
      \<longleftrightarrow> 0xE0000000 \<le> n \<and> n \<le> 0xFFFFFFFF"
    using top by linarith
  have zero: "n = 0 \<longleftrightarrow> 0 \<le> n \<and> n \<le> 0" by simp
  show ?thesis
    unfolding iff in_ranges_def reserved_v4_ranges_def n_def [symmetric]
    by (simp only: list_ex_Nil_iff list_ex_Cons_iff prod.case) (use merge zero in blast)
qed

text \<open>An IPv4 address is refused as private exactly when its number lies in one of the
  reserved ranges the RFCs define.\<close>

theorem private_v4_ranges: "is_private (V4 a) = in_ranges reserved_v4_ranges (unat a)"
  by (simp add: private_v4_in_ranges)

section \<open>The reserved IPv6 space, as ranges\<close>

text \<open>First and last address of every IPv6 block the code names, beside the IPv4-mapped one.\<close>

definition reserved_v6_ranges :: "(nat \<times> nat) list" where
  "reserved_v6_ranges =
     [(0, 1), \<comment> \<open>\<open>::\<close> and \<open>::1\<close>\<close>
      (0x20010DB8000000000000000000000000, 0x20010DB8FFFFFFFFFFFFFFFFFFFFFFFF), \<comment> \<open>2001:db8::/32\<close>
      (0xFC000000000000000000000000000000, 0xFDFFFFFFFFFFFFFFFFFFFFFFFFFFFFFF), \<comment> \<open>fc00::/7\<close>
      (0xFE800000000000000000000000000000, 0xFEBFFFFFFFFFFFFFFFFFFFFFFFFFFFFF), \<comment> \<open>fe80::/10\<close>
      (0xFF000000000000000000000000000000, 0xFFFFFFFFFFFFFFFFFFFFFFFFFFFFFFFF)] \<comment> \<open>ff00::/8\<close>"

text \<open>The numbers of the IPv4-mapped addresses.\<close>

definition MAPPED_FIRST :: nat where
  "MAPPED_FIRST = 0xFFFF00000000"

lemma leading_digit_eq:
  fixes w c m r d :: nat
  assumes "r < m" "d < m"
  shows "w * m + r = c * m + d \<longleftrightarrow> w = c \<and> r = d"
  using leading_digit [OF assms, of c d w] by (metis order_refl order_antisym)

lemma div_range: "0 < (m::nat) \<Longrightarrow> lo \<le> n div m \<and> n div m \<le> hi \<longleftrightarrow> lo * m \<le> n \<and> n < (hi + 1) * m"
  using less_eq_div_iff_mult_less_eq [of m lo n] div_less_iff_less_mult [of m n "hi + 1"] by auto

lemma mapped_unat:
  "to_ipv4_mapped a = (if MAPPED_FIRST \<le> unat a \<and> unat a \<le> MAPPED_FIRST + 0xFFFFFFFF
     then Some (of_nat (unat a - MAPPED_FIRST)) else None)"
proof -
  have "unat (drop_bit 32 a) = unat a div 4294967296"
    unfolding unsigned_drop_bit_eq unfolding drop_bit_eq_div take_bit_eq_mod
    using unsigned_less [of a, where 'a = nat] by simp
  then have iff: "drop_bit 32 a = 0xFFFF \<longleftrightarrow> MAPPED_FIRST \<le> unat a \<and> unat a \<le> MAPPED_FIRST + 0xFFFFFFFF"
    unfolding word_unat_eq_iff using div_range [of 4294967296 65535 "unat a" 65535]
    by (simp add: MAPPED_FIRST_def) linarith
  have "ucast a = (of_nat (unat a - MAPPED_FIRST) :: ipv4)" if "MAPPED_FIRST \<le> unat a"
  proof -
    have zero: "(of_nat MAPPED_FIRST :: ipv4) = 0" by (simp add: MAPPED_FIRST_def)
    have "ucast a = (of_nat (unat a) :: ipv4)" by simp
    also have "\<dots> = of_nat (unat a - MAPPED_FIRST) + of_nat MAPPED_FIRST"
      using that by (simp only: of_nat_add [symmetric]) simp
    finally show ?thesis by (simp only: zero add_0_right)
  qed
  then show ?thesis by (simp add: to_ipv4_mapped_def iff)
qed

lemma masked_segment:
  fixes x :: "16 word"
  shows "x AND 0xFF00 = 0xFF00 \<longleftrightarrow> 65280 \<le> unat x \<and> unat x \<le> 65535"
    and "x AND 0xFE00 = 0xFC00 \<longleftrightarrow> 64512 \<le> unat x \<and> unat x \<le> 65023"
    and "x AND 0xFFC0 = 0xFE80 \<longleftrightarrow> 65152 \<le> unat x \<and> unat x \<le> 65215"
proof -
  have m: "(0xFF00 :: 16 word) = NOT (mask 8)" "(0xFE00 :: 16 word) = NOT (mask 9)"
    "(0xFFC0 :: 16 word) = NOT (mask 6)"
    by (simp_all add: mask_eq_exp_minus_1)
  have top: "unat x < 65536" using unsigned_less [of x] by simp
  have "unat (x AND 0xFF00) = unat x div 256 * 256"
    unfolding m high_bits unsigned_push_bit_eq unsigned_drop_bit_eq
    unfolding take_bit_eq_mod push_bit_eq_mult drop_bit_eq_div using top by simp
  then have "x AND 0xFF00 = 0xFF00 \<longleftrightarrow> unat x div 256 = 255" unfolding word_unat_eq_iff by simp
  then show "x AND 0xFF00 = 0xFF00 \<longleftrightarrow> 65280 \<le> unat x \<and> unat x \<le> 65535"
    using top by linarith
  have "unat (x AND 0xFE00) = unat x div 512 * 512"
    unfolding m high_bits unsigned_push_bit_eq unsigned_drop_bit_eq
    unfolding take_bit_eq_mod push_bit_eq_mult drop_bit_eq_div using top by simp
  then have "x AND 0xFE00 = 0xFC00 \<longleftrightarrow> unat x div 512 = 126" unfolding word_unat_eq_iff by simp
  then show "x AND 0xFE00 = 0xFC00 \<longleftrightarrow> 64512 \<le> unat x \<and> unat x \<le> 65023" by linarith
  have "unat (x AND 0xFFC0) = unat x div 64 * 64"
    unfolding m high_bits unsigned_push_bit_eq unsigned_drop_bit_eq
    unfolding take_bit_eq_mod push_bit_eq_mult drop_bit_eq_div using top by simp
  then have "x AND 0xFFC0 = 0xFE80 \<longleftrightarrow> unat x div 64 = 1018" unfolding word_unat_eq_iff by simp
  then show "x AND 0xFFC0 = 0xFE80 \<longleftrightarrow> 65152 \<le> unat x \<and> unat x \<le> 65215" by linarith
qed

lemma segment_unat: "unat (segment i a) = unat a div 2 ^ (16 * (7 - i)) mod 65536"
  unfolding segment_def unsigned_ucast_eq unsigned_drop_bit_eq unfolding drop_bit_eq_div take_bit_eq_mod
  using unsigned_less [of a, where 'a = nat] by simp

text \<open>An IPv6 address is refused as private exactly when its number lies in one of the reserved
  IPv6 ranges, or is an IPv4-mapped one whose IPv4 address lies in a reserved IPv4 range.\<close>

theorem private_v6_ranges:
  "is_private_v6 a \<longleftrightarrow>
     in_ranges reserved_v6_ranges (unat a)
     \<or> (MAPPED_FIRST \<le> unat a \<and> unat a \<le> MAPPED_FIRST + 0xFFFFFFFF
        \<and> in_ranges reserved_v4_ranges (unat a - MAPPED_FIRST))"
proof (cases "MAPPED_FIRST \<le> unat a \<and> unat a \<le> MAPPED_FIRST + 0xFFFFFFFF")
  case True
  then have "unat (of_nat (unat a - MAPPED_FIRST) :: ipv4) = unat a - MAPPED_FIRST"
    by (intro of_nat_inverse [OF refl]) (auto simp: MAPPED_FIRST_def)
  moreover have "\<not> in_ranges reserved_v6_ranges (unat a)"
    using True by (simp add: in_ranges_def reserved_v6_ranges_def MAPPED_FIRST_def)
  ultimately show ?thesis
    using True by (simp add: is_private_v6_def mapped_unat private_v4_in_ranges)
next
  case False
  define n where "n = unat a"
  have top: "n < 340282366920938463463374607431768211456"
    unfolding n_def using unsigned_less [of a, where 'a = nat] by simp
  have s0: "unat (segment 0 a) = n div 5192296858534827628530496329220096"
    using top by (simp add: segment_unat n_def div_less_iff_less_mult)
  note range = div_range [of 5192296858534827628530496329220096 _ n]
  have "a = 0 \<or> a = 1 \<longleftrightarrow> 0 \<le> n \<and> n \<le> 1"
    unfolding word_unat_eq_iff n_def by auto
  moreover have "segment 0 a AND 0xFF00 = 0xFF00 \<longleftrightarrow>
      0xFF000000000000000000000000000000 \<le> n \<and> n \<le> 0xFFFFFFFFFFFFFFFFFFFFFFFFFFFFFFFF"
    unfolding masked_segment s0 range [of 65280 65535, simplified] by linarith
  moreover have "segment 0 a AND 0xFE00 = 0xFC00 \<longleftrightarrow>
      0xFC000000000000000000000000000000 \<le> n \<and> n \<le> 0xFDFFFFFFFFFFFFFFFFFFFFFFFFFFFFFF"
    unfolding masked_segment s0 range [of 64512 65023, simplified] by linarith
  moreover have "segment 0 a AND 0xFFC0 = 0xFE80 \<longleftrightarrow>
      0xFE800000000000000000000000000000 \<le> n \<and> n \<le> 0xFEBFFFFFFFFFFFFFFFFFFFFFFFFFFFFF"
    unfolding masked_segment s0 range [of 65152 65215, simplified] by linarith
  moreover have "is_documentation_v6 a \<longleftrightarrow>
      0x20010DB8000000000000000000000000 \<le> n \<and> n \<le> 0x20010DB8FFFFFFFFFFFFFFFFFFFFFFFF"
  proof -
    have s1: "unat (segment 1 a) = n div 79228162514264337593543950336 mod 65536"
      by (simp add: segment_unat n_def)
    have "n div 79228162514264337593543950336 =
        unat (segment 0 a) * 65536 + unat (segment 1 a)"
      unfolding s0 s1 by (simp add: div_mult2_eq [of n 79228162514264337593543950336 65536, simplified])
    then have "is_documentation_v6 a \<longleftrightarrow> n div 79228162514264337593543950336 = 0x20010DB8"
      using unsigned_less [of "segment 1 a", where 'a = nat]
        leading_digit_eq [of "unat (segment 1 a)" 65536 3512 "unat (segment 0 a)" 8193]
      unfolding is_documentation_v6_def word_unat_eq_iff by simp
    also have "\<dots> \<longleftrightarrow> 0x20010DB8000000000000000000000000 \<le> n \<and> n \<le> 0x20010DB8FFFFFFFFFFFFFFFFFFFFFFFF"
      using div_range [of 79228162514264337593543950336 536939960 n 536939960] by simp linarith
    finally show ?thesis .
  qed
  ultimately show ?thesis
    using False by (simp only: is_private_v6_def mapped_unat n_def [symmetric] in_ranges_def
        reserved_v6_ranges_def list_ex_Nil_iff list_ex_Cons_iff prod.case if_False option.case) blast
qed

end
