(* ===== verification/Table_Index.thy ===== *)
theory Table_Index
  imports Json_Reader Ip_Addr "HOL-Library.AList"
begin

text \<open>
  \<open>src/table/mod.rs\<close>: the table as rows in file order with an index beside them, the choice of the
  key column, the memory budget the index is charged against, and the lookups. The lemmas show
  that a key leads to exactly the rows that hold it, in file order, that an address reaches the
  rows of the most specific range around it, and that the index stays within the ceiling. The hash
  maps are association lists; what the allocator does (the capacity of a list or a map) and the
  prefix trie with its range type are parameters, the trie's laws a locale.
\<close>

section \<open>What the table takes from outside\<close>

text \<open>
  The capacity of a list grown by pushes to a length and of a map grown by inserts to a size, and
  what the prefix index charges one new range.
\<close>

record allocator =
  list_capacity :: "nat \<Rightarrow> nat"
  map_capacity :: "nat \<Rightarrow> nat"
  prefix_entry_bytes :: nat

text \<open>The \<open>ipnet\<close> ranges \<open>'p\<close> and the \<open>prefix_trie\<close> map \<open>'m\<close> of row lists filed under them.\<close>

record ('p, 'm) prefix_lib =
  parse_net :: "str \<Rightarrow> 'p option"
  host_net :: "ip_addr \<Rightarrow> 'p"
  pm_empty :: 'm
  pm_get :: "'m \<Rightarrow> 'p \<Rightarrow> nat list option"
  pm_insert :: "'m \<Rightarrow> 'p \<Rightarrow> nat list \<Rightarrow> 'm"
  pm_lpm :: "'m \<Rightarrow> 'p \<Rightarrow> nat list option"

section \<open>The table\<close>

type_synonym 'k filing = "('k \<times> nat list) list"

datatype 'm keys =
    TextKeys "str filing"
  | AddressKeys "ip_addr filing" "nat list"
  | PrefixKeys 'm "nat list"

record 'm table =
  tab_columns :: "str list"
  tab_key_column :: nat
  tab_rows :: "row list"
  tab_keys :: "'m keys"

definition ADDRESS_COLUMNS :: "str list" where
  "ADDRESS_COLUMNS = [''ip'', ''ip_address'', ''ipaddress'', ''address'', ''addr'']"

definition PREFIX_COLUMNS :: "str list" where
  "PREFIX_COLUMNS = [''prefix'', ''network'', ''cidr'', ''range'', ''subnet'']"

definition ADDRESS_SAMPLE :: nat where
  "ADDRESS_SAMPLE = 64"

definition as_address :: "str \<Rightarrow> ip_addr option" where
  "as_address t = parse_ip_addr t"

definition as_prefix :: "('p, 'm) prefix_lib \<Rightarrow> str \<Rightarrow> 'p option" where
  "as_prefix L t =
     (case parse_net L t of Some p \<Rightarrow> Some p | None \<Rightarrow> map_option (host_net L) (as_address t))"

section \<open>Which column holds the key\<close>

text \<open>
  Whether the sampled rows of a column hold a value that parses, and none that does not. The count
  of values seen is only ever compared to zero.
\<close>

fun holds_loop :: "(str \<Rightarrow> bool) \<Rightarrow> nat \<Rightarrow> nat \<Rightarrow> row list \<Rightarrow> bool" where
  "holds_loop parses at seen [] = (0 < seen)"
| "holds_loop parses at seen (r # rs) =
     (case cell r at of
        None \<Rightarrow> holds_loop parses at seen rs
      | Some t \<Rightarrow> if \<not> parses t then False else holds_loop parses at (seen + 1) rs)"

definition keyed_column :: "str list \<Rightarrow> row list \<Rightarrow> str list \<Rightarrow> (str \<Rightarrow> bool) \<Rightarrow> nat option" where
  "keyed_column cols rs names parses =
     (let holds = (\<lambda>at. holds_loop parses at 0 (take ADDRESS_SAMPLE rs));
          conventional = position (\<lambda>c. to_ascii_lowercase c \<in> set names) cols
      in case conventional of
           Some at \<Rightarrow> if holds at then Some at else List.find holds [0..<length cols]
         | None \<Rightarrow> List.find holds [0..<length cols])"

section \<open>The budget\<close>

text \<open>Bytes a table may hold while its index is built, and what it holds so far.\<close>

record budget =
  bud_held :: nat
  bud_ceiling :: nat

definition STRING_BYTES :: nat where "STRING_BYTES = 24"
definition USIZE_BYTES :: nat where "USIZE_BYTES = 8"

text \<open>One map bucket: an entry and its control byte, for text and for address keys.\<close>

definition TEXT_BUCKET :: nat where "TEXT_BUCKET = 16 + 24 + 1"
definition ADDRESS_BUCKET :: nat where "ADDRESS_BUCKET = 48 + 1"

definition budget_charge :: "budget \<Rightarrow> nat \<Rightarrow> (table_error, budget) result" where
  "budget_charge b bytes =
     (let h = sat_add (bud_held b) bytes
      in if bud_ceiling b < h then Inl (OverResidentCeiling (bud_ceiling b))
         else Inr (b\<lparr> bud_held := h \<rparr>))"

definition budget_push ::
    "allocator \<Rightarrow> budget \<Rightarrow> nat list \<Rightarrow> nat \<Rightarrow> (table_error, nat list \<times> budget) result" where
  "budget_push A b list at =
     (let list' = list @ [at];
          grown = list_capacity A (length list') - list_capacity A (length list)
      in and_then (budget_charge b (grown * USIZE_BYTES)) (\<lambda>b'. Inr (list', b')))"

text \<open>File a row under a key: the key's own bytes, the list it lands in, the buckets the map grows by.\<close>

definition budget_file ::
    "allocator \<Rightarrow> nat \<Rightarrow> budget \<Rightarrow> 'k filing \<Rightarrow> 'k \<Rightarrow> nat \<Rightarrow> nat \<Rightarrow> (table_error, 'k filing \<times> budget) result" where
  "budget_file A bucket b filed key key_bytes at =
     and_then
       (case map_of filed key of
          Some list \<Rightarrow> Inr (list, b)
        | None \<Rightarrow> and_then (budget_charge b key_bytes) (\<lambda>b'. Inr ([], b')))
       (\<lambda>(list, b1).
     and_then (budget_push A b1 list at) (\<lambda>(list', b2).
       let filed' = AList.update key list' filed;
           grown = map_capacity A (length filed') - map_capacity A (length filed)
       in and_then (budget_charge b2 (grown * bucket * 8 div 7)) (\<lambda>b3. Inr (filed', b3))))"

section \<open>Building the index\<close>

type_synonym 'm indexing = "('m \<times> nat list) \<times> budget"

definition text_step ::
    "allocator \<Rightarrow> nat \<Rightarrow> str filing indexing \<Rightarrow> nat \<times> row \<Rightarrow> (table_error, str filing indexing) result" where
  "text_step A kc s ar =
     (let ((filed, unindexed), b) = s; (at, r) = ar in
      case cell r kc of
        None \<Rightarrow> Inr s
      | Some key \<Rightarrow>
          and_then (budget_file A TEXT_BUCKET b filed key (length key) at)
            (\<lambda>(filed', b'). Inr ((filed', unindexed), b')))"

definition address_step ::
    "allocator \<Rightarrow> nat \<Rightarrow> ip_addr filing indexing \<Rightarrow> nat \<times> row \<Rightarrow>
     (table_error, ip_addr filing indexing) result" where
  "address_step A kc s ar =
     (let ((filed, unindexed), b) = s; (at, r) = ar in
      case cell r kc of
        None \<Rightarrow> Inr s
      | Some t \<Rightarrow>
          (case as_address t of
             Some address \<Rightarrow>
               and_then (budget_file A ADDRESS_BUCKET b filed address 0 at)
                 (\<lambda>(filed', b'). Inr ((filed', unindexed), b'))
           | None \<Rightarrow>
               and_then (budget_push A b unindexed at)
                 (\<lambda>(unindexed', b'). Inr ((filed, unindexed'), b'))))"

text \<open>A repeated range keeps every row, the same as a repeated text key does.\<close>

definition prefix_step ::
    "('p, 'm) prefix_lib \<Rightarrow> allocator \<Rightarrow> nat \<Rightarrow> 'm indexing \<Rightarrow> nat \<times> row \<Rightarrow>
     (table_error, 'm indexing) result" where
  "prefix_step L A kc s ar =
     (let ((filed, unindexed), b) = s; (at, r) = ar in
      case cell r kc of
        None \<Rightarrow> Inr s
      | Some t \<Rightarrow>
          (case as_prefix L t of
             Some p \<Rightarrow>
               and_then
                 (case pm_get L filed p of
                    Some list \<Rightarrow> budget_push A b list at
                  | None \<Rightarrow>
                      and_then (budget_charge b (prefix_entry_bytes A)) (\<lambda>b'. budget_push A b' [] at))
                 (\<lambda>(list, b'). Inr ((pm_insert L filed p list, unindexed), b'))
           | None \<Rightarrow>
               and_then (budget_push A b unindexed at)
                 (\<lambda>(unindexed', b'). Inr ((filed, unindexed'), b'))))"

definition join_columns :: "str list \<Rightarrow> str" where
  "join_columns cols = (case cols of [] \<Rightarrow> [] | c # cs \<Rightarrow> c @ concat (map (\<lambda>d. '', '' @ d) cs))"

definition key_column_of ::
    "('p, 'm) prefix_lib \<Rightarrow> index \<Rightarrow> str list \<Rightarrow> row list \<Rightarrow> (table_error, nat) result" where
  "key_column_of L ix cols rs =
     (case ix of
        Column name \<Rightarrow> ok_or (UnknownColumn name (join_columns cols)) (position (\<lambda>c. c = name) cols)
      | Ip \<Rightarrow> ok_or (NoAddressColumn (join_columns cols))
                (keyed_column cols rs ADDRESS_COLUMNS (\<lambda>t. as_address t \<noteq> None))
      | Prefix \<Rightarrow> ok_or (NoPrefixColumn (join_columns cols))
                (keyed_column cols rs PREFIX_COLUMNS (\<lambda>t. as_prefix L t \<noteq> None)))"

definition build_keys ::
    "('p, 'm) prefix_lib \<Rightarrow> allocator \<Rightarrow> index \<Rightarrow> nat \<Rightarrow> row list \<Rightarrow> budget \<Rightarrow>
     (table_error, 'm keys \<times> budget) result" where
  "build_keys L A ix kc rs b =
     (case ix of
        Column _ \<Rightarrow>
          and_then (try_fold (text_step A kc) (([], []), b) (enumerate 0 rs))
            (\<lambda>((filed, _), b'). Inr (TextKeys filed, b'))
      | Ip \<Rightarrow>
          and_then (try_fold (address_step A kc) (([], []), b) (enumerate 0 rs))
            (\<lambda>((filed, unindexed), b'). Inr (AddressKeys filed unindexed, b'))
      | Prefix \<Rightarrow>
          and_then (try_fold (prefix_step L A kc) ((pm_empty L, []), b) (enumerate 0 rs))
            (\<lambda>((filed, unindexed), b'). Inr (PrefixKeys filed unindexed, b')))"

text \<open>Index parsed rows: the names, the key column, the index, all held to the ceiling.\<close>

definition build_table ::
    "('p, 'm) prefix_lib \<Rightarrow> allocator \<Rightarrow> parsed \<Rightarrow> index \<Rightarrow> nat \<Rightarrow> (table_error, 'm table) result" where
  "build_table L A p ix c =
     and_then (try_fold (\<lambda>b col. budget_charge b (length col + STRING_BYTES))
                 \<lparr> bud_held = par_held p, bud_ceiling = c \<rparr> (par_columns p)) (\<lambda>b.
     and_then (key_column_of L ix (par_columns p) (par_rows p)) (\<lambda>kc.
     and_then (build_keys L A ix kc (par_rows p) b) (\<lambda>(ks, _).
       Inr \<lparr> tab_columns = par_columns p, tab_key_column = kc, tab_rows = par_rows p, tab_keys = ks \<rparr>)))"

section \<open>Lookups\<close>

definition filed_under :: "'k filing \<Rightarrow> 'k \<Rightarrow> nat list" where
  "filed_under filed key = (case map_of filed key of None \<Rightarrow> [] | Some list \<Rightarrow> list)"

definition positions_of :: "'m table \<Rightarrow> str \<Rightarrow> nat list" where
  "positions_of t key =
     (case tab_keys t of
        TextKeys filed \<Rightarrow> filed_under filed key
      | AddressKeys _ _ \<Rightarrow> []
      | PrefixKeys _ _ \<Rightarrow> [])"

definition positions_at :: "('p, 'm) prefix_lib \<Rightarrow> 'm table \<Rightarrow> ip_addr \<Rightarrow> nat list" where
  "positions_at L t address =
     (case tab_keys t of
        AddressKeys filed _ \<Rightarrow> filed_under filed address
      | PrefixKeys filed _ \<Rightarrow>
          (case pm_lpm L filed (host_net L address) of None \<Rightarrow> [] | Some list \<Rightarrow> list)
      | TextKeys _ \<Rightarrow> [])"

definition row_at :: "'m table \<Rightarrow> nat \<Rightarrow> row" where
  "row_at t at = tab_rows t ! at"

definition first_row :: "'m table \<Rightarrow> nat list \<Rightarrow> row option" where
  "first_row t ps = (case ps of [] \<Rightarrow> None | at # _ \<Rightarrow> Some (row_at t at))"

definition table_get :: "'m table \<Rightarrow> str \<Rightarrow> row option" where
  "table_get t key = first_row t (positions_of t key)"

definition table_all :: "'m table \<Rightarrow> str \<Rightarrow> row list" where
  "table_all t key = map (row_at t) (positions_of t key)"

definition get_by_address :: "('p, 'm) prefix_lib \<Rightarrow> 'm table \<Rightarrow> ip_addr \<Rightarrow> row option" where
  "get_by_address L t address = first_row t (positions_at L t address)"

definition all_by_address :: "('p, 'm) prefix_lib \<Rightarrow> 'm table \<Rightarrow> ip_addr \<Rightarrow> row list" where
  "all_by_address L t address = map (row_at t) (positions_at L t address)"

definition all_rows :: "'m table \<Rightarrow> row list" where
  "all_rows t = map (row_at t) [0..<length (tab_rows t)]"

definition keyed_by_address :: "'m table \<Rightarrow> bool" where
  "keyed_by_address t =
     (case tab_keys t of TextKeys _ \<Rightarrow> False | AddressKeys _ _ \<Rightarrow> True | PrefixKeys _ _ \<Rightarrow> True)"

definition position_of :: "'m table \<Rightarrow> str \<Rightarrow> nat option" where
  "position_of t column = position (\<lambda>c. c = column) (tab_columns t)"

definition row_get :: "'m table \<Rightarrow> row \<Rightarrow> str \<Rightarrow> str option" where
  "row_get t r column = Option.bind (position_of t column) (cell r)"

definition row_key :: "'m table \<Rightarrow> row \<Rightarrow> str option" where
  "row_key t r = cell r (tab_key_column t)"

section \<open>Reading a file into a table\<close>

definition read_file ::
    "('p, 'm) prefix_lib \<Rightarrow> allocator \<Rightarrow> (reader \<Rightarrow> document) \<Rightarrow> (json \<Rightarrow> str) \<Rightarrow>
     (str, reader) result \<Rightarrow> table_format \<Rightarrow> schema \<Rightarrow> index \<Rightarrow> nat \<Rightarrow> (table_error, 'm table) result" where
  "read_file L A document_of to_text opened fmt sch ix c =
     and_then (map_err TableIo opened) (\<lambda>r.
     and_then (read_table document_of to_text r fmt sch c) (\<lambda>p. build_table L A p ix c))"

definition load_table ::
    "('p, 'm) prefix_lib \<Rightarrow> allocator \<Rightarrow> (reader \<Rightarrow> document) \<Rightarrow> (json \<Rightarrow> str) \<Rightarrow>
     (str, reader) result \<Rightarrow> table_format \<Rightarrow> schema \<Rightarrow> index \<Rightarrow> (table_error, 'm table) result" where
  "load_table L A document_of to_text opened fmt sch ix =
     read_file L A document_of to_text opened fmt sch ix u64_max"

definition from_reader ::
    "('p, 'm) prefix_lib \<Rightarrow> allocator \<Rightarrow> (reader \<Rightarrow> document) \<Rightarrow> (json \<Rightarrow> str) \<Rightarrow>
     reader \<Rightarrow> table_format \<Rightarrow> schema \<Rightarrow> index \<Rightarrow> (table_error, 'm table) result" where
  "from_reader L A document_of to_text r fmt sch ix =
     and_then (read_table document_of to_text r fmt sch u64_max) (\<lambda>p. build_table L A p ix u64_max)"

text \<open>Whether a staged file would load: the load itself, its table dropped.\<close>

definition probe_table ::
    "('p, 'm) prefix_lib \<Rightarrow> allocator \<Rightarrow> (reader \<Rightarrow> document) \<Rightarrow> (json \<Rightarrow> str) \<Rightarrow>
     (str, reader) result \<Rightarrow> table_format \<Rightarrow> schema \<Rightarrow> index \<Rightarrow> nat \<Rightarrow> (table_error, unit) result" where
  "probe_table L A document_of to_text opened fmt sch ix c =
     and_then (read_file L A document_of to_text opened fmt sch ix c) (\<lambda>_. Inr ())"

section \<open>The laws of an index\<close>

text \<open>What the key cell of a row is to an index: absent, there and unreadable, or a key.\<close>

datatype 'k key_cell = NoKey | Unparsed | Key 'k

text \<open>
  An index is reached through a lookup: the empty one leads nowhere, and filing a row under a key
  appends it to what that key, and every key the index does not tell apart from it, leads to.
\<close>

locale row_index =
  fixes lookup :: "'m \<Rightarrow> 'k \<Rightarrow> nat list"
    and same :: "'k \<Rightarrow> 'k \<Rightarrow> bool"
    and empty :: 'm
    and put :: "'m \<Rightarrow> 'k \<Rightarrow> nat \<Rightarrow> 'm"
  assumes lookup_empty: "lookup empty k = []"
    and lookup_file: "lookup (put m k at) k' = (if same k k' then lookup m k' @ [at] else lookup m k')"
begin

definition index_row :: "('r \<Rightarrow> 'k key_cell) \<Rightarrow> 'm \<times> nat list \<Rightarrow> nat \<times> 'r \<Rightarrow> 'm \<times> nat list" where
  "index_row classify mu ar =
     (case classify (snd ar) of
        NoKey \<Rightarrow> mu
      | Unparsed \<Rightarrow> (fst mu, snd mu @ [fst ar])
      | Key k \<Rightarrow> (put (fst mu) k (fst ar), snd mu))"

definition leads :: "('r \<Rightarrow> 'k key_cell) \<Rightarrow> 'k \<Rightarrow> 'r \<Rightarrow> bool" where
  "leads classify k r \<longleftrightarrow> (case classify r of Key k' \<Rightarrow> same k' k | _ \<Rightarrow> False)"

lemma index_rows:
  "lookup (fst (foldl (index_row classify) mu ars)) k =
     lookup (fst mu) k @ map fst (filter (\<lambda>(at, r). leads classify k r) ars)"
  "snd (foldl (index_row classify) mu ars) =
     snd mu @ map fst (filter (\<lambda>(at, r). classify r = Unparsed) ars)"
  by (induction ars arbitrary: mu)
    (auto simp: index_row_def leads_def lookup_file split: key_cell.splits)

text \<open>Every key leads to exactly the rows that hold it, in file order.\<close>

lemma index_complete:
  assumes "foldl (index_row classify) (empty, []) (enumerate 0 rs) = (m, u)"
  shows "lookup m k = filter (\<lambda>i. leads classify k (rs ! i)) [0..<length rs]"
    and "u = filter (\<lambda>i. classify (rs ! i) = Unparsed) [0..<length rs]"
proof -
  have enum: "enumerate 0 rs = map (\<lambda>i. (i, rs ! i)) [0..<length rs]"
    by (rule nth_equalityI) (auto simp: nth_enumerate_eq)
  show "lookup m k = filter (\<lambda>i. leads classify k (rs ! i)) [0..<length rs]"
    using index_rows(1) [of classify "(empty, [])" "enumerate 0 rs" k] assms
    by (simp add: lookup_empty enum filter_map comp_def)
  show "u = filter (\<lambda>i. classify (rs ! i) = Unparsed) [0..<length rs]"
    using index_rows(2) [of classify "(empty, [])" "enumerate 0 rs"] assms
    by (simp add: enum filter_map comp_def)
qed

end

definition file_under :: "'k filing \<Rightarrow> 'k \<Rightarrow> nat \<Rightarrow> 'k filing" where
  "file_under m k at = AList.update k (filed_under m k @ [at]) m"

text \<open>The association lists that model the hash maps are such an index, at any key type.\<close>

lemma filing_index: "row_index filed_under (=) [] file_under"
  by unfold_locales (auto simp: filed_under_def file_under_def update_conv' split: option.splits)

interpretation text_index: row_index "filed_under :: str filing \<Rightarrow> _" "(=)" "[]" file_under
  by (rule filing_index)

interpretation address_index: row_index "filed_under :: ip_addr filing \<Rightarrow> _" "(=)" "[]" file_under
  by (rule filing_index)

section \<open>The laws of the prefix trie\<close>

text \<open>
  What the code relies on of \<open>ipnet\<close> and \<open>prefix_trie\<close>: a map keyed by ranges, which it may not
  tell apart (\<open>canon\<close> is what it keys them by), whose longest-prefix match is the filed range of
  greatest length that covers the address.
\<close>

locale prefix_library =
  fixes L :: "('p, 'm) prefix_lib"
    and canon :: "'p \<Rightarrow> 'c"
    and covers :: "'p \<Rightarrow> ip_addr \<Rightarrow> bool"
    and plen :: "'p \<Rightarrow> nat"
  assumes get_empty: "pm_get L (pm_empty L) p = None"
    and get_insert: "pm_get L (pm_insert L m p l) q =
          (if canon p = canon q then Some l else pm_get L m q)"
    and get_canon: "canon p = canon q \<Longrightarrow> pm_get L m p = pm_get L m q"
    and lpm_Some: "pm_lpm L m (host_net L a) = Some l \<Longrightarrow>
          \<exists>p. pm_get L m p = Some l \<and> covers p a \<and>
            (\<forall>q. pm_get L m q \<noteq> None \<longrightarrow> covers q a \<longrightarrow> plen q \<le> plen p)"
    and lpm_None: "pm_lpm L m (host_net L a) = None \<Longrightarrow> pm_get L m q \<noteq> None \<Longrightarrow> \<not> covers q a"
begin

definition listed :: "'m \<Rightarrow> 'p \<Rightarrow> nat list" where
  "listed m p = (case pm_get L m p of None \<Rightarrow> [] | Some l \<Rightarrow> l)"

definition file_range :: "'m \<Rightarrow> 'p \<Rightarrow> nat \<Rightarrow> 'm" where
  "file_range m p at = pm_insert L m p (listed m p @ [at])"

lemma range_index: "row_index listed (\<lambda>p q. canon p = canon q) (pm_empty L) file_range"
proof
  show "listed (pm_empty L) k = []" for k
    by (simp add: listed_def get_empty)
  show "listed (file_range m k at) k' = (if canon k = canon k' then listed m k' @ [at] else listed m k')"
    for m k at k'
    using get_canon [of k k' m] by (simp add: listed_def file_range_def get_insert)
qed

end

sublocale prefix_library \<subseteq> ranges: row_index listed "\<lambda>p q. canon p = canon q" "pm_empty L" file_range
  by (rule range_index)

section \<open>The code's loops are those indexes\<close>

lemma budget_push_list [simp]: "returns (\<lambda>(l', b'). l' = l @ [at]) (budget_push A b l at)"
  by (simp add: budget_push_def Let_def returns_def and_then_Inr_iff)

lemma budget_file_filing: "returns (\<lambda>(m', b'). m' = file_under m k at) (budget_file A bucket b m k n at)"
  by (auto simp: budget_file_def budget_push_def Let_def returns_def and_then_Inr_iff file_under_def
      filed_under_def split: option.splits)

definition text_cell :: "nat \<Rightarrow> row \<Rightarrow> str key_cell" where
  "text_cell kc r = (case cell r kc of None \<Rightarrow> NoKey | Some t \<Rightarrow> Key t)"

definition parsed_cell :: "(str \<Rightarrow> 'k option) \<Rightarrow> nat \<Rightarrow> row \<Rightarrow> 'k key_cell" where
  "parsed_cell parse kc r =
     (case cell r kc of
        None \<Rightarrow> NoKey
      | Some t \<Rightarrow> (case parse t of None \<Rightarrow> Unparsed | Some k \<Rightarrow> Key k))"

lemma text_step_index:
  "returns (\<lambda>s'. fst s' = text_index.index_row (text_cell kc) (fst s) ar) (text_step A kc s ar)"
  using budget_file_filing [of "fst (fst s)" "the (cell (snd ar) kc)" "fst ar" A TEXT_BUCKET "snd s"
      "length (the (cell (snd ar) kc))"]
  by (auto simp: text_step_def Let_def text_index.index_row_def text_cell_def split_beta returns_def
      and_then_Inr_iff split: option.splits)

lemma address_step_index:
  "returns (\<lambda>s'. fst s' = address_index.index_row (parsed_cell as_address kc) (fst s) ar)
     (address_step A kc s ar)"
  using budget_file_filing [of "fst (fst s)" "the (as_address (the (cell (snd ar) kc)))" "fst ar" A
      ADDRESS_BUCKET "snd s" 0] budget_push_list [of "snd (fst s)" "fst ar" A "snd s"]
  by (auto simp: address_step_def Let_def address_index.index_row_def parsed_cell_def split_beta returns_def
      and_then_Inr_iff split: option.splits)

context prefix_library
begin

lemma prefix_step_index:
  "returns (\<lambda>s'. fst s' = ranges.index_row (parsed_cell (as_prefix L) kc) (fst s) ar)
     (prefix_step L A kc s ar)"
  by (auto simp: prefix_step_def Let_def ranges.index_row_def parsed_cell_def split_beta returns_def
      and_then_Inr_iff budget_push_def file_range_def listed_def split: option.splits)

end

section \<open>Every row is reached by its key\<close>

definition rows_where :: "(row \<Rightarrow> bool) \<Rightarrow> row list \<Rightarrow> nat list" where
  "rows_where P rs = filter (\<lambda>i. P (rs ! i)) [0..<length rs]"

definition key_of :: "(str \<Rightarrow> 'k option) \<Rightarrow> nat \<Rightarrow> row \<Rightarrow> 'k option" where
  "key_of parse kc r = Option.bind (cell r kc) parse"

definition unparsed :: "(str \<Rightarrow> 'k option) \<Rightarrow> nat \<Rightarrow> row \<Rightarrow> bool" where
  "unparsed parse kc r \<longleftrightarrow> cell r kc \<noteq> None \<and> key_of parse kc r = None"

text \<open>What an index promises of the rows beside it.\<close>

definition table_indexed :: "('p, 'm) prefix_lib \<Rightarrow> ('p \<Rightarrow> 'c) \<Rightarrow> 'm table \<Rightarrow> bool" where
  "table_indexed L canon t \<longleftrightarrow>
     (let kc = tab_key_column t; rs = tab_rows t in
      kc < length (tab_columns t) \<and>
      (case tab_keys t of
         TextKeys filed \<Rightarrow> (\<forall>k. filed_under filed k = rows_where (\<lambda>r. cell r kc = Some k) rs)
       | AddressKeys filed u \<Rightarrow>
           (\<forall>a. filed_under filed a = rows_where (\<lambda>r. key_of as_address kc r = Some a) rs)
           \<and> u = rows_where (unparsed as_address kc) rs
       | PrefixKeys m u \<Rightarrow>
           (\<forall>p. (case pm_get L m p of None \<Rightarrow> [] | Some l \<Rightarrow> l) =
                rows_where (\<lambda>r. map_option canon (key_of (as_prefix L) kc r) = Some (canon p)) rs)
           \<and> (\<forall>p l. pm_get L m p = Some l \<longrightarrow> l \<noteq> [])
           \<and> u = rows_where (unparsed (as_prefix L) kc) rs))"

lemma text_cell_leads: "text_index.leads (text_cell kc) k r \<longleftrightarrow> cell r kc = Some k"
  by (auto simp: text_index.leads_def text_cell_def split: option.splits)

lemma parsed_cell_leads: "address_index.leads (parsed_cell as_address kc) a r \<longleftrightarrow> key_of as_address kc r = Some a"
  by (auto simp: address_index.leads_def parsed_cell_def key_of_def split: option.splits)

lemma parsed_cell_unparsed: "parsed_cell parse kc r = Unparsed \<longleftrightarrow> unparsed parse kc r"
  by (auto simp: parsed_cell_def unparsed_def key_of_def split: option.splits)

lemma text_keys_complete:
  assumes "build_keys L A (Column name) kc rs b = Inr (ks, b')"
  shows "\<exists>filed. ks = TextKeys filed \<and> (\<forall>k. filed_under filed k = rows_where (\<lambda>r. cell r kc = Some k) rs)"
proof -
  from assms obtain filed u where run: "try_fold (text_step A kc) (([], []), b) (enumerate 0 rs) = Inr ((filed, u), b')"
    and ks: "ks = TextKeys filed"
    by (auto simp: build_keys_def and_then_Inr_iff)
  have "foldl (text_index.index_row (text_cell kc)) ([], []) (enumerate 0 rs) = (filed, u)"
    using returnsD [OF try_fold_abs [where view = fst and f = "text_index.index_row (text_cell kc)", OF text_step_index] run] by simp
  from text_index.index_complete(1) [OF this] ks show ?thesis
    by (simp add: rows_where_def text_cell_leads)
qed

lemma address_keys_complete:
  assumes "build_keys L A Ip kc rs b = Inr (ks, b')"
  shows "\<exists>filed u. ks = AddressKeys filed u
    \<and> (\<forall>a. filed_under filed a = rows_where (\<lambda>r. key_of as_address kc r = Some a) rs)
    \<and> u = rows_where (unparsed as_address kc) rs"
proof -
  from assms obtain filed u where
    run: "try_fold (address_step A kc) (([], []), b) (enumerate 0 rs) = Inr ((filed, u), b')"
    and ks: "ks = AddressKeys filed u"
    by (auto simp: build_keys_def and_then_Inr_iff)
  have "foldl (address_index.index_row (parsed_cell as_address kc)) ([], []) (enumerate 0 rs) = (filed, u)"
    using returnsD [OF try_fold_abs [where view = fst and f = "address_index.index_row (parsed_cell as_address kc)", OF address_step_index] run] by simp
  from address_index.index_complete [OF this] ks show ?thesis
    by (simp add: rows_where_def parsed_cell_leads parsed_cell_unparsed)
qed

context prefix_library
begin

lemma range_leads:
  "ranges.leads (parsed_cell (as_prefix L) kc) p r \<longleftrightarrow>
   map_option canon (key_of (as_prefix L) kc r) = Some (canon p)"
  by (auto simp: ranges.leads_def parsed_cell_def key_of_def split: option.splits)

text \<open>Every filed list holds a row: nothing is filed without one.\<close>

lemma filed_nonempty:
  "(\<forall>p l. pm_get L (fst mu) p = Some l \<longrightarrow> l \<noteq> []) \<Longrightarrow>
   \<forall>p l. pm_get L (fst (foldl (ranges.index_row classify) mu ars)) p = Some l \<longrightarrow> l \<noteq> []"
proof (induction ars arbitrary: mu)
  case (Cons ar ars)
  have "\<forall>p l. pm_get L (fst (ranges.index_row classify mu ar)) p = Some l \<longrightarrow> l \<noteq> []"
    using Cons.prems
    by (auto simp: ranges.index_row_def file_range_def get_insert split: key_cell.splits if_splits)
  from Cons.IH [OF this] show ?case by simp
qed simp

lemma prefix_keys_complete:
  assumes "build_keys L A Prefix kc rs b = Inr (ks, b')"
  shows "\<exists>m u. ks = PrefixKeys m u
    \<and> (\<forall>p. listed m p = rows_where (\<lambda>r. map_option canon (key_of (as_prefix L) kc r) = Some (canon p)) rs)
    \<and> (\<forall>p l. pm_get L m p = Some l \<longrightarrow> l \<noteq> [])
    \<and> u = rows_where (unparsed (as_prefix L) kc) rs"
proof -
  from assms obtain m u where
    run: "try_fold (prefix_step L A kc) ((pm_empty L, []), b) (enumerate 0 rs) = Inr ((m, u), b')"
    and ks: "ks = PrefixKeys m u"
    by (auto simp: build_keys_def and_then_Inr_iff)
  have fold: "foldl (ranges.index_row (parsed_cell (as_prefix L) kc)) (pm_empty L, []) (enumerate 0 rs) = (m, u)"
    using returnsD [OF try_fold_abs [where view = fst and f = "ranges.index_row (parsed_cell (as_prefix L) kc)", OF prefix_step_index] run] by simp
  have "\<forall>p l. pm_get L m p = Some l \<longrightarrow> l \<noteq> []"
    using filed_nonempty [of "(pm_empty L, [])" "parsed_cell (as_prefix L) kc" "enumerate 0 rs"]
    by (simp add: fold get_empty)
  with ranges.index_complete [OF fold] ks show ?thesis
    by (simp add: rows_where_def range_leads parsed_cell_unparsed)
qed

end

lemma build_table_parts:
  assumes "build_table L A p ix c = Inr t"
  obtains b ks b' where "key_column_of L ix (par_columns p) (par_rows p) = Inr (tab_key_column t)"
    and "try_fold (\<lambda>b col. budget_charge b (length col + STRING_BYTES))
           \<lparr> bud_held = par_held p, bud_ceiling = c \<rparr> (par_columns p) = Inr b"
    and "build_keys L A ix (tab_key_column t) (par_rows p) b = Inr (ks, b')"
    and "tab_columns t = par_columns p" and "tab_rows t = par_rows p" and "tab_keys t = ks"
proof -
  from assms obtain b kc ks b' where "key_column_of L ix (par_columns p) (par_rows p) = Inr kc"
    "try_fold (\<lambda>b col. budget_charge b (length col + STRING_BYTES))
           \<lparr> bud_held = par_held p, bud_ceiling = c \<rparr> (par_columns p) = Inr b"
    "build_keys L A ix kc (par_rows p) b = Inr (ks, b')"
    and t: "t = \<lparr> tab_columns = par_columns p, tab_key_column = kc, tab_rows = par_rows p, tab_keys = ks \<rparr>"
    unfolding build_table_def and_then_Inr_iff by auto
  then show ?thesis using that [of b ks b'] by simp
qed

lemma find_upt_bound: "List.find P [0..<n] = Some i \<Longrightarrow> i < n \<and> P i"
  by (metis find_Some_iff nth_mem atLeastLessThan_iff set_upt add.left_neutral nth_upt length_upt diff_zero)

lemma keyed_column_holds:
  "keyed_column cols rs names parses = Some at \<Longrightarrow>
   at < length cols \<and> holds_loop parses at 0 (take ADDRESS_SAMPLE rs)"
  by (auto simp: keyed_column_def Let_def split: option.splits if_splits
      dest: position_Some find_upt_bound)

lemma key_column_bound: "key_column_of L ix cols rs = Inr kc \<Longrightarrow> kc < length cols"
  by (auto simp: key_column_of_def ok_or_def split: index.splits option.splits
      dest: position_Some keyed_column_holds)

lemma build_table_indexed:
  assumes "prefix_library L canon covers plen" and "build_table L A p ix c = Inr t"
  shows "table_indexed L canon t \<and> tab_rows t = par_rows p \<and> tab_columns t = par_columns p"
proof -
  from build_table_parts [OF assms(2)] obtain b ks b' where
    kc: "key_column_of L ix (par_columns p) (par_rows p) = Inr (tab_key_column t)"
    and ks: "build_keys L A ix (tab_key_column t) (par_rows p) b = Inr (ks, b')"
    and parts: "tab_columns t = par_columns p" "tab_rows t = par_rows p" "tab_keys t = ks" .
  from key_column_bound [OF kc] parts have "tab_key_column t < length (tab_columns t)" by simp
  moreover have "case ks of
      TextKeys filed \<Rightarrow> (\<forall>k. filed_under filed k = rows_where (\<lambda>r. cell r (tab_key_column t) = Some k) (par_rows p))
    | AddressKeys filed u \<Rightarrow>
        (\<forall>a. filed_under filed a = rows_where (\<lambda>r. key_of as_address (tab_key_column t) r = Some a) (par_rows p))
        \<and> u = rows_where (unparsed as_address (tab_key_column t)) (par_rows p)
    | PrefixKeys m u \<Rightarrow>
        (\<forall>q. (case pm_get L m q of None \<Rightarrow> [] | Some l \<Rightarrow> l) =
             rows_where (\<lambda>r. map_option canon (key_of (as_prefix L) (tab_key_column t) r) = Some (canon q)) (par_rows p))
        \<and> (\<forall>q l. pm_get L m q = Some l \<longrightarrow> l \<noteq> [])
        \<and> u = rows_where (unparsed (as_prefix L) (tab_key_column t)) (par_rows p)"
  proof (cases ix)
    case Ip
    with address_keys_complete ks show ?thesis by fastforce
  next
    case Prefix
    with prefix_library.prefix_keys_complete [OF assms(1)] ks show ?thesis
      by (fastforce simp: prefix_library.listed_def [OF assms(1)])
  next
    case (Column name)
    with text_keys_complete ks show ?thesis by fastforce
  qed
  ultimately show ?thesis
    by (simp add: table_indexed_def Let_def parts)
qed

lemma rows_where_rows: "map (\<lambda>i. rs ! i) (rows_where P rs) = filter P rs"
proof -
  have "filter P rs = filter P (map (\<lambda>i. rs ! i) [0..<length rs])"
    by (simp add: map_nth)
  then show ?thesis
    by (simp add: rows_where_def filter_map comp_def)
qed

lemma first_row_find:
  assumes "ps = rows_where P (tab_rows t)"
  shows "first_row t ps = List.find P (tab_rows t)"
proof -
  have "map (row_at t) ps = filter P (tab_rows t)"
    using assms rows_where_rows [of "tab_rows t" P] by (simp add: row_at_def [abs_def])
  then have "filter P (tab_rows t) = map (row_at t) ps" ..
  then show ?thesis
    by (cases ps) (simp_all add: first_row_def find_filter)
qed

text \<open>C12: a built index leads from every key to exactly the rows that hold it, in file order, and
  lists exactly the rows whose key cell is there and does not parse.\<close>

theorem build_indexes_every_row:
  assumes "prefix_library L canon covers plen" and "build_table L A p ix c = Inr t"
  shows "table_indexed L canon t \<and> tab_rows t = par_rows p \<and> tab_columns t = par_columns p"
  using assms by (rule build_table_indexed)

text \<open>On a table indexed by a column, a text key answers with exactly the rows holding it, in file
  order, and with the first of them alone where one is asked for; an address answers nothing.\<close>

theorem text_key_reaches_its_rows:
  assumes "build_table L A p (Column name) c = Inr t"
  shows "table_all t key = filter (\<lambda>r. row_key t r = Some key) (par_rows p)
    \<and> table_get t key = List.find (\<lambda>r. row_key t r = Some key) (par_rows p)
    \<and> get_by_address L t a = None"
proof -
  from build_table_parts [OF assms] obtain b ks b' where
    ks: "build_keys L A (Column name) (tab_key_column t) (par_rows p) b = Inr (ks, b')"
    and parts: "tab_rows t = par_rows p" "tab_keys t = ks" by metis
  from text_keys_complete [OF ks] obtain filed where filed: "ks = TextKeys filed"
    and at: "filed_under filed key = rows_where (\<lambda>r. row_key t r = Some key) (par_rows p)"
    unfolding row_key_def by blast
  have "positions_of t key = rows_where (\<lambda>r. row_key t r = Some key) (tab_rows t)"
    by (simp add: positions_of_def parts filed at)
  from first_row_find [OF this] this rows_where_rows [of "par_rows p"] show ?thesis
    by (simp add: table_all_def table_get_def get_by_address_def positions_at_def parts filed
        row_at_def [abs_def] first_row_def)
qed

text \<open>C37: on a table indexed by ranges, an address reaches the rows of the most specific range around
  it: either no row's range covers it, or it answers with exactly the rows of one covering range,
  in file order, and no row's range that covers it is longer.\<close>

theorem most_specific_range_answers:
  assumes "prefix_library L canon covers plen" and "build_table L A p Prefix c = Inr t"
  shows "(all_by_address L t a = [] \<and>
          (\<forall>r \<in> set (par_rows p). \<forall>q. key_of (as_prefix L) (tab_key_column t) r = Some q \<longrightarrow> \<not> covers q a))
    \<or> (\<exists>q. covers q a \<and> all_by_address L t a \<noteq> []
         \<and> all_by_address L t a =
             filter (\<lambda>r. map_option canon (key_of (as_prefix L) (tab_key_column t) r) = Some (canon q)) (par_rows p)
         \<and> (\<forall>r \<in> set (par_rows p). \<forall>q'. key_of (as_prefix L) (tab_key_column t) r = Some q' \<longrightarrow>
              covers q' a \<longrightarrow> plen q' \<le> plen q))"
proof -
  from build_table_parts [OF assms(2)] obtain b ks b' where
    ks: "build_keys L A Prefix (tab_key_column t) (par_rows p) b = Inr (ks, b')"
    and parts: "tab_rows t = par_rows p" "tab_keys t = ks" by metis
  let ?key = "key_of (as_prefix L) (tab_key_column t)"
  let ?same = "\<lambda>q r. map_option canon (?key r) = Some (canon q)"
  from prefix_library.prefix_keys_complete [OF assms(1) ks] obtain m u where
    m: "ks = PrefixKeys m u"
    and listed: "\<And>q. prefix_library.listed L m q = rows_where (?same q) (par_rows p)"
    and nonempty: "\<And>q l. pm_get L m q = Some l \<Longrightarrow> l \<noteq> []" by blast
  have filed: "pm_get L m q \<noteq> None" if "r \<in> set (par_rows p)" "?key r = Some q" for r q
  proof -
    from that have "filter (?same q) (par_rows p) \<noteq> []" by (auto simp: filter_empty_conv)
    then have "rows_where (?same q) (par_rows p) \<noteq> []"
      using rows_where_rows [of "par_rows p" "?same q"] by auto
    then show ?thesis
      using listed [of q] by (auto simp: prefix_library.listed_def [OF assms(1)] split: option.splits)
  qed
  show ?thesis
  proof (cases "pm_lpm L m (host_net L a)")
    case None
    with prefix_library.lpm_None [OF assms(1) None] filed show ?thesis
      by (auto simp: all_by_address_def positions_at_def parts m)
  next
    case (Some l)
    with prefix_library.lpm_Some [OF assms(1) Some] obtain q where q: "pm_get L m q = Some l" "covers q a"
      "\<And>q'. pm_get L m q' \<noteq> None \<Longrightarrow> covers q' a \<Longrightarrow> plen q' \<le> plen q" by blast
    have "all_by_address L t a = map (\<lambda>i. par_rows p ! i) l"
      by (simp add: all_by_address_def positions_at_def parts m Some row_at_def [abs_def])
    moreover have "l = rows_where (?same q) (par_rows p)"
      using listed [of q] q(1) by (simp add: prefix_library.listed_def [OF assms(1)])
    ultimately have "all_by_address L t a = filter (?same q) (par_rows p)"
      using rows_where_rows [of "par_rows p" "?same q"] by simp
    moreover have "all_by_address L t a \<noteq> []"
      using nonempty [OF q(1)] by (simp add: all_by_address_def positions_at_def parts m Some)
    ultimately show ?thesis using q filed by blast
  qed
qed

section \<open>The key column\<close>

definition column_parses :: "(str \<Rightarrow> bool) \<Rightarrow> row list \<Rightarrow> nat \<Rightarrow> bool" where
  "column_parses parses rs at \<longleftrightarrow>
     (\<exists>r \<in> set rs. cell r at \<noteq> None) \<and> (\<forall>r \<in> set rs. \<forall>t. cell r at = Some t \<longrightarrow> parses t)"

lemma holds_loop_iff:
  "holds_loop parses at seen rs \<longleftrightarrow>
   (0 < seen \<or> (\<exists>r \<in> set rs. cell r at \<noteq> None)) \<and> (\<forall>r \<in> set rs. \<forall>t. cell r at = Some t \<longrightarrow> parses t)"
  by (induction rs arbitrary: seen) (auto split: option.splits)

text \<open>The key column is the first conventionally named one when every sampled value in it parses
  and there is one, otherwise the leftmost column of which that holds; with none, no table.\<close>

theorem key_column_is_the_first_that_parses:
  "keyed_column cols rs names parses =
     (let fits = column_parses parses (take ADDRESS_SAMPLE rs);
          named = position (\<lambda>c. to_ascii_lowercase c \<in> set names) cols
      in if \<exists>at. named = Some at \<and> fits at then named
         else if \<exists>at < length cols. fits at then Some (LEAST at. fits at) else None)"
proof -
  let ?fits = "column_parses parses (take ADDRESS_SAMPLE rs)"
  have holds: "(\<lambda>at. holds_loop parses at 0 (take ADDRESS_SAMPLE rs)) = ?fits"
    by (simp add: fun_eq_iff holds_loop_iff column_parses_def)
  have least: "List.find ?fits [0..<n] = (if \<exists>at < n. ?fits at then Some (LEAST at. ?fits at) else None)" for n
  proof (cases "List.find ?fits [0..<n]")
    case None
    then show ?thesis by (auto simp: find_None_iff)
  next
    case (Some i)
    then have "i < n" "?fits i" "\<forall>j < i. \<not> ?fits j"
      by (auto simp: find_Some_iff)
    moreover from this have "(LEAST at. ?fits at) = i"
      by (intro Least_equality) (auto simp: not_less [symmetric])
    ultimately show ?thesis using Some by auto
  qed
  show ?thesis
    by (auto simp: keyed_column_def holds least Let_def split: option.splits)
qed

section \<open>The index stays within the ceiling\<close>

text \<open>What the keys and lists of an index cost, the maps' own buckets apart.\<close>

definition filing_cost :: "allocator \<Rightarrow> ('k \<Rightarrow> nat) \<Rightarrow> 'k filing \<Rightarrow> nat" where
  "filing_cost A w m = sum_list (map (\<lambda>(k, l). w k + list_capacity A (length l) * USIZE_BYTES) m)"

lemma filing_cost_update:
  "filing_cost A w (AList.update k l m) + list_capacity A (length (filed_under m k)) * USIZE_BYTES =
   filing_cost A w m + (if map_of m k = None then w k + list_capacity A 0 * USIZE_BYTES else 0)
     + list_capacity A (length l) * USIZE_BYTES"
  by (induction m) (auto simp: filing_cost_def filed_under_def)

lemma filing_cost_filed: "map_of m k = Some l \<Longrightarrow> list_capacity A (length l) * USIZE_BYTES \<le> filing_cost A w m"
  by (induction m) (auto simp: filing_cost_def split: if_splits)

lemma budget_charge_held:
  "budget_charge b n = Inr b' \<Longrightarrow>
   bud_ceiling b' = bud_ceiling b \<and> bud_held b' = sat_add (bud_held b) n \<and> bud_held b' \<le> bud_ceiling b"
  by (auto simp: budget_charge_def Let_def split: if_splits)

text \<open>The budget holds at least a cost (or saturated), and no more than its ceiling.\<close>

definition holds_cost :: "nat \<Rightarrow> budget \<Rightarrow> nat \<Rightarrow> bool" where
  "holds_cost c b cost \<longleftrightarrow> bud_ceiling b = c \<and> bud_held b \<le> c \<and> min cost u64_max \<le> bud_held b"

lemma holds_cost_charge:
  "holds_cost c b cost \<Longrightarrow> budget_charge b n = Inr b' \<Longrightarrow> holds_cost c b' (cost + n)"
  by (auto simp: holds_cost_def sat_add_def dest: budget_charge_held)

lemma holds_cost_less: "holds_cost c b cost \<Longrightarrow> cost' \<le> cost \<Longrightarrow> holds_cost c b cost'"
  by (auto simp: holds_cost_def)

lemma holds_cost_push:
  assumes "holds_cost c b (base + list_capacity A (length l) * USIZE_BYTES)" and "budget_push A b l at = Inr (l', b')"
  shows "holds_cost c b' (base + list_capacity A (length l') * USIZE_BYTES)"
proof -
  from assms(2) have l': "l' = l @ [at]"
    and ch: "budget_charge b ((list_capacity A (length l') - list_capacity A (length l)) * USIZE_BYTES) = Inr b'"
    by (auto simp: budget_push_def Let_def and_then_Inr_iff)
  show ?thesis
    by (rule holds_cost_less [OF holds_cost_charge [OF assms(1) ch]])
      (simp add: add.assoc add_mult_distrib [symmetric] mult_le_mono1, arith)
qed

text \<open>What is charged for the buckets of a map as it grows to a number of entries.\<close>

fun buckets_cost :: "allocator \<Rightarrow> nat \<Rightarrow> nat \<Rightarrow> nat" where
  "buckets_cost A bucket 0 = 0"
| "buckets_cost A bucket (Suc n) =
     buckets_cost A bucket n + (map_capacity A (Suc n) - map_capacity A n) * bucket * 8 div 7"

lemma length_update: "length (AList.update k l m) = (if map_of m k = None then Suc (length m) else length m)"
  by (induction m) auto

lemma holds_cost_file:
  assumes "list_capacity A 0 = 0"
    and "holds_cost c b (base + (filing_cost A w m + buckets_cost A bucket (length m)))"
    and "budget_file A bucket b m k (w k) at = Inr (m', b')"
  shows "holds_cost c b' (base + (filing_cost A w m' + buckets_cost A bucket (length m')))"
proof -
  let ?base = "base + buckets_cost A bucket (length m)"
  from assms(3) obtain l b1 l' b2 n where
    start: "(case map_of m k of Some l \<Rightarrow> Inr (l, b)
      | None \<Rightarrow> and_then (budget_charge b (w k)) (\<lambda>b'. Inr ([], b'))) = Inr (l, b1)"
    and push: "budget_push A b1 l at = Inr (l', b2)" and m': "m' = AList.update k l' m"
    and n: "n = (map_capacity A (length m') - map_capacity A (length m)) * bucket * 8 div 7"
    and last: "budget_charge b2 n = Inr b'"
    unfolding budget_file_def Let_def by (auto simp: and_then_Inr_iff)
  have l: "l = filed_under m k"
    using start by (auto simp: filed_under_def and_then_Inr_iff split: option.splits)
  let ?key = "if map_of m k = None then w k else 0"
  let ?rest = "?base + filing_cost A w m + ?key - list_capacity A (length l) * USIZE_BYTES"
  have le: "list_capacity A (length l) * USIZE_BYTES \<le> filing_cost A w m + ?key"
    using filing_cost_filed [of m k _ A w] assms(1) by (auto simp: l filed_under_def split: option.splits)
  have upd: "filing_cost A w m' + list_capacity A (length l) * USIZE_BYTES =
      filing_cost A w m + ?key + list_capacity A (length l') * USIZE_BYTES"
    using filing_cost_update [of A w k l' m] assms(1) by (simp add: m' l)
  have "holds_cost c b (?base + filing_cost A w m)" using assms(2) by (simp add: add_ac)
  then have "holds_cost c b1 (?base + filing_cost A w m + ?key)"
    using start holds_cost_charge by (fastforce simp: and_then_Inr_iff split: option.splits)
  then have "holds_cost c b1 (?rest + list_capacity A (length l) * USIZE_BYTES)"
    using le by (simp add: add.assoc)
  from holds_cost_push [OF this push]
  have "holds_cost c b2 (?rest + list_capacity A (length l') * USIZE_BYTES)" .
  moreover have "?base + filing_cost A w m' \<le> ?rest + list_capacity A (length l') * USIZE_BYTES"
    using upd le by linarith
  ultimately have "holds_cost c b2 (?base + filing_cost A w m')" by (rule holds_cost_less)
  from holds_cost_charge [OF this last]
  have "holds_cost c b' (base + buckets_cost A bucket (length m) + filing_cost A w m' + n)" .
  moreover have "buckets_cost A bucket (length m') = buckets_cost A bucket (length m) + n"
    by (simp add: n m' length_update)
  ultimately show ?thesis by (simp add: add_ac)
qed

definition text_keys_cost :: "allocator \<Rightarrow> str filing \<Rightarrow> nat" where
  "text_keys_cost A filed = filing_cost A length filed + buckets_cost A TEXT_BUCKET (length filed)"

definition address_keys_cost :: "allocator \<Rightarrow> ip_addr filing \<Rightarrow> nat" where
  "address_keys_cost A filed = filing_cost A (\<lambda>_. 0) filed + buckets_cost A ADDRESS_BUCKET (length filed)"

definition text_budget_inv :: "allocator \<Rightarrow> nat \<Rightarrow> nat \<Rightarrow> str filing indexing \<Rightarrow> bool" where
  "text_budget_inv A base c s \<longleftrightarrow>
     list_capacity A 0 = 0 \<and> holds_cost c (snd s) (base + text_keys_cost A (fst (fst s)))"

definition address_budget_inv :: "allocator \<Rightarrow> nat \<Rightarrow> nat \<Rightarrow> ip_addr filing indexing \<Rightarrow> bool" where
  "address_budget_inv A base c s \<longleftrightarrow>
     list_capacity A 0 = 0 \<and>
     holds_cost c (snd s) (base + address_keys_cost A (fst (fst s))
       + list_capacity A (length (snd (fst s))) * USIZE_BYTES)"

interpretation text_budget: checked_step "text_step A kc" "text_budget_inv A base c" for A kc base c
proof
  fix s :: "str filing indexing" and ar
  assume inv: "text_budget_inv A base c s"
  show "returns (text_budget_inv A base c) (text_step A kc s ar)"
  proof (rule returnsI)
    fix s' assume "text_step A kc s ar = Inr s'"
    with inv show "text_budget_inv A base c s'"
      by (auto simp: text_step_def Let_def split_beta text_budget_inv_def text_keys_cost_def and_then_Inr_iff
          split: option.splits dest!: holds_cost_file [where w = length, rotated 2])
  qed
qed

interpretation address_budget: checked_step "address_step A kc" "address_budget_inv A base c" for A kc base c
proof
  fix s :: "ip_addr filing indexing" and ar
  assume inv: "address_budget_inv A base c s"
  let ?u = "list_capacity A (length (snd (fst s))) * USIZE_BYTES"
  show "returns (address_budget_inv A base c) (address_step A kc s ar)"
  proof (rule returnsI)
    fix s' assume step: "address_step A kc s ar = Inr s'"
    from inv have cap: "list_capacity A 0 = 0"
      and h: "holds_cost c (snd s) ((base + ?u) + address_keys_cost A (fst (fst s)))"
      and h': "holds_cost c (snd s) ((base + address_keys_cost A (fst (fst s))) + ?u)"
      by (simp_all add: address_budget_inv_def add_ac)
    show "address_budget_inv A base c s'"
      using step inv cap holds_cost_file [where w = "\<lambda>_. 0", OF cap h [unfolded address_keys_cost_def]] holds_cost_push [OF h']
      by (auto simp: address_step_def Let_def split_beta address_budget_inv_def address_keys_cost_def and_then_Inr_iff add_ac
          split: option.splits)
  qed
qed

text \<open>
  What a trie holds, as a list of its ranges and their rows. The trie itself is opaque, so the list is
  carried beside it.
\<close>

definition trie_lists :: "('p, 'm) prefix_lib \<Rightarrow> ('p \<Rightarrow> 'c) \<Rightarrow> 'm \<Rightarrow> 'c filing \<Rightarrow> bool" where
  "trie_lists L canon m g \<longleftrightarrow> distinct (map fst g) \<and> (\<forall>p. pm_get L m p = map_of g (canon p))"

definition range_keys_cost :: "allocator \<Rightarrow> 'c filing \<Rightarrow> nat" where
  "range_keys_cost A g = filing_cost A (\<lambda>_. prefix_entry_bytes A) g"

definition prefix_budget_inv ::
    "('p, 'm) prefix_lib \<Rightarrow> ('p \<Rightarrow> 'c) \<Rightarrow> allocator \<Rightarrow> nat \<Rightarrow> nat \<Rightarrow> 'm indexing \<Rightarrow> bool" where
  "prefix_budget_inv L canon A base c s \<longleftrightarrow>
     list_capacity A 0 = 0 \<and>
     (\<exists>g. trie_lists L canon (fst (fst s)) g \<and>
        holds_cost c (snd s) (base + range_keys_cost A g + list_capacity A (length (snd (fst s))) * USIZE_BYTES))"

context prefix_library
begin

lemma trie_lists_insert:
  "trie_lists L canon m g \<Longrightarrow> trie_lists L canon (pm_insert L m p l) (AList.update (canon p) l g)"
  by (auto simp: trie_lists_def get_insert distinct_update update_conv')

lemma prefix_filed_cost:
  assumes "list_capacity A 0 = 0" and g: "trie_lists L canon m g" and held: "holds_cost c b (base + range_keys_cost A g)"
    and filed: "(case pm_get L m p of Some list \<Rightarrow> budget_push A b list at
      | None \<Rightarrow> and_then (budget_charge b (prefix_entry_bytes A)) (\<lambda>b'. budget_push A b' [] at)) = Inr (l', b')"
  shows "\<exists>g'. trie_lists L canon (pm_insert L m p l') g' \<and> holds_cost c b' (base + range_keys_cost A g')"
proof -
  let ?l = "filed_under g (canon p)" and ?key = "if map_of g (canon p) = None then prefix_entry_bytes A else 0"
  have get: "pm_get L m p = map_of g (canon p)" using g by (simp add: trie_lists_def)
  obtain b1 where push: "budget_push A b1 ?l at = Inr (l', b')" and b1: "holds_cost c b1 (base + range_keys_cost A g + ?key)"
    using filed held holds_cost_charge [of c b "base + range_keys_cost A g" "prefix_entry_bytes A"]
    by (fastforce simp: get filed_under_def and_then_Inr_iff split: option.splits)
  let ?rest = "base + range_keys_cost A g + ?key - list_capacity A (length ?l) * USIZE_BYTES"
  have le: "list_capacity A (length ?l) * USIZE_BYTES \<le> range_keys_cost A g + ?key"
    using filing_cost_filed [of g "canon p" _ A "\<lambda>_. prefix_entry_bytes A"] assms(1)
    by (auto simp: filed_under_def range_keys_cost_def split: option.splits)
  from b1 have "holds_cost c b1 (?rest + list_capacity A (length ?l) * USIZE_BYTES)" using le by (simp add: add.assoc)
  from holds_cost_push [OF this push] have "holds_cost c b' (?rest + list_capacity A (length l') * USIZE_BYTES)" .
  moreover have "range_keys_cost A (AList.update (canon p) l' g) + list_capacity A (length ?l) * USIZE_BYTES =
      range_keys_cost A g + ?key + list_capacity A (length l') * USIZE_BYTES"
    using filing_cost_update [of A "\<lambda>_. prefix_entry_bytes A" "canon p" l' g] assms(1)
    by (simp add: range_keys_cost_def)
  then have "base + range_keys_cost A (AList.update (canon p) l' g) \<le> ?rest + list_capacity A (length l') * USIZE_BYTES"
    using le by linarith
  ultimately show ?thesis using trie_lists_insert [OF g] holds_cost_less by blast
qed

lemma prefix_step_budget:
  assumes inv: "prefix_budget_inv L canon A base c s" and step: "prefix_step L A kc s ar = Inr s'"
  shows "prefix_budget_inv L canon A base c s'"
proof -
  let ?u = "list_capacity A (length (snd (fst s))) * USIZE_BYTES"
  from inv obtain g where cap: "list_capacity A 0 = 0" and g: "trie_lists L canon (fst (fst s)) g"
    and h: "holds_cost c (snd s) ((base + ?u) + range_keys_cost A g)"
    and h': "holds_cost c (snd s) ((base + range_keys_cost A g) + ?u)"
    by (auto simp: prefix_budget_inv_def add_ac)
  show ?thesis
  proof (cases "cell (snd ar) kc")
    case None
    with step inv show ?thesis by (simp add: prefix_step_def Let_def split_beta)
  next
    case (Some written)
    show ?thesis
    proof (cases "as_prefix L written")
      case None
      with step Some cap g holds_cost_push [OF h'] show ?thesis
        by (auto simp: prefix_step_def Let_def split_beta prefix_budget_inv_def and_then_Inr_iff add_ac)
    next
      case key: (Some p)
      from step Some key obtain l' b' where
        filed: "(case pm_get L (fst (fst s)) p of Some list \<Rightarrow> budget_push A (snd s) list (fst ar)
          | None \<Rightarrow> and_then (budget_charge (snd s) (prefix_entry_bytes A)) (\<lambda>b'. budget_push A b' [] (fst ar))) = Inr (l', b')"
        and s': "s' = ((pm_insert L (fst (fst s)) p l', snd (fst s)), b')"
        by (auto simp: prefix_step_def Let_def split_beta and_then_Inr_iff)
      from prefix_filed_cost [OF cap g h filed] cap show ?thesis
        by (auto simp: prefix_budget_inv_def s' add_ac)
    qed
  qed
qed

lemma prefix_budget_run:
  assumes "prefix_budget_inv L canon A base c s" and "try_fold (prefix_step L A kc) s ars = Inr s'"
  shows "prefix_budget_inv L canon A base c s'"
  using assms by (induction ars arbitrary: s) (auto simp: and_then_Inr_iff dest: prefix_step_budget)

end

definition names_cost :: "str list \<Rightarrow> nat" where
  "names_cost cols = sum_list (map (\<lambda>col. length col + STRING_BYTES) cols)"

lemma names_charged:
  "try_fold (\<lambda>b col. budget_charge b (length col + STRING_BYTES)) b cols = Inr b' \<Longrightarrow>
   holds_cost c b cost \<Longrightarrow> holds_cost c b' (cost + names_cost cols)"
proof (induction cols arbitrary: b cost)
  case (Cons col cols)
  then obtain b1 where "budget_charge b (length col + STRING_BYTES) = Inr b1"
    and "try_fold (\<lambda>b col. budget_charge b (length col + STRING_BYTES)) b1 cols = Inr b'"
    by (auto simp: and_then_Inr_iff)
  with Cons.IH [OF this(2) holds_cost_charge [OF Cons.prems(2) this(1)]] show ?case
    by (simp add: names_cost_def add.assoc)
qed (simp add: names_cost_def)

text \<open>
  What the index of a table costs: the keys, the lists of rows and the buckets of its map, or the
  ranges of its trie, and the list of rows it could not key.
\<close>

fun keys_cost :: "('p, 'm) prefix_lib \<Rightarrow> ('p \<Rightarrow> 'c) \<Rightarrow> allocator \<Rightarrow> 'm keys \<Rightarrow> nat \<Rightarrow> bool" where
  "keys_cost L canon A (TextKeys filed) cost \<longleftrightarrow> cost = text_keys_cost A filed"
| "keys_cost L canon A (AddressKeys filed u) cost \<longleftrightarrow>
     cost = address_keys_cost A filed + list_capacity A (length u) * USIZE_BYTES"
| "keys_cost L canon A (PrefixKeys m u) cost \<longleftrightarrow>
     (\<exists>g. trie_lists L canon m g \<and> cost = range_keys_cost A g + list_capacity A (length u) * USIZE_BYTES)"

lemma built_within_ceiling:
  assumes "prefix_library L canon covers plen" and "build_table L A p ix c = Inr t" and "par_held p \<le> c" and "c < u64_max"
    and "list_capacity A 0 = 0"
  shows "\<exists>cost. keys_cost L canon A (tab_keys t) cost \<and> par_held p + names_cost (tab_columns t) + cost \<le> c"
proof -
  from build_table_parts [OF assms(2)] obtain b ks b' where
    names: "try_fold (\<lambda>b col. budget_charge b (length col + STRING_BYTES))
           \<lparr> bud_held = par_held p, bud_ceiling = c \<rparr> (par_columns p) = Inr b"
    and ks: "build_keys L A ix (tab_key_column t) (par_rows p) b = Inr (ks, b')"
    and parts: "tab_columns t = par_columns p" "tab_keys t = ks" by metis
  let ?base = "par_held p + names_cost (par_columns p)"
  have base: "holds_cost c b ?base"
    by (rule names_charged [OF names]) (simp add: holds_cost_def assms(3))
  have bound: "cost \<le> c" if "holds_cost c b2 cost" for b2 cost
    using that assms(4) by (auto simp: holds_cost_def min_def split: if_splits)
  show ?thesis
  proof (cases ix)
    case (Column name)
    with ks obtain filed u where ks': "ks = TextKeys filed"
      and run: "try_fold (text_step A (tab_key_column t)) (([], []), b) (enumerate 0 (par_rows p)) = Inr ((filed, u), b')"
      by (auto simp: build_keys_def and_then_Inr_iff)
    have "text_budget_inv A ?base c (([], []), b)"
      using base assms(5) by (simp add: text_budget_inv_def text_keys_cost_def filing_cost_def)
    from returnsD [OF text_budget.run_inv [OF this] run] show ?thesis
      using bound by (auto simp: text_budget_inv_def parts ks')
  next
    case Ip
    with ks obtain filed u where ks': "ks = AddressKeys filed u"
      and run: "try_fold (address_step A (tab_key_column t)) (([], []), b) (enumerate 0 (par_rows p)) = Inr ((filed, u), b')"
      by (auto simp: build_keys_def and_then_Inr_iff)
    have "address_budget_inv A ?base c (([], []), b)"
      using base assms(5) by (simp add: address_budget_inv_def address_keys_cost_def filing_cost_def)
    from returnsD [OF address_budget.run_inv [OF this] run] show ?thesis
      using bound by (auto simp: address_budget_inv_def parts ks' add.assoc)
  next
    case Prefix
    with ks obtain m u where ks': "ks = PrefixKeys m u"
      and run: "try_fold (prefix_step L A (tab_key_column t)) ((pm_empty L, []), b) (enumerate 0 (par_rows p)) = Inr ((m, u), b')"
      by (auto simp: build_keys_def and_then_Inr_iff)
    have "prefix_budget_inv L canon A ?base c ((pm_empty L, []), b)"
      using base assms(5)
      by (auto simp: prefix_budget_inv_def trie_lists_def range_keys_cost_def filing_cost_def
          prefix_library.get_empty [OF assms(1)] intro!: exI [of _ "[]"])
    from prefix_library.prefix_budget_run [OF assms(1) this run] show ?thesis
      using bound by (fastforce simp: prefix_budget_inv_def parts ks' add.assoc)
  qed
qed

lemma read_table_charged:
  assumes "read_table document_of to_text r fmt sch c = Inr p" and "c < u64_max"
  shows "rows_cost (par_rows p) \<le> par_held p \<and> par_held p \<le> c"
proof (cases fmt)
  case (Csv header)
  with assms returnsD [OF read_csv_bounds [of c r header sch]] show ?thesis
    by (auto simp: read_table_def rows_cost_def min_def split: if_splits)
next
  case Json
  with assms read_json_charged show ?thesis by (fastforce simp: read_table_def min_def split: if_splits)
qed

text \<open>C38: a table that was loaded fits its ceiling, whatever its format and index: its rows, its column
  names and its index, keys, ranges, lists of rows and buckets alike, cost no more together.\<close>

theorem loaded_table_within_ceiling:
  assumes "prefix_library L canon covers plen"
    and "read_file L A document_of to_text opened fmt sch ix c = Inr t" and "c < u64_max" and "list_capacity A 0 = 0"
  shows "\<exists>cost. keys_cost L canon A (tab_keys t) cost \<and> rows_cost (tab_rows t) + names_cost (tab_columns t) + cost \<le> c"
proof -
  from assms(2) obtain r p where p: "read_table document_of to_text r fmt sch c = Inr p" and t: "build_table L A p ix c = Inr t"
    by (auto simp: read_file_def and_then_Inr_iff)
  have "tab_rows t = par_rows p" using build_table_parts [OF t] by metis
  with read_table_charged [OF p assms(3)] built_within_ceiling [OF assms(1) t _ assms(3,4)] show ?thesis
    by fastforce
qed

section \<open>A prefix library\<close>

text \<open>
  An instance of the laws: a range is an address and a length, keyed by its family, length and
  leading bits, and filed in a list; the longest-prefix match scans it.
\<close>

type_synonym net = "ip_addr \<times> nat"

fun net_key :: "net \<Rightarrow> bool \<times> nat \<times> nat" where
  "net_key (V4 a, n) = (False, n, unat a div 2 ^ (32 - n))"
| "net_key (V6 a, n) = (True, n, unat a div 2 ^ (128 - n))"

definition net_len :: "net \<Rightarrow> nat" where
  "net_len p = fst (snd (net_key p))"

definition net_covers :: "net \<Rightarrow> ip_addr \<Rightarrow> bool" where
  "net_covers p a \<longleftrightarrow> net_key (a, net_len p) = net_key p"

definition net_host :: "ip_addr \<Rightarrow> net" where
  "net_host a = (a, case a of V4 _ \<Rightarrow> 32 | V6 _ \<Rightarrow> 128)"

definition net_parse :: "str \<Rightarrow> net option" where
  "net_parse s =
     (case position (\<lambda>c. c = CHR ''/'') s of
        None \<Rightarrow> None
      | Some i \<Rightarrow>
          (case (parse_ip_addr (take i s), parse_uint 128 (drop (i + 1) s)) of
             (Some (V4 a), Some n) \<Rightarrow> if n \<le> 32 then Some (V4 a, n) else None
           | (Some (V6 a), Some n) \<Rightarrow> Some (V6 a, n)
           | _ \<Rightarrow> None))"

type_synonym net_map = "(net \<times> nat list) list"

definition net_get :: "net_map \<Rightarrow> net \<Rightarrow> nat list option" where
  "net_get m p = map_option snd (List.find (\<lambda>e. net_key (fst e) = net_key p) m)"

definition net_insert :: "net_map \<Rightarrow> net \<Rightarrow> nat list \<Rightarrow> net_map" where
  "net_insert m p l = (p, l) # filter (\<lambda>e. net_key (fst e) \<noteq> net_key p) m"

fun longest :: "net \<Rightarrow> net list \<Rightarrow> net" where
  "longest p [] = p"
| "longest p (q # qs) = longest (if net_len p < net_len q then q else p) qs"

definition net_lpm :: "net_map \<Rightarrow> net \<Rightarrow> nat list option" where
  "net_lpm m h =
     (case filter (\<lambda>p. net_covers p (fst h)) (map fst m) of
        [] \<Rightarrow> None
      | p # ps \<Rightarrow> net_get m (longest p ps))"

definition net_library :: "(str \<Rightarrow> net option) \<Rightarrow> (net, net_map) prefix_lib" where
  "net_library parse =
     \<lparr> parse_net = parse, host_net = net_host, pm_empty = [], pm_get = net_get,
       pm_insert = net_insert, pm_lpm = net_lpm \<rparr>"

lemma net_get_filed: "net_get m q \<noteq> None \<longleftrightarrow> (\<exists>p \<in> set (map fst m). net_key p = net_key q)"
  by (induction m) (auto simp: net_get_def)

lemma longest_props:
  "longest p ps \<in> set (p # ps) \<and> (\<forall>q \<in> set (p # ps). net_len q \<le> net_len (longest p ps))"
  by (induction ps arbitrary: p) (auto intro: order_trans less_imp_le, fastforce+)

lemma net_get_insert:
  "net_get (net_insert m p l) q = (if net_key p = net_key q then Some l else net_get m q)"
proof (cases "net_key p = net_key q")
  case False
  then have "List.find (\<lambda>e. net_key (fst e) = net_key q) (filter (\<lambda>e. net_key (fst e) \<noteq> net_key p) m) =
      List.find (\<lambda>e. net_key (fst e) = net_key q) m"
    by (induction m) auto
  with False show ?thesis by (simp add: net_get_def net_insert_def)
qed (simp add: net_get_def net_insert_def)

lemma covers_same_key: "net_key p = net_key q \<Longrightarrow> net_covers p a = net_covers q a"
  by (simp add: net_covers_def net_len_def)

interpretation net_ranges: prefix_library "net_library parse" net_key net_covers net_len for parse
proof
  fix m and p q :: net and l and a
  show "pm_get (net_library parse) (pm_empty (net_library parse)) p = None"
    by (simp add: net_library_def net_get_def)
  show "pm_get (net_library parse) (pm_insert (net_library parse) m p l) q =
      (if net_key p = net_key q then Some l else pm_get (net_library parse) m q)"
    by (simp add: net_library_def net_get_insert)
  show "net_key p = net_key q \<Longrightarrow> pm_get (net_library parse) m p = pm_get (net_library parse) m q"
    by (simp add: net_library_def net_get_def)
  let ?around = "filter (\<lambda>p. net_covers p a) (map fst m)"
  have around: "\<exists>p' \<in> set ?around. net_len p' = net_len q" if "net_get m q \<noteq> None" "net_covers q a" for q
  proof -
    from that(1) obtain p' where "p' \<in> set (map fst m)" "net_key p' = net_key q"
      using net_get_filed by blast
    moreover from this that(2) have "net_covers p' a" by (simp add: covers_same_key [of p' q])
    ultimately show ?thesis by (auto simp: net_len_def)
  qed
  show "\<exists>p. pm_get (net_library parse) m p = Some l \<and> net_covers p a \<and>
      (\<forall>q. pm_get (net_library parse) m q \<noteq> None \<longrightarrow> net_covers q a \<longrightarrow> net_len q \<le> net_len p)"
    if "pm_lpm (net_library parse) m (host_net (net_library parse) a) = Some l"
  proof -
    from that obtain p ps where ps: "?around = p # ps" and l: "net_get m (longest p ps) = Some l"
      by (auto simp: net_library_def net_lpm_def net_host_def split: list.splits)
    have "longest p ps \<in> set ?around" unfolding ps using longest_props by blast
    moreover have "net_len q \<le> net_len (longest p ps)" if "net_get m q \<noteq> None" "net_covers q a" for q
      using around [OF that] longest_props [of p ps] unfolding ps by metis
    ultimately show ?thesis
      using l by (intro exI [of _ "longest p ps"]) (simp add: net_library_def)
  qed
  show "pm_lpm (net_library parse) m (host_net (net_library parse) a) = None \<Longrightarrow> pm_get (net_library parse) m q \<noteq> None \<Longrightarrow>
      \<not> net_covers q a"
  proof
    assume none: "pm_lpm (net_library parse) m (host_net (net_library parse) a) = None"
      and "pm_get (net_library parse) m q \<noteq> None" "net_covers q a"
    then have "net_get m q \<noteq> None" by (simp add: net_library_def)
    from around [OF this \<open>net_covers q a\<close>] have "?around \<noteq> []" by force
    then obtain p ps where ps: "?around = p # ps" by (cases ?around) auto
    have "longest p ps \<in> set ?around" unfolding ps using longest_props by blast
    then have "longest p ps \<in> set (map fst m)" by (simp only: set_filter) blast
    then have "net_get m (longest p ps) \<noteq> None" unfolding net_get_filed by blast
    with none ps show False by (simp add: net_library_def net_lpm_def net_host_def)
  qed
qed

section \<open>Tables the properties apply to\<close>

text \<open>An allocator that doubles its lists, as the standard library's does.\<close>

definition doubling :: allocator where
  "doubling =
     \<lparr> list_capacity = (\<lambda>n. if n = 0 then 0 else if n \<le> 4 then 4 else 2 * n),
       map_capacity = (\<lambda>n. if n = 0 then 0 else if n \<le> 3 then 3 else 2 * n), prefix_entry_bytes = 144 \<rparr>"

definition ranges_parsed :: parsed where
  "ranges_parsed =
     \<lparr> par_columns = [''net'', ''name''],
       par_rows = [[Some ''10/8'', Some ''wide''], [Some ''10.1/16'', Some ''narrow''],
                   [Some ''10.1.2/16'', Some ''again''], [None, None]],
       par_held = 300 \<rparr>"

definition short_nets :: "str \<Rightarrow> net option" where
  "short_nets s = map_of [(''10/8'', (V4 0x0A000000, 8)), (''10.1/16'', (V4 0x0A010000, 16)),
     (''10.1.2/16'', (V4 0x0A010203, 16))] s"

definition names_parsed :: parsed where
  "names_parsed =
     \<lparr> par_columns = [''asn'', ''name''],
       par_rows = [[Some ''7'', Some ''a''], [Some ''9'', Some ''b''], [None, Some ''c''], [Some ''7'', None]],
       par_held = 300 \<rparr>"

definition names_table :: "net_map table" where
  "names_table =
     \<lparr> tab_columns = [''asn'', ''name''], tab_key_column = 0, tab_rows = par_rows names_parsed,
       tab_keys = TextKeys [(''7'', [0, 3]), (''9'', [1])] \<rparr>"

definition ranges_table :: "net_map table" where
  "ranges_table =
     \<lparr> tab_columns = [''net'', ''name''], tab_key_column = 0, tab_rows = par_rows ranges_parsed,
       tab_keys = PrefixKeys [((V4 0x0A010203, 16), [1, 2]), ((V4 0x0A000000, 8), [0])] [] \<rparr>"

lemmas build_eval =
  build_table_def key_column_of_def keyed_column_def ok_or_def build_keys_def budget_charge_def
  budget_push_def budget_file_def text_step_def address_step_def prefix_step_def doubling_def
  STRING_BYTES_def USIZE_BYTES_def TEXT_BUCKET_def ADDRESS_BUCKET_def cell_def Let_def sat_add_def
  u64_max_def ADDRESS_SAMPLE_def

lemma names_built:
  "build_table (net_library parse) doubling names_parsed (Column ''asn'') 2000 = Inr names_table"
  by (simp add: names_parsed_def names_table_def build_eval)

lemma ranges_built:
  "build_table (net_library short_nets) doubling ranges_parsed Prefix 3000 = Inr ranges_table"
  by (simp add: ranges_parsed_def ranges_table_def build_eval as_prefix_def as_address_def
      net_library_def short_nets_def net_get_def net_insert_def PREFIX_COLUMNS_def to_ascii_lowercase_def
      ascii_lower_def between_def)

theorem build_indexes_every_row_witness:
  "table_indexed (net_library short_nets) net_key ranges_table \<and> tab_rows ranges_table = par_rows ranges_parsed"
  using build_indexes_every_row [OF net_ranges.prefix_library_axioms ranges_built] by simp

theorem text_key_reaches_its_rows_witness:
  "table_all names_table ''7'' = [[Some ''7'', Some ''a''], [Some ''7'', None]]
   \<and> table_get names_table ''7'' = Some [Some ''7'', Some ''a'']"
  using text_key_reaches_its_rows [OF names_built [of "\<lambda>_. None"], where key = "''7''"]
  by (simp add: names_table_def names_parsed_def row_key_def cell_def)

theorem most_specific_range_answers_witness:
  "all_by_address (net_library short_nets) ranges_table (V4 0x0A010909) =
     [[Some ''10.1/16'', Some ''narrow''], [Some ''10.1.2/16'', Some ''again'']]
   \<and> ((all_by_address (net_library short_nets) ranges_table (V4 0x0A010909) = [] \<and>
          (\<forall>r \<in> set (par_rows ranges_parsed). \<forall>q. key_of (as_prefix (net_library short_nets))
             (tab_key_column ranges_table) r = Some q \<longrightarrow> \<not> net_covers q (V4 0x0A010909)))
    \<or> (\<exists>q. net_covers q (V4 0x0A010909)
         \<and> all_by_address (net_library short_nets) ranges_table (V4 0x0A010909) \<noteq> []
         \<and> all_by_address (net_library short_nets) ranges_table (V4 0x0A010909) =
             filter (\<lambda>r. map_option net_key (key_of (as_prefix (net_library short_nets))
               (tab_key_column ranges_table) r) = Some (net_key q)) (par_rows ranges_parsed)
         \<and> (\<forall>r \<in> set (par_rows ranges_parsed). \<forall>q'. key_of (as_prefix (net_library short_nets))
              (tab_key_column ranges_table) r = Some q' \<longrightarrow>
              net_covers q' (V4 0x0A010909) \<longrightarrow> net_len q' \<le> net_len q)))"
proof
  show "all_by_address (net_library short_nets) ranges_table (V4 0x0A010909) =
     [[Some ''10.1/16'', Some ''narrow''], [Some ''10.1.2/16'', Some ''again'']]"
    by (simp add: all_by_address_def positions_at_def ranges_table_def net_library_def net_lpm_def
        net_host_def net_covers_def net_len_def net_get_def row_at_def ranges_parsed_def)
qed (rule most_specific_range_answers [OF net_ranges.prefix_library_axioms ranges_built])

definition ranges_document :: document where
  "ranges_document =
     Elements (map (\<lambda>(net, name) room. Element (JObject [(''net'', JString net), (''owner'', JString name)]))
       [(''10/8'', ''wide''), (''10.1/16'', ''narrow''), (''10.1.2/16'', ''again'')]) None"

theorem loaded_table_within_ceiling_witness:
  "\<exists>t cost m u. read_file (net_library short_nets) doubling (\<lambda>_. ranges_document) (\<lambda>_. []) (Inr []) Json Auto Prefix 3000 = Inr t
     \<and> tab_keys t = PrefixKeys m u \<and> keys_cost (net_library short_nets) net_key doubling (tab_keys t) cost
     \<and> rows_cost (tab_rows t) + names_cost (tab_columns t) + cost \<le> 3000"
proof -
  have "\<exists>t m u. read_file (net_library short_nets) doubling (\<lambda>_. ranges_document) (\<lambda>_. []) (Inr []) Json Auto Prefix 3000 = Inr t
      \<and> tab_keys t = PrefixKeys m u"
    by (simp add: read_file_def read_table_def ranges_document_def json_eval cell_of_text_def build_eval as_prefix_def
        as_address_def net_library_def short_nets_def net_get_def net_insert_def PREFIX_COLUMNS_def to_ascii_lowercase_def
        ascii_lower_def between_def)
  then obtain t m u where t: "read_file (net_library short_nets) doubling (\<lambda>_. ranges_document) (\<lambda>_. []) (Inr []) Json Auto Prefix 3000
      = Inr t" "tab_keys t = PrefixKeys m u" by blast
  have "\<exists>cost. keys_cost (net_library short_nets) net_key doubling (tab_keys t) cost
      \<and> rows_cost (tab_rows t) + names_cost (tab_columns t) + cost \<le> 3000"
    by (rule loaded_table_within_ceiling [OF net_ranges.prefix_library_axioms t(1)]) (simp_all add: u64_max_def doubling_def)
  with t show ?thesis by blast
qed

end
