(* ===== verification/Table_Query.thy ===== *)
theory Table_Query
  imports Table_Index
begin

text \<open>
  \<open>src/table/query.rs\<close>: rows reached by several conditions at once. The index narrows the walk to
  lists of positions, the lists are merged back into file order, and every condition is tested on
  every row walked. The central lemma is that narrowing changes nothing: a query answers with the
  rows that satisfy it, all of them, once each and in file order. \<open>chrono\<close>'s two date readers and
  Unicode case folding are parameters; an instant is a count of nanoseconds.
\<close>

section \<open>Queries\<close>

datatype condition =
    Equals (cond_column: str) (cond_value: str)
  | BetweenDates (cond_column: str) (cond_from: int) (cond_to: int)
  | FromDate (cond_column: str) (cond_from: int)
  | ToDate (cond_column: str) (cond_to: int)

record query =
  q_conditions :: "condition list"
  q_case_sensitive :: bool
  q_wildcard :: "str option"
  q_select :: "str list option"

definition query_new :: "condition list \<Rightarrow> query" where
  "query_new cs = \<lparr> q_conditions = cs, q_case_sensitive = True, q_wildcard = None, q_select = None \<rparr>"

definition query_case_sensitive :: "query \<Rightarrow> bool \<Rightarrow> query" where
  "query_case_sensitive q exactly = q\<lparr> q_case_sensitive := exactly \<rparr>"

definition query_wildcard :: "query \<Rightarrow> str \<Rightarrow> query" where
  "query_wildcard q v = q\<lparr> q_wildcard := Some v \<rparr>"

definition query_select :: "query \<Rightarrow> str list \<Rightarrow> query" where
  "query_select q columns = q\<lparr> q_select := Some columns \<rparr>"

text \<open>
  What is read of a text elsewhere: \<open>DateTime::parse_from_rfc3339\<close> as an instant,
  \<open>NaiveDate::parse_from_str\<close> as a day since the epoch, and the text's characters each mapped
  through \<open>char::to_lowercase\<close>.
\<close>

record text_lib =
  rfc3339 :: "str \<Rightarrow> int option"
  naive_date :: "str \<Rightarrow> int option"
  lowercase :: "str \<Rightarrow> str"

definition NANOS_PER_DAY :: int where
  "NANOS_PER_DAY = 86400 * 1000000000"

definition as_date :: "text_lib \<Rightarrow> str \<Rightarrow> int option" where
  "as_date X t =
     (case rfc3339 X t of
        Some at \<Rightarrow> Some at
      | None \<Rightarrow> map_option (\<lambda>day. day * NANOS_PER_DAY) (naive_date X t))"

text \<open>Whether a cell holds the value a condition asked for.\<close>

definition equal_text :: "text_lib \<Rightarrow> str \<Rightarrow> str \<Rightarrow> bool \<Rightarrow> bool" where
  "equal_text X cell_text v case_sensitive =
     (if case_sensitive then cell_text = v
      else if is_ascii cell_text \<and> is_ascii v
      then to_ascii_lowercase cell_text = to_ascii_lowercase v
      else lowercase X cell_text = lowercase X v)"

section \<open>Testing a row\<close>

definition condition_holds :: "text_lib \<Rightarrow> query \<Rightarrow> str \<Rightarrow> condition \<Rightarrow> bool" where
  "condition_holds X q t c =
     (case c of
        Equals _ v \<Rightarrow>
          equal_text X t v (q_case_sensitive q) \<or>
          (case q_wildcard q of None \<Rightarrow> False | Some w \<Rightarrow> equal_text X t w (q_case_sensitive q))
      | BetweenDates _ lo hi \<Rightarrow>
          (case as_date X t of None \<Rightarrow> False | Some when \<Rightarrow> lo \<le> when \<and> when \<le> hi)
      | FromDate _ lo \<Rightarrow> (case as_date X t of None \<Rightarrow> False | Some when \<Rightarrow> lo \<le> when)
      | ToDate _ hi \<Rightarrow> (case as_date X t of None \<Rightarrow> False | Some when \<Rightarrow> when \<le> hi))"

text \<open>A cell the source did not supply satisfies nothing.\<close>

definition satisfies :: "text_lib \<Rightarrow> 'm table \<Rightarrow> nat \<Rightarrow> query \<Rightarrow> nat list \<Rightarrow> bool" where
  "satisfies X t at q plan =
     list_all (\<lambda>(c, column).
       case cell (row_at t at) column of None \<Rightarrow> False | Some txt \<Rightarrow> condition_holds X q txt c)
       (zip (q_conditions q) plan)"

section \<open>Narrowing\<close>

fun key_value :: "nat \<Rightarrow> (condition \<times> nat) list \<Rightarrow> str option" where
  "key_value kc [] = None"
| "key_value kc ((Equals _ v, at) # rest) = (if at = kc then Some v else key_value kc rest)"
| "key_value kc (_ # rest) = key_value kc rest"

definition range_list :: "('p, 'm) prefix_lib \<Rightarrow> 'm \<Rightarrow> 'p option \<Rightarrow> nat list" where
  "range_list L m p =
     (case Option.bind p (pm_get L m) of None \<Rightarrow> [] | Some list \<Rightarrow> list)"

definition option_filter :: "('a \<Rightarrow> bool) \<Rightarrow> 'a option \<Rightarrow> 'a option" where
  "option_filter P x = (case x of None \<Rightarrow> None | Some y \<Rightarrow> if P y then Some y else None)"

definition address_list :: "ip_addr filing \<Rightarrow> ip_addr option \<Rightarrow> nat list" where
  "address_list filed a = (case a of None \<Rightarrow> [] | Some address \<Rightarrow> filed_under filed address)"

definition narrow :: "('p, 'm) prefix_lib \<Rightarrow> 'm table \<Rightarrow> query \<Rightarrow> nat list \<Rightarrow> nat list list option" where
  "narrow L t q plan =
     (if \<not> q_case_sensitive q then None
      else case key_value (tab_key_column t) (zip (q_conditions q) plan) of
        None \<Rightarrow> None
      | Some v \<Rightarrow> Some
          (case tab_keys t of
             TextKeys filed \<Rightarrow>
               [filed_under filed v,
                (case option_filter (\<lambda>w. w \<noteq> v) (q_wildcard q) of
                   None \<Rightarrow> [] | Some w \<Rightarrow> filed_under filed w),
                []]
           | AddressKeys filed unindexed \<Rightarrow>
               (let key = as_address v in
                [address_list filed key,
                 address_list filed
                   (option_filter (\<lambda>a. Some a \<noteq> key) (Option.bind (q_wildcard q) as_address)),
                 unindexed])
           | PrefixKeys filed unindexed \<Rightarrow>
               (let key = as_prefix L v in
                [range_list L filed key,
                 range_list L filed
                   (option_filter (\<lambda>p. Some p \<noteq> key) (Option.bind (q_wildcard q) (as_prefix L))),
                 unindexed])))"

section \<open>Walking\<close>

datatype row_walk = WalkAll nat nat | Listed "nat list list"

definition heads :: "nat list list \<Rightarrow> nat list" where
  "heads ls = concat (map (take 1) ls)"

definition advance :: "nat \<Rightarrow> nat list \<Rightarrow> nat list" where
  "advance lowest l = (case l of [] \<Rightarrow> [] | x # xs \<Rightarrow> if x = lowest then xs else l)"

text \<open>The lowest head among the lists; a position at the head of several is taken from them all.\<close>

fun pop :: "row_walk \<Rightarrow> (nat \<times> row_walk) option" where
  "pop (WalkAll i n) = (if i < n then Some (i, WalkAll (i + 1) n) else None)"
| "pop (Listed ls) =
     (case heads ls of
        [] \<Rightarrow> None
      | h # hs \<Rightarrow> (let lowest = foldl min h hs in Some (lowest, Listed (map (advance lowest) ls))))"

fun remaining :: "row_walk \<Rightarrow> nat" where
  "remaining (WalkAll i n) = n - i"
| "remaining (Listed ls) = sum_list (map length ls)"

text \<open>The lists an index narrows to: the value's, the wildcard's, and the rows it could not file.\<close>

definition LISTS :: nat where [simp]: "LISTS = 3"
definition NOTHING :: "nat list list" where [simp]: "NOTHING = replicate LISTS []"
definition walk_nothing :: row_walk where [simp]: "walk_nothing = Listed NOTHING"

record 'm matches =
  mt_query :: query
  mt_plan :: "nat list"
  mt_walk :: row_walk

record matched =
  matched_row :: row
  matched_select :: "str list option"

text \<open>Each condition's column position, or nothing when one is not the table's.\<close>

fun resolve_plan :: "'m table \<Rightarrow> condition list \<Rightarrow> nat list option" where
  "resolve_plan t [] = Some []"
| "resolve_plan t (c # cs) =
     (case position_of t (cond_column c) of
        None \<Rightarrow> None
      | Some at \<Rightarrow> map_option ((#) at) (resolve_plan t cs))"

definition find_matches :: "('p, 'm) prefix_lib \<Rightarrow> 'm table \<Rightarrow> query \<Rightarrow> 'm matches" where
  "find_matches L t q =
     (case resolve_plan t (q_conditions q) of
        None \<Rightarrow> \<lparr> mt_query = q, mt_plan = [], mt_walk = walk_nothing \<rparr>
      | Some plan \<Rightarrow>
          \<lparr> mt_query = q, mt_plan = plan,
            mt_walk = (case narrow L t q plan of
                         None \<Rightarrow> WalkAll 0 (length (tab_rows t))
                       | Some ls \<Rightarrow> Listed ls) \<rparr>)"

lemma foldl_min: "foldl min (h :: nat) hs \<in> set (h # hs) \<and> (\<forall>x \<in> set (h # hs). foldl min h hs \<le> x)"
proof (induction hs arbitrary: h)
  case (Cons a hs)
  have either: "min h a = h \<or> min h a = a" by (simp add: min_def)
  have f: "foldl min (min h a) hs \<in> set (min h a # hs)"
    "\<forall>x \<in> set (min h a # hs). foldl min (min h a) hs \<le> x"
    using Cons.IH [of "min h a"] by blast+
  then have "foldl min (min h a) hs \<le> min h a" by simp
  then have "foldl min (min h a) hs \<le> h" "foldl min (min h a) hs \<le> a" by simp_all
  with either f show ?case by auto
qed simp

lemma heads_subset: "h \<in> set (heads ls) \<Longrightarrow> \<exists>l \<in> set ls. \<exists>xs. l = h # xs"
proof -
  assume "h \<in> set (heads ls)"
  then obtain l where l: "l \<in> set ls" "h \<in> set (take 1 l)" by (auto simp: heads_def)
  from l(2) have "\<exists>xs. l = h # xs" by (cases l) simp_all
  with l(1) show ?thesis by blast
qed

lemma advance_shorter: "length (advance lowest l) \<le> length l"
  by (simp add: advance_def split: list.splits)

lemma pop_remaining: "pop w = Some (at, w') \<Longrightarrow> remaining w' < remaining w"
proof (cases w)
  case (Listed ls)
  assume "pop w = Some (at, w')"
  then obtain h hs where hs: "heads ls = h # hs" and at: "at = foldl min h hs"
    and w': "w' = Listed (map (advance at) ls)"
    by (auto simp: Listed Let_def split: list.splits)
  have "at \<in> set (heads ls)" using foldl_min [of h hs] by (simp add: hs at)
  from heads_subset [OF this] obtain l xs where l: "l \<in> set ls" and "l = at # xs" by blast
  then have "length (advance at l) < length l" by (simp add: advance_def)
  with l have "sum_list (map (length \<circ> advance at) ls) < sum_list (map length ls)"
    by (induction ls) (auto simp: add_less_le_mono add_le_less_mono advance_shorter sum_list_mono)
  then show ?thesis by (simp add: Listed w')
qed (auto split: if_splits)

text \<open>\<open>next\<close>: the next walked row that satisfies every condition.\<close>

function next_match :: "text_lib \<Rightarrow> 'm table \<Rightarrow> 'm matches \<Rightarrow> (matched \<times> 'm matches) option" where
  "next_match X t m =
     (case pop (mt_walk m) of
        None \<Rightarrow> None
      | Some (at, w) \<Rightarrow>
          let m' = m\<lparr> mt_walk := w \<rparr> in
          if satisfies X t at (mt_query m) (mt_plan m)
          then Some (\<lparr> matched_row = row_at t at, matched_select = q_select (mt_query m) \<rparr>, m')
          else next_match X t m')"
  by pat_completeness auto
termination
  by (relation "measure (\<lambda>(X, t, m). remaining (mt_walk m))") (auto dest: pop_remaining)

declare next_match.simps [simp del]

definition size_hint :: "'m matches \<Rightarrow> nat \<times> nat option" where
  "size_hint m = (0, Some (remaining (mt_walk m)))"

section \<open>The columns of a match\<close>

datatype field_walk = AllFields nat nat | NamedFields "str list"

definition field_at :: "'m table \<Rightarrow> row \<Rightarrow> nat \<Rightarrow> str \<times> str option" where
  "field_at t r at = (tab_columns t ! at, cell r at)"

text \<open>A selected column the table has not got is dropped rather than handed back empty.\<close>

fun next_named :: "'m table \<Rightarrow> str list \<Rightarrow> (nat \<times> str list) option" where
  "next_named t [] = None"
| "next_named t (name # names) =
     (case position_of t name of Some at \<Rightarrow> Some (at, names) | None \<Rightarrow> next_named t names)"

fun next_field :: "'m table \<Rightarrow> row \<Rightarrow> field_walk \<Rightarrow> ((str \<times> str option) \<times> field_walk) option" where
  "next_field t r (AllFields i n) =
     (if i < n then Some (field_at t r i, AllFields (i + 1) n) else None)"
| "next_field t r (NamedFields names) =
     map_option (\<lambda>(at, rest). (field_at t r at, NamedFields rest)) (next_named t names)"

definition fields_of :: "'m table \<Rightarrow> matched \<Rightarrow> field_walk" where
  "fields_of t m =
     (case matched_select m of
        Some named \<Rightarrow> NamedFields named
      | None \<Rightarrow> AllFields 0 (length (tab_columns t)))"

section \<open>Columns a query names that the table has not got\<close>

definition unknown_columns :: "'m table \<Rightarrow> query \<Rightarrow> str list" where
  "unknown_columns t q =
     remdups_adj (sort (filter (\<lambda>c. position_of t c = None) (map cond_column (q_conditions q))))"

section \<open>What a walk visits\<close>

text \<open>Every position a walk hands back, in order.\<close>

function drain :: "row_walk \<Rightarrow> nat list" where
  "drain w = (case pop w of None \<Rightarrow> [] | Some (at, w') \<Rightarrow> at # drain w')"
  by pat_completeness auto
termination
  by (relation "measure remaining") (auto dest: pop_remaining)

declare drain.simps [simp del]

lemma drain_all: "drain (WalkAll i n) = [i..<n]"
proof (induction "n - i" arbitrary: i)
  case 0
  then show ?case by (subst drain.simps) simp
next
  case (Suc k)
  then have "i < n" "drain (WalkAll (Suc i) n) = [Suc i..<n]" by auto
  then show ?case by (subst drain.simps) (simp add: upt_conv_Cons)
qed

lemma heads_empty: "heads ls = [] \<longleftrightarrow> (\<forall>l \<in> set ls. l = [])"
  by (auto simp: heads_def)

lemma head_in_heads: "x # xs \<in> set ls \<Longrightarrow> x \<in> set (heads ls)"
  by (force simp: heads_def)

lemma advance_set:
  assumes "sorted_wrt (<) l" and "\<forall>x \<in> set l. lowest \<le> x"
  shows "set (advance lowest l) = set l - {lowest}" and "sorted_wrt (<) (advance lowest l)"
proof -
  have "set (advance lowest l) = set l - {lowest} \<and> sorted_wrt (<) (advance lowest l)"
  proof (cases l)
    case (Cons x xs)
    with assms have "\<forall>y \<in> set xs. x < y" "lowest \<le> x" "sorted_wrt (<) xs" by simp_all
    moreover from this have "lowest \<notin> set xs" by auto
    ultimately show ?thesis by (auto simp: advance_def Cons)
  qed (simp add: advance_def)
  then show "set (advance lowest l) = set l - {lowest}" and "sorted_wrt (<) (advance lowest l)" by blast+
qed

text \<open>A merge of ascending lists is their union, ascending and without repeats.\<close>

lemma drain_listed:
  "\<forall>l \<in> set ls. sorted_wrt (<) l \<Longrightarrow>
   sorted_wrt (<) (drain (Listed ls)) \<and> set (drain (Listed ls)) = (\<Union>l \<in> set ls. set l)"
proof (induction "remaining (Listed ls)" arbitrary: ls rule: less_induct)
  case less
  show ?case
  proof (cases "heads ls")
    case Nil
    then have "\<forall>l \<in> set ls. l = []" by (simp add: heads_empty)
    with Nil show ?thesis by (subst (1 2) drain.simps) auto
  next
    case (Cons h hs)
    define lo where "lo = foldl min h hs"
    let ?next = "map (advance lo) ls"
    have pop: "pop (Listed ls) = Some (lo, Listed ?next)"
      by (simp add: Cons lo_def Let_def)
    have min: "lo \<in> set (heads ls)" "\<forall>x \<in> set (heads ls). lo \<le> x"
      using foldl_min [of h hs] by (simp_all add: Cons lo_def)
    have below: "\<forall>x \<in> set l. lo \<le> x" if "l \<in> set ls" for l
    proof (cases l)
      case (Cons y ys)
      with that have "lo \<le> y" using head_in_heads min(2) by blast
      moreover have "\<forall>x \<in> set ys. y < x" using less.prems that Cons by auto
      ultimately show ?thesis using Cons by force
    qed simp
    note each = advance_set [OF _ below]
    have sorted: "\<forall>l \<in> set ?next. sorted_wrt (<) l"
      using less.prems each(2) by auto
    have union: "(\<Union>l \<in> set ?next. set l) = (\<Union>l \<in> set ls. set l) - {lo}"
      using less.prems each(1) by auto
    have "lo \<in> (\<Union>l \<in> set ls. set l)"
      using heads_subset [OF min(1)] by force
    moreover have "\<forall>x \<in> (\<Union>l \<in> set ls. set l) - {lo}. lo < x"
      using below by (force simp: order.strict_iff_order)
    moreover note IH = less.hyps [OF pop_remaining [OF pop] sorted, unfolded union]
    moreover have "drain (Listed ls) = lo # drain (Listed ?next)"
      by (subst drain.simps) (simp add: pop del: pop.simps)
    ultimately show ?thesis by (simp only: sorted_wrt.simps list.set) blast
  qed
qed

text \<open>Everything a match iterator hands back.\<close>

function collect_matches :: "text_lib \<Rightarrow> 'm table \<Rightarrow> 'm matches \<Rightarrow> matched list" where
  "collect_matches X t m =
     (case next_match X t m of None \<Rightarrow> [] | Some (r, m') \<Rightarrow> r # collect_matches X t m')"
  by pat_completeness auto

lemma next_match_remaining:
  "next_match X t m = Some (r, m') \<Longrightarrow> remaining (mt_walk m') < remaining (mt_walk m)"
proof (induction X t m rule: next_match.induct)
  case (1 X t m)
  show ?case
  proof (cases "pop (mt_walk m)")
    case None
    with 1(2) show ?thesis by (subst (asm) next_match.simps) simp
  next
    case (Some aw)
    obtain at w where aw: "aw = (at, w)" by (cases aw)
    note less = pop_remaining [OF Some [unfolded aw]]
    show ?thesis
    proof (cases "satisfies X t at (mt_query m) (mt_plan m)")
      case True
      with 1(2) less show ?thesis by (subst (asm) next_match.simps) (auto simp: Some aw)
    next
      case False
      with 1(2) have "next_match X t (m\<lparr> mt_walk := w \<rparr>) = Some (r, m')"
        by (subst (asm) next_match.simps) (simp add: Some aw)
      from 1(1) [OF Some aw [symmetric] refl False this] less show ?thesis by simp
    qed
  qed
qed

termination collect_matches
  by (relation "measure (\<lambda>(X, t, m). remaining (mt_walk m))") (auto dest: next_match_remaining)

declare collect_matches.simps [simp del]

definition answer :: "'m table \<Rightarrow> 'm matches \<Rightarrow> nat \<Rightarrow> matched" where
  "answer t m at = \<lparr> matched_row = row_at t at, matched_select = q_select (mt_query m) \<rparr>"

lemma collect_drain:
  "collect_matches X t m =
   map (answer t m) (filter (\<lambda>at. satisfies X t at (mt_query m) (mt_plan m)) (drain (mt_walk m)))"
proof (induction "remaining (mt_walk m)" arbitrary: m rule: less_induct)
  case less
  show ?case
  proof (cases "pop (mt_walk m)")
    case None
    then show ?thesis
      by (subst collect_matches.simps, subst next_match.simps, subst drain.simps) simp
  next
    case (Some aw)
    obtain at w where aw: "aw = (at, w)" by (cases aw)
    let ?m = "m\<lparr> mt_walk := w \<rparr>"
    have IH: "collect_matches X t ?m =
      map (answer t m) (filter (\<lambda>at. satisfies X t at (mt_query m) (mt_plan m)) (drain w))"
      using less [of ?m] pop_remaining [OF Some [unfolded aw]] by (simp add: answer_def [abs_def])
    show ?thesis
    proof (cases "satisfies X t at (mt_query m) (mt_plan m)")
      case True
      then show ?thesis
        by (subst collect_matches.simps, subst next_match.simps, subst drain.simps)
          (simp add: Some aw IH answer_def)
    next
      case False
      then have "next_match X t m = next_match X t ?m"
        by (subst next_match.simps) (simp add: Some aw)
      then have "collect_matches X t m = collect_matches X t ?m"
        by (subst (1 2) collect_matches.simps) simp
      with False show ?thesis
        by (subst drain.simps) (simp add: Some aw IH)
    qed
  qed
qed

section \<open>The index loses no row\<close>

text \<open>What a query asks of a row, over the columns' names alone.\<close>

definition row_satisfies :: "text_lib \<Rightarrow> 'm table \<Rightarrow> query \<Rightarrow> row \<Rightarrow> bool" where
  "row_satisfies X t q r \<longleftrightarrow>
     (\<forall>c \<in> set (q_conditions q).
        case row_get t r (cond_column c) of None \<Rightarrow> False | Some txt \<Rightarrow> condition_holds X q txt c)"

lemma resolve_plan_None:
  "resolve_plan t cs = None \<longleftrightarrow> (\<exists>c \<in> set cs. position_of t (cond_column c) = None)"
  by (induction cs) (auto split: option.splits)

lemma satisfies_row:
  "resolve_plan t (q_conditions q) = Some plan \<Longrightarrow>
   satisfies X t at q plan = row_satisfies X t q (row_at t at)"
proof -
  have "resolve_plan t cs = Some plan \<Longrightarrow>
     list_all (\<lambda>(c, column).
       case cell (row_at t at) column of None \<Rightarrow> False | Some txt \<Rightarrow> condition_holds X q txt c) (zip cs plan) =
     (\<forall>c \<in> set cs. case row_get t (row_at t at) (cond_column c) of
        None \<Rightarrow> False | Some txt \<Rightarrow> condition_holds X q txt c)" for cs
  proof (induction cs arbitrary: plan)
    case (Cons c cs)
    then show ?case by (auto simp: row_get_def split: option.splits)
  qed simp
  then show "resolve_plan t (q_conditions q) = Some plan \<Longrightarrow>
    satisfies X t at q plan = row_satisfies X t q (row_at t at)"
    by (simp add: satisfies_def row_satisfies_def)
qed

text \<open>The equality narrowing picks is one of the conditions, on the key column.\<close>

lemma key_value_condition:
  "resolve_plan t cs = Some plan \<Longrightarrow> key_value kc (zip cs plan) = Some v \<Longrightarrow>
   \<exists>col. Equals col v \<in> set cs \<and> position_of t col = Some kc"
proof (induction cs arbitrary: plan)
  case (Cons c cs)
  then obtain at rest where at: "position_of t (cond_column c) = Some at" and rest: "resolve_plan t cs = Some rest"
    and plan: "plan = at # rest" by (auto split: option.splits)
  show ?case
  proof (cases "\<exists>col. c = Equals col v \<and> at = kc")
    case True
    with at show ?thesis by auto
  next
    case False
    then have "key_value kc (zip cs rest) = Some v"
      using Cons.prems(2) by (cases c) (auto simp: plan split: if_splits)
    from Cons.IH [OF rest this] show ?thesis by auto
  qed
qed simp

text \<open>So a satisfying row's key cell is the value or the wildcard, to the byte.\<close>

lemma satisfying_key_cell:
  assumes "resolve_plan t (q_conditions q) = Some plan" and "q_case_sensitive q"
    and "key_value (tab_key_column t) (zip (q_conditions q) plan) = Some v"
    and "row_satisfies X t q r"
  shows "cell r (tab_key_column t) = Some v \<or>
    (\<exists>w. q_wildcard q = Some w \<and> cell r (tab_key_column t) = Some w)"
proof -
  from key_value_condition [OF assms(1,3)] obtain col where
    "Equals col v \<in> set (q_conditions q)" "position_of t col = Some (tab_key_column t)" by blast
  with assms(2,4) show ?thesis
    by (fastforce simp: row_satisfies_def row_get_def condition_holds_def equal_text_def split: option.splits)
qed

lemma rows_where_mem: "i \<in> set (rows_where P rs) \<longleftrightarrow> i < length rs \<and> P (rs ! i)"
  by (auto simp: rows_where_def)

lemma rows_where_sorted: "sorted_wrt (<) (rows_where P rs)"
  by (simp add: rows_where_def sorted_wrt_filter)

text \<open>A row whose key cell reads as a key is filed under it; one that does not is in the other list.\<close>

lemma narrow_covers:
  assumes "table_indexed L canon t" and "i < length (tab_rows t)"
    and plan: "resolve_plan t (q_conditions q) = Some plan" and "narrow L t q plan = Some ls"
    and "row_satisfies X t q (tab_rows t ! i)"
  shows "\<exists>l \<in> set ls. i \<in> set l"
proof -
  let ?r = "tab_rows t ! i" and ?kc = "tab_key_column t"
  from assms(4) obtain v where cs: "q_case_sensitive q"
    and v: "key_value ?kc (zip (q_conditions q) plan) = Some v"
    by (auto simp: narrow_def split: if_splits option.splits)
  from satisfying_key_cell [OF plan cs v assms(5)] consider
      "cell ?r ?kc = Some v"
    | w where "q_wildcard q = Some w" "cell ?r ?kc = Some w" "w \<noteq> v" by blast
  note key = this
  show ?thesis
  proof (cases "tab_keys t")
    case (TextKeys filed)
    with assms(1,2) have "filed_under filed k = rows_where (\<lambda>r. cell r ?kc = Some k) (tab_rows t)" for k
      by (simp add: table_indexed_def Let_def)
    with assms(2,4) cs v key show ?thesis
      by (cases rule: key) (auto simp: narrow_def TextKeys rows_where_mem option_filter_def)
  next
    case (AddressKeys filed u)
    with assms(1) have filed: "filed_under filed a = rows_where (\<lambda>r. key_of as_address ?kc r = Some a) (tab_rows t)"
      and u: "u = rows_where (unparsed as_address ?kc) (tab_rows t)" for a
      by (simp_all add: table_indexed_def Let_def)
    have ls: "ls = [address_list filed (as_address v),
        address_list filed (option_filter (\<lambda>a. Some a \<noteq> as_address v) (Option.bind (q_wildcard q) as_address)), u]"
      using assms(4) cs v by (simp add: narrow_def AddressKeys Let_def)
    show ?thesis
      using assms(2) by (cases rule: key; cases "as_address v"; cases "Option.bind (q_wildcard q) as_address")
        (auto simp: ls address_list_def filed u rows_where_mem key_of_def unparsed_def option_filter_def)
  next
    case (PrefixKeys m u)
    with assms(1) have filed: "(case pm_get L m p of None \<Rightarrow> [] | Some l \<Rightarrow> l) =
        rows_where (\<lambda>r. map_option canon (key_of (as_prefix L) ?kc r) = Some (canon p)) (tab_rows t)"
      and u: "u = rows_where (unparsed (as_prefix L) ?kc) (tab_rows t)" for p
      by (simp_all add: table_indexed_def Let_def)
    have range_list: "range_list L m (Some p) =
        rows_where (\<lambda>r. map_option canon (key_of (as_prefix L) ?kc r) = Some (canon p)) (tab_rows t)" for p
      using filed [of p] by (simp add: range_list_def)
    have ls: "ls = [range_list L m (as_prefix L v),
        range_list L m (option_filter (\<lambda>p. Some p \<noteq> as_prefix L v) (Option.bind (q_wildcard q) (as_prefix L))), u]"
      using assms(4) cs v by (simp add: narrow_def PrefixKeys Let_def)
    show ?thesis
      using assms(2) by (cases rule: key; cases "as_prefix L v"; cases "Option.bind (q_wildcard q) (as_prefix L)")
        (auto simp: ls range_list u rows_where_mem key_of_def unparsed_def option_filter_def)
  qed
qed

text \<open>The lists are ascending and hold positions of the table.\<close>

lemma narrow_lists:
  assumes "table_indexed L canon t" and "narrow L t q plan = Some ls"
  shows "\<forall>l \<in> set ls. sorted_wrt (<) l \<and> set l \<subseteq> {..<length (tab_rows t)}"
proof -
  define ok where "ok l \<longleftrightarrow> sorted_wrt (<) l \<and> set l \<subseteq> {..<length (tab_rows t)}" for l :: "nat list"
  have rows: "ok (rows_where P (tab_rows t))" for P
    by (auto simp: ok_def rows_where_sorted rows_where_mem)
  have nil: "ok []" by (simp add: ok_def)
  have "\<forall>l \<in> set ls. ok l"
  proof (cases "tab_keys t")
    case (TextKeys filed)
    with assms(1) have "ok (filed_under filed k)" for k
      by (simp only: table_indexed_def Let_def keys.case rows)
    with assms(2) show ?thesis
      by (auto simp: narrow_def TextKeys option_filter_def nil split: if_splits option.splits)
  next
    case (AddressKeys filed u)
    with assms(1) have "ok (filed_under filed a)" "ok u" for a
      by (simp_all only: table_indexed_def Let_def keys.case rows)
    then have "ok (address_list filed k)" "ok u" for k
      by (auto simp: address_list_def nil split: option.splits)
    with assms(2) show ?thesis
      by (auto simp: narrow_def AddressKeys Let_def split: if_splits option.splits)
  next
    case (PrefixKeys m u)
    with assms(1) have "ok (case pm_get L m p of None \<Rightarrow> [] | Some l \<Rightarrow> l)" "ok u" for p
      by (simp_all only: table_indexed_def Let_def keys.case rows)
    then have "ok (range_list L m k)" "ok u" for k
      by (cases k; simp add: range_list_def nil)+
    with assms(2) show ?thesis
      by (auto simp: narrow_def PrefixKeys Let_def split: if_splits option.splits)
  qed
  then show ?thesis by (simp add: ok_def)
qed

lemma sorted_distinct_set_filter:
  fixes xs :: "nat list"
  assumes "sorted_wrt (<) xs" and "set xs = {i. i < n \<and> P i}"
  shows "xs = filter P [0..<n]"
proof (rule sorted_distinct_set_unique)
  show "sorted xs" "distinct xs" using assms(1) by (simp_all add: strict_sorted_iff)
  show "sorted (filter P [0..<n])" "distinct (filter P [0..<n])" by (simp_all add: sorted_wrt_filter)
  show "set xs = set (filter P [0..<n])" using assms(2) by auto
qed

lemma find_is_filter:
  assumes "table_indexed L canon t"
  shows "collect_matches X t (find_matches L t q) =
    map (\<lambda>r. \<lparr> matched_row = r, matched_select = q_select q \<rparr>) (filter (row_satisfies X t q) (tab_rows t))"
proof (cases "resolve_plan t (q_conditions q)")
  case None
  then obtain c where "c \<in> set (q_conditions q)" "position_of t (cond_column c) = None"
    by (auto simp: resolve_plan_None)
  then have "\<not> row_satisfies X t q r" for r
    by (force simp: row_satisfies_def row_get_def)
  moreover have "drain walk_nothing = []"
    by (subst drain.simps) (simp add: heads_def)
  ultimately show ?thesis
    by (simp add: find_matches_def None collect_drain)
next
  case (Some plan)
  let ?n = "length (tab_rows t)" and ?P = "\<lambda>i. row_satisfies X t q (tab_rows t ! i)"
  let ?walk = "mt_walk (find_matches L t q)"
  have sat: "satisfies X t at q plan = row_satisfies X t q (tab_rows t ! at)" for at
    using satisfies_row [OF Some] by (simp add: row_at_def)
  have walk: "filter ?P (drain ?walk) = filter ?P [0..<?n]"
  proof (cases "narrow L t q plan")
    case None
    then show ?thesis by (simp add: find_matches_def Some drain_all)
  next
    case (Some ls)
    with \<open>resolve_plan _ _ = Some plan\<close> have w: "?walk = Listed ls" by (simp add: find_matches_def)
    note lists = narrow_lists [OF assms Some]
    have "\<forall>l \<in> set ls. sorted_wrt (<) l" using lists by blast
    note drained = drain_listed [OF this]
    show ?thesis
    proof (rule sorted_distinct_set_filter)
      show "sorted_wrt (<) (filter ?P (drain ?walk))"
        using drained by (simp add: w sorted_wrt_filter)
      show "set (filter ?P (drain ?walk)) = {i. i < ?n \<and> ?P i}"
        using drained lists narrow_covers [OF assms _ \<open>resolve_plan _ _ = Some plan\<close> Some]
        by (auto simp: w)
    qed
  qed
  have "filter (row_satisfies X t q) (tab_rows t) = map (\<lambda>i. tab_rows t ! i) (filter ?P [0..<?n])"
    using rows_where_rows [of "tab_rows t" "row_satisfies X t q"] by (simp add: rows_where_def)
  moreover have "mt_query (find_matches L t q) = q" "mt_plan (find_matches L t q) = plan"
    by (simp_all add: find_matches_def Some)
  ultimately show ?thesis
    by (simp add: collect_drain sat walk answer_def [abs_def] row_at_def comp_def)
qed

text \<open>C1: a query answers with exactly the rows that satisfy all of its conditions, each once and in
  file order, whatever the index narrowed the walk to.\<close>

theorem query_answers_with_its_rows:
  assumes "prefix_library L canon covers plen" and "build_table L A p ix c = Inr t"
  shows "map matched_row (collect_matches X t (find_matches L t q)) = filter (row_satisfies X t q) (par_rows p)"
proof -
  from build_table_indexed [OF assms] have "table_indexed L canon t" "tab_rows t = par_rows p" by auto
  with find_is_filter [OF this(1)] show ?thesis by (simp add: comp_def)
qed

definition active_query :: query where
  "active_query = query_wildcard (query_new [Equals ''asn'' ''7'', FromDate ''name'' 5]) ''9''"

definition letters_lib :: text_lib where
  "letters_lib = \<lparr> rfc3339 = (\<lambda>t. if t = ''a'' then Some 5 else if t = ''b'' then Some 6 else None),
     naive_date = (\<lambda>_. None), lowercase = id \<rparr>"

theorem query_answers_with_its_rows_witness:
  "map matched_row (collect_matches letters_lib names_table
     (find_matches (net_library short_nets) names_table active_query)) =
   [[Some ''7'', Some ''a''], [Some ''9'', Some ''b'']]"
  using query_answers_with_its_rows [OF net_ranges.prefix_library_axioms names_built [of short_nets],
      of letters_lib active_query]
  by (simp add: names_parsed_def row_satisfies_def row_get_def position_of_def names_table_def cell_def
      active_query_def query_wildcard_def query_new_def condition_holds_def equal_text_def as_date_def
      letters_lib_def)

section \<open>Bounds, columns and projections\<close>

lemma strict_remdups_adj:
  fixes xs :: "'a :: linorder list"
  shows "sorted xs \<Longrightarrow> sorted_wrt (<) (remdups_adj xs)"
proof (induction xs rule: remdups_adj.induct)
  case (3 x y xs)
  then show ?case by (cases "x = y") auto
qed auto

lemma drain_length: "length (drain w) \<le> remaining w"
proof (induction "remaining w" arbitrary: w rule: less_induct)
  case less
  show ?case
  proof (cases "pop w")
    case None
    then show ?thesis by (subst drain.simps) simp
  next
    case (Some aw)
    then obtain at w' where "pop w = Some (at, w')" by (cases aw) auto
    from this pop_remaining [OF this] less [of w'] show ?thesis
      by (subst drain.simps) (simp del: pop.simps)
  qed
qed

text \<open>The upper bound a match iterator reports is never passed by what it then hands back.\<close>

theorem size_hint_is_an_upper_bound:
  "\<exists>n. size_hint m = (0, Some n) \<and> length (collect_matches X t m) \<le> n"
  unfolding size_hint_def collect_drain length_map
  using le_trans [OF length_filter_le drain_length [of "mt_walk m"]] by blast

text \<open>Everything a field iterator hands back; it takes at most a step per column or name.\<close>

fun field_steps :: "field_walk \<Rightarrow> nat" where
  "field_steps (AllFields i n) = n - i"
| "field_steps (NamedFields names) = length names"

lemma next_named_shorter: "next_named t names = Some (at, rest) \<Longrightarrow> length rest < length names"
  by (induction names) (auto split: option.splits)

lemma next_field_steps: "next_field t r w = Some (f, w') \<Longrightarrow> field_steps w' < field_steps w"
  by (cases w) (auto split: if_splits dest: next_named_shorter)

function collect_fields :: "'m table \<Rightarrow> row \<Rightarrow> field_walk \<Rightarrow> (str \<times> str option) list" where
  "collect_fields t r w =
     (case next_field t r w of None \<Rightarrow> [] | Some (f, w') \<Rightarrow> f # collect_fields t r w')"
  by pat_completeness auto
termination
  by (relation "measure (\<lambda>(t, r, w). field_steps w)") (auto dest: next_field_steps)

declare collect_fields.simps [simp del]

lemma collect_all_fields: "collect_fields t r (AllFields i n) = map (field_at t r) [i..<n]"
proof (induction "n - i" arbitrary: i)
  case 0
  then show ?case by (subst collect_fields.simps) simp
next
  case (Suc k)
  then have "i < n" "collect_fields t r (AllFields (Suc i) n) = map (field_at t r) [Suc i..<n]" by auto
  then show ?case by (subst collect_fields.simps) (simp add: upt_conv_Cons)
qed

lemma position_of_name: "position_of t name = Some at \<Longrightarrow> tab_columns t ! at = name"
  by (auto simp: position_of_def dest: position_Some)

lemma collect_named_fields:
  "collect_fields t r (NamedFields names) =
     map (\<lambda>name. (name, row_get t r name)) (filter (\<lambda>name. position_of t name \<noteq> None) names)"
proof (induction names)
  case Nil
  show ?case by (subst collect_fields.simps) simp
next
  case (Cons name names)
  show ?case
  proof (cases "position_of t name")
    case None
    then have "collect_fields t r (NamedFields (name # names)) = collect_fields t r (NamedFields names)"
      by (subst (1 2) collect_fields.simps) simp
    with None Cons show ?thesis by simp
  next
    case (Some at)
    with Cons position_of_name [OF Some] show ?thesis
      by (subst collect_fields.simps) (simp add: field_at_def row_get_def)
  qed
qed

text \<open>A match hands back the selected columns in the order they were named, those the table has
  not got dropped, or every column in file order when none were selected.\<close>

theorem fields_are_the_selected_columns:
  "collect_fields t (matched_row m) (fields_of t m) =
     (case matched_select m of
        None \<Rightarrow> zip (tab_columns t) (map (cell (matched_row m)) [0..<length (tab_columns t)])
      | Some names \<Rightarrow>
          map (\<lambda>name. (name, row_get t (matched_row m) name))
            (filter (\<lambda>name. position_of t name \<noteq> None) names))"
  by (cases "matched_select m")
    (auto simp: fields_of_def collect_all_fields collect_named_fields field_at_def intro!: nth_equalityI)

text \<open>The unknown columns a host is told of are exactly the condition columns the table has not
  got, sorted and without repeats; while there is one, the query answers nothing.\<close>

theorem unknown_columns_answer_nothing:
  "set (unknown_columns t q) = {c \<in> set (map cond_column (q_conditions q)). c \<notin> set (tab_columns t)}
   \<and> sorted_wrt (<) (unknown_columns t q)
   \<and> (unknown_columns t q \<noteq> [] \<longrightarrow> collect_matches X t (find_matches L t q) = [])"
proof (intro conjI impI)
  have known: "position_of t c = None \<longleftrightarrow> c \<notin> set (tab_columns t)" for c
    by (auto simp: position_of_def position_None)
  show "set (unknown_columns t q) = {c \<in> set (map cond_column (q_conditions q)). c \<notin> set (tab_columns t)}"
    by (auto simp: unknown_columns_def known)
  show "sorted_wrt (<) (unknown_columns t q)"
    by (simp add: unknown_columns_def strict_remdups_adj)
  assume "unknown_columns t q \<noteq> []"
  then have "set (unknown_columns t q) \<noteq> {}" by simp
  then obtain c where "c \<in> set (q_conditions q)" "position_of t (cond_column c) = None"
    unfolding unknown_columns_def by auto
  then have "resolve_plan t (q_conditions q) = None" by (auto simp: resolve_plan_None)
  moreover have "drain walk_nothing = []"
    by (subst drain.simps) (simp add: heads_def)
  ultimately show "collect_matches X t (find_matches L t q) = []"
    by (simp add: find_matches_def collect_drain)
qed

theorem unknown_columns_answer_nothing_witness:
  "unknown_columns names_table (query_new [Equals ''asn'' ''7'', Equals ''nmae'' ''a'']) = [''nmae'']
   \<and> collect_matches letters_lib names_table (find_matches (net_library short_nets) names_table
       (query_new [Equals ''asn'' ''7'', Equals ''nmae'' ''a''])) = []"
proof -
  have "unknown_columns names_table (query_new [Equals ''asn'' ''7'', Equals ''nmae'' ''a'']) = [''nmae'']"
    by (simp add: unknown_columns_def query_new_def position_of_def names_table_def)
  with unknown_columns_answer_nothing [of names_table
      "query_new [Equals ''asn'' ''7'', Equals ''nmae'' ''a'']" letters_lib "net_library short_nets"]
  show ?thesis by simp
qed

section \<open>What every loaded table is\<close>

definition rectangular :: "str list \<Rightarrow> row list \<Rightarrow> bool" where
  "rectangular cols rs \<longleftrightarrow> (\<forall>r \<in> set rs. length r = length cols)"

definition walk_rectangular :: "walk \<Rightarrow> bool" where
  "walk_rectangular w \<longleftrightarrow> rectangular (w_columns w) (w_rows w)"

lemma insertion_point_bound: "insertion_point key cs = Some i \<Longrightarrow> i \<le> length cs"
  by (auto simp: insertion_point_def length_takeWhile_le split: if_splits)

lemma widen_ok: "walk_rectangular w \<Longrightarrow> returns walk_rectangular (widen w key)"
  by (auto simp: widen_def walk_rectangular_def rectangular_def dest: insertion_point_bound split: option.split)

interpretation widening: checked_step widen walk_rectangular
  by unfold_locales (rule widen_ok)

lemma take_object_ok: "walk_rectangular w \<Longrightarrow> returns walk_rectangular (take_object to_text c w kvs)"
  by (auto simp: take_object_def Let_def walk_rectangular_def rectangular_def row_of_object_def)

lemma visit_element_ok: "walk_rectangular w \<Longrightarrow> returns walk_rectangular (visit_element to_text stated c w e)"
  by (auto simp: visit_element_def take_object_ok intro!: returns_mono [OF widening.run_inv] split: element_read.split option.split)

interpretation walking: checked_step "visit_element to_text stated c" walk_rectangular
  by unfold_locales (rule visit_element_ok)

lemma read_json_rectangular:
  "returns (\<lambda>p. rectangular (par_columns p) (par_rows p)) (read_json to_text doc sch c)"
proof -
  have start: "walk_rectangular (walk_start sch)" by (simp add: walk_rectangular_def walk_start_def rectangular_def)
  have "returns (\<lambda>p. rectangular (par_columns p) (par_rows p)) (visit_seq to_text sch c es)" for es
    unfolding visit_seq_def returns_simps
    by (rule returns_mono [OF walking.run_inv [OF start]]) (simp add: walk_rectangular_def)
  then show ?thesis
    by (auto simp: read_json_def returns_def and_then_Inr_iff split: document.splits option.splits)
qed

lemma read_table_rectangular:
  assumes "c \<le> u64_max"
  shows "returns (\<lambda>p. rectangular (par_columns p) (par_rows p)) (read_table document_of to_text r fmt sch c)"
  using read_json_rectangular
  by (auto simp: read_table_def rectangular_def intro: returns_mono [OF read_csv_bounds [OF assms]]
      split: table_format.split)

text \<open>A row position a lookup can reach is a row, and each is reached once, in file order.\<close>

definition row_positions :: "'m table \<Rightarrow> nat list \<Rightarrow> bool" where
  "row_positions t ps \<longleftrightarrow> sorted_wrt (<) ps \<and> set ps \<subseteq> {..<length (tab_rows t)}"

definition well_formed :: "('p, 'm) prefix_lib \<Rightarrow> 'm table \<Rightarrow> bool" where
  "well_formed L t \<longleftrightarrow>
     rectangular (tab_columns t) (tab_rows t) \<and> tab_key_column t < length (tab_columns t)
     \<and> (\<forall>key. row_positions t (positions_of t key)) \<and> (\<forall>a. row_positions t (positions_at L t a))"

lemma row_positions_where: "row_positions t (rows_where P (tab_rows t))"
  by (auto simp: row_positions_def rows_where_sorted rows_where_mem)

lemma row_positions_nil: "row_positions t []"
  by (simp add: row_positions_def)

lemma indexed_positions:
  assumes "prefix_library L canon covers plen" and "table_indexed L canon t"
  shows "row_positions t (positions_of t key) \<and> row_positions t (positions_at L t a)"
proof (cases "tab_keys t")
  case (TextKeys filed)
  with assms(2) have "row_positions t (filed_under filed key)"
    by (simp only: table_indexed_def Let_def keys.case row_positions_where)
  then show ?thesis by (simp add: positions_of_def positions_at_def TextKeys row_positions_nil)
next
  case (AddressKeys filed u)
  with assms(2) have "row_positions t (filed_under filed a)"
    by (simp only: table_indexed_def Let_def keys.case row_positions_where)
  then show ?thesis by (simp add: positions_of_def positions_at_def AddressKeys row_positions_nil)
next
  case (PrefixKeys m u)
  with assms(2) have ok: "row_positions t (case pm_get L m p of None \<Rightarrow> [] | Some l \<Rightarrow> l)" for p
    by (simp only: table_indexed_def Let_def keys.case row_positions_where)
  have "row_positions t l" if "pm_lpm L m (host_net L a) = Some l" for l
  proof -
    from prefix_library.lpm_Some [OF assms(1) that] obtain q where "pm_get L m q = Some l" by blast
    with ok [of q] show ?thesis by simp
  qed
  then show ?thesis
    by (simp add: positions_of_def positions_at_def PrefixKeys row_positions_nil split: option.split)
qed

text \<open>C22: every table a load hands over is well formed, whatever the file, the format and the key: each
  row has one cell per column, the key column is one of them, and what any text key or address leads
  to are rows of the table, each once and in file order, so no lookup reads past a row or a cell.\<close>

theorem loaded_table_is_well_formed:
  assumes "prefix_library L canon covers plen" and "c \<le> u64_max"
    and "read_file L A document_of to_text opened fmt sch ix c = Inr t"
  shows "well_formed L t"
proof -
  from assms(3) obtain r p where r: "read_table document_of to_text r fmt sch c = Inr p"
    and t: "build_table L A p ix c = Inr t" by (auto simp: read_file_def and_then_Inr_iff)
  from build_table_indexed [OF assms(1) t] have ix: "table_indexed L canon t"
    and parts: "tab_rows t = par_rows p" "tab_columns t = par_columns p" by auto
  from ix have "tab_key_column t < length (tab_columns t)" by (simp add: table_indexed_def Let_def)
  with returnsD [OF read_table_rectangular [OF assms(2)] r] indexed_positions [OF assms(1) ix] parts
  show ?thesis by (simp add: well_formed_def)
qed

theorem loaded_table_is_well_formed_witness:
  "\<exists>t. read_file (net_library short_nets) doubling (\<lambda>_. ragged_document) (\<lambda>_. ''true'') (Inr []) Json Auto (Column ''a'') 1000
      = Inr t \<and> well_formed (net_library short_nets) t"
proof -
  have "\<exists>t. read_file (net_library short_nets) doubling (\<lambda>_. ragged_document) (\<lambda>_. ''true'') (Inr []) Json Auto
      (Column ''a'') 1000 = Inr t"
    by (simp add: read_file_def read_table_def ragged_document_reads build_eval)
  then obtain t where t: "read_file (net_library short_nets) doubling (\<lambda>_. ragged_document) (\<lambda>_. ''true'') (Inr [])
      Json Auto (Column ''a'') 1000 = Inr t" by blast
  from loaded_table_is_well_formed [OF net_ranges.prefix_library_axioms _ t] t show ?thesis
    by (simp add: u64_max_def)
qed

section \<open>A walk over the matches ends\<close>

text \<open>What is left of an iterator after some calls of \<open>next\<close>, or that one of them answered the end.\<close>

fun after_calls :: "text_lib \<Rightarrow> 'm table \<Rightarrow> nat \<Rightarrow> 'm matches \<Rightarrow> 'm matches option" where
  "after_calls X t 0 m = Some m"
| "after_calls X t (Suc n) m =
     (case next_match X t m of None \<Rightarrow> None | Some (_, m') \<Rightarrow> after_calls X t n m')"

lemma after_calls_remaining: "after_calls X t n m = Some m' \<Longrightarrow> remaining (mt_walk m') + n \<le> remaining (mt_walk m)"
  by (induction n arbitrary: m) (fastforce dest: next_match_remaining split: option.splits)+

text \<open>An iteration over matches ends: each call that hands a row back lowers the upper bound the
  iterator reports, so one call more than that bound has answered that there are no more, and what
  was handed back by then is no more than the bound.\<close>

theorem matches_end:
  "\<exists>n. size_hint m = (0, Some n) \<and> after_calls X t (Suc n) m = None
     \<and> length (collect_matches X t m) \<le> n
     \<and> (\<forall>r m' n'. next_match X t m = Some (r, m') \<longrightarrow> size_hint m' = (0, Some n') \<longrightarrow> n' < n)"
proof -
  have "after_calls X t (Suc (remaining (mt_walk m))) m = None"
    using after_calls_remaining [of X t "Suc (remaining (mt_walk m))" m]
    by (cases "after_calls X t (Suc (remaining (mt_walk m))) m") auto
  moreover have "length (collect_matches X t m) \<le> remaining (mt_walk m)"
    unfolding collect_drain length_map
    using le_trans [OF length_filter_le drain_length [of "mt_walk m"]] .
  ultimately show ?thesis by (auto simp: size_hint_def dest: next_match_remaining)
qed

theorem matches_end_witness:
  "\<exists>n. size_hint (find_matches (net_library short_nets) names_table (query_new [])) = (0, Some n)
     \<and> after_calls letters_lib names_table (Suc n) (find_matches (net_library short_nets) names_table (query_new [])) = None
     \<and> n = length (tab_rows names_table)"
proof -
  let ?m = "find_matches (net_library short_nets) names_table (query_new [])"
  have "narrow (net_library short_nets) names_table (query_new []) [] = None"
    by (simp add: narrow_def query_new_def names_table_def)
  then have "size_hint ?m = (0, Some (length (tab_rows names_table)))"
    by (simp add: size_hint_def find_matches_def query_new_def)
  with matches_end [of ?m letters_lib names_table] show ?thesis by auto
qed

end
