(* ===== verification/Csv_Table.thy ===== *)
theory Csv_Table
  imports Csv_Language Table_Query
begin

text \<open>
  What \<open>read_csv\<close> of \<open>src/table/parse.rs\<close> makes of a whole input under a ceiling, and what a table
  loaded from it answers. The lemmas compare the machine under a ceiling with the machine under none,
  byte by byte: what it holds only grows, so a file is read under a ceiling exactly when it is read
  without one and its records cost no more. With the language of CSV files this says of every input
  whether it is read and as what, and with the index and the queries what a table loaded from it
  answers, in terms of the fields that were written.
\<close>

section \<open>Under a ceiling and under none\<close>

text \<open>What the machine has been charged for so far, the record and the field being read included.\<close>

definition weighs :: "csv \<Rightarrow> nat" where
  "weighs s =
     (if field_bytes s \<noteq> []
      then sat_add (held s) (sat_add (record_bytes s) (ROW_OVERHEAD + (length (field_bytes s) + CELL_OVERHEAD)))
      else if csv_fields s \<noteq> [] then sat_add (held s) (sat_add (record_bytes s) ROW_OVERHEAD)
      else held s)"

text \<open>The same state under another ceiling, and a result without a ceiling as it is under one.\<close>

definition lim :: "nat \<Rightarrow> csv \<Rightarrow> csv" where
  "lim c s = s\<lparr> ceiling := c \<rparr>"

fun cap :: "nat \<Rightarrow> (table_error, csv) result \<Rightarrow> (table_error, csv) result" where
  "cap c (Inl e) = Inl e"
| "cap c (Inr t) = (if weighs t \<le> c then Inr (lim c t) else Inl (OverResidentCeiling c))"

lemma weighs_position [simp]:
  "weighs (s\<lparr> csv_state := q \<rparr>) = weighs s" "weighs (s\<lparr> csv_line := n \<rparr>) = weighs s"
  "weighs (s\<lparr> record_line := n \<rparr>) = weighs s" "weighs (s\<lparr> started := b \<rparr>) = weighs s"
  "weighs (s\<lparr> after_cr := b \<rparr>) = weighs s" "weighs (lim c s) = weighs s" "weighs (csv_begin s) = weighs s"
  by (simp_all add: weighs_def lim_def csv_begin_def)

lemma lim_simps [simp]:
  "lim c (lim d s) = lim c s" "ceiling (lim c s) = c" "csv_state (lim c s) = csv_state s"
  "started (lim c s) = started s" "after_cr (lim c s) = after_cr s" "csv_line (lim c s) = csv_line s"
  "record_line (lim c s) = record_line s" "records_done (lim c s) = records_done s" "held (lim c s) = held s"
  "(lim c s)\<lparr> csv_state := q \<rparr> = lim c (s\<lparr> csv_state := q \<rparr>)" "(lim c s)\<lparr> csv_line := n \<rparr> = lim c (s\<lparr> csv_line := n \<rparr>)"
  "(lim c s)\<lparr> after_cr := b \<rparr> = lim c (s\<lparr> after_cr := b \<rparr>)" "csv_begin (lim c s) = lim c (csv_begin s)"
  "lim c (csv_new d) = csv_new c" "csv_accounts (lim c s) = csv_accounts s"
  by (simp_all add: lim_def csv_begin_def csv_new_def csv_accounts_def)

lemma lim_same: "ceiling s = c \<Longrightarrow> lim c s = s"
  by (simp add: lim_def)

lemma within_u64 [simp]: "\<not> u64_max < sat_add a b"
  by (simp add: not_less)

lemma push_capped: "csv_push (lim c s) b = cap c (csv_push (lim u64_max s) b)"
  by (simp add: csv_push_def charge_def Let_def weighs_def lim_def)

lemma end_field_capped: "end_field (lim c s) = cap c (end_field (lim u64_max s))"
  by (simp add: end_field_def charge_def Let_def weighs_def lim_def)

lemma end_record_capped: "end_record (lim c s) = cap c (end_record (lim u64_max s))"
  by (simp add: end_record_def end_field_def charge_def Let_def weighs_def lim_def)

lemma newline_capped: "weighs s \<le> c \<Longrightarrow> newline (lim c s) = cap c (newline (lim u64_max s))"
  by (simp add: newline_def Let_def end_record_capped [of c])

lemma cap_then_state:
  "and_then (cap c r) (\<lambda>t. Inr (t\<lparr> csv_state := q \<rparr>)) = cap c (and_then r (\<lambda>t. Inr (t\<lparr> csv_state := q \<rparr>)))"
  by (cases r) auto

lemma dispatch_capped:
  "weighs s \<le> c \<Longrightarrow> csv_dispatch q (lim c s) b = cap c (csv_dispatch q (lim u64_max s) b)"
  by (cases q) (simp_all add: cap_then_state push_capped [of c] end_field_capped [of c] newline_capped [of _ c])

lemma byte_capped: "weighs s \<le> c \<Longrightarrow> csv_byte (lim c s) b = cap c (csv_byte (lim u64_max s) b)"
  by (simp add: csv_byte_def dispatch_capped [of _ c] del: csv_dispatch.simps)

section \<open>What is held only grows\<close>

lemma weighs_min:
  "csv_accounts s \<Longrightarrow> weighs s = min (records_cost (records_done s) +
     (if field_bytes s \<noteq> [] then record_cost (csv_fields s) + ROW_OVERHEAD + (length (field_bytes s) + CELL_OVERHEAD)
      else if csv_fields s \<noteq> [] then record_cost (csv_fields s) + ROW_OVERHEAD else 0)) u64_max"
  by (auto simp: weighs_def csv_accounts_def sat_add_def min_def)

lemma push_grows:
  assumes "csv_accounts s" and "csv_push s b = Inr t"
  shows "weighs s \<le> weighs t \<and> csv_accounts t"
proof -
  have t: "t = s\<lparr> field_bytes := field_bytes s @ [b] \<rparr>"
    using assms(2) by (auto simp: csv_push_def and_then_Inr_iff split: if_splits)
  then have acc: "csv_accounts t" using assms(1) by simp
  have "weighs s \<le> weighs t"
    unfolding weighs_min [OF acc] weighs_min [OF assms(1)] by (auto simp: t intro!: min.mono)
  with acc show ?thesis by simp
qed

lemma end_field_grows:
  assumes "csv_accounts s" and "end_field s = Inr t"
  shows "weighs s \<le> weighs t \<and> csv_accounts t"
proof -
  note t = end_field_shape(1) [OF assms(2)]
  have acc: "csv_accounts t" using assms(1) by (simp add: t csv_accounts_def sat_add_min)
  have "weighs s \<le> weighs t"
    unfolding weighs_min [OF acc] weighs_min [OF assms(1)] by (auto simp: t intro!: min.mono)
  with acc show ?thesis by simp
qed

lemma end_record_grows:
  assumes "csv_accounts s" and "end_record s = Inr t"
  shows "weighs s \<le> weighs t \<and> csv_accounts t \<and> held t = weighs t"
proof -
  from assms(2) obtain u where u: "end_field s = Inr u"
    and t: "t = u\<lparr> held := sat_add (held u) (sat_add (record_bytes u) ROW_OVERHEAD), record_bytes := 0,
      records_done := records_done u @ [(record_line u, csv_fields u)], csv_fields := [], started := False \<rparr>"
    by (auto simp: end_record_def and_then_Inr_iff)
  from end_field_grows [OF assms(1) u] have u': "weighs s \<le> weighs u" "csv_accounts u" by simp_all
  have "csv_fields u \<noteq> []" "field_bytes u = []" using end_field_shape(1) [OF u] by simp_all
  then have "weighs t = weighs u" "held t = weighs t" by (simp_all add: t weighs_def)
  moreover have "csv_accounts t" using u'(2) by (auto simp: t csv_accounts_def sat_add_min sat_add_min_right)
  ultimately show ?thesis using u'(1) by simp
qed

lemma newline_grows: "csv_accounts s \<Longrightarrow> newline s = Inr t \<Longrightarrow> weighs s \<le> weighs t \<and> csv_accounts t"
  using end_record_grows [of "s\<lparr> csv_line := csv_line s + 1 \<rparr>" t]
  by (auto simp: newline_def Let_def csv_accounts_def split: if_splits)

lemma accounts_position [simp]:
  "csv_accounts (s\<lparr> csv_state := q \<rparr>) = csv_accounts s" "csv_accounts (s\<lparr> csv_line := n \<rparr>) = csv_accounts s"
  "csv_accounts (s\<lparr> after_cr := b \<rparr>) = csv_accounts s" "csv_accounts (csv_begin s) = csv_accounts s"
  by (simp_all add: csv_accounts_def csv_begin_def)

definition grows :: "csv \<Rightarrow> (table_error, csv) result \<Rightarrow> bool" where
  "grows s r \<longleftrightarrow> returns (\<lambda>t. weighs s \<le> weighs t \<and> csv_accounts t) r"

lemma grows_if [simp]: "grows s (if b then r else r') \<longleftrightarrow> (if b then grows s r else grows s r')"
  by (simp add: grows_def)

lemma grows_same [simp]: "grows s (Inr t) \<longleftrightarrow> weighs s \<le> weighs t \<and> csv_accounts t" "grows s (Inl e)"
  by (simp_all add: grows_def)

lemma grows_op:
  assumes "csv_accounts u" and "weighs u = weighs s"
  shows "grows s (csv_push u b)" and "grows s (end_field u)" and "grows s (newline u)"
    and "grows s (and_then (csv_push u b) (\<lambda>t. Inr (t\<lparr> csv_state := q \<rparr>)))"
  using push_grows [OF assms(1)] end_field_grows [OF assms(1)] newline_grows [OF assms(1)] assms(2)
  by (auto simp: grows_def returns_def and_then_Inr_iff)

lemma dispatch_grows: "csv_accounts u \<Longrightarrow> weighs u = weighs s \<Longrightarrow> grows s (csv_dispatch q u b)"
  by (cases q) (simp_all add: grows_op)

lemma byte_grows: "csv_accounts s \<Longrightarrow> csv_byte s b = Inr t \<Longrightarrow> weighs s \<le> weighs t \<and> csv_accounts t"
  using dispatch_grows [of s s "csv_state s" b] dispatch_grows [of "s\<lparr> after_cr := False \<rparr>" s "csv_state s" b]
  by (simp add: csv_byte_def split: if_splits del: csv_dispatch.simps) auto

lemma feed_grows: "csv_accounts s \<Longrightarrow> csv_feed s bs = Inr t \<Longrightarrow> weighs s \<le> weighs t \<and> csv_accounts t"
proof (induction bs arbitrary: s)
  case (Cons b bs)
  from Cons.prems(2) obtain u where "csv_byte s b = Inr u" "csv_feed u bs = Inr t"
    by (auto simp: csv_feed_def and_then_Inr_iff)
  with byte_grows [OF Cons.prems(1)] Cons.IH [of u] show ?case by fastforce
qed (simp add: csv_feed_def)

text \<open>Fed under a ceiling, the machine gets where it gets without one, if it holds no more there.\<close>

lemma feed_capped:
  assumes "csv_accounts s" and "weighs s \<le> c"
  shows "csv_feed (lim c s) bs = Inr t \<longleftrightarrow>
    (\<exists>u. csv_feed (lim u64_max s) bs = Inr u \<and> weighs u \<le> c \<and> t = lim c u)"
  using assms
proof (induction bs arbitrary: s)
  case (Cons b bs)
  show ?case
  proof (cases "csv_byte (lim u64_max s) b")
    case (Inl e)
    with byte_capped [OF Cons.prems(2)] show ?thesis by (simp add: csv_feed_def)
  next
    case (Inr v)
    have "ceiling v = u64_max" using csv_byte_ceiling [of "lim u64_max s" b] Inr by simp
    then have v: "lim u64_max v = v" by (rule lim_same)
    have acc: "csv_accounts v" using byte_grows [OF _ Inr] Cons.prems(1) by simp
    have more: "weighs v \<le> weighs u" if "csv_feed v bs = Inr u" for u
      using feed_grows [OF acc that] by simp
    have feed: "csv_feed (lim u64_max s) (b # bs) = csv_feed v bs" by (simp add: csv_feed_def Inr)
    show ?thesis
    proof (cases "weighs v \<le> c")
      case True
      then have "csv_feed (lim c s) (b # bs) = csv_feed (lim c v) bs"
        by (simp add: csv_feed_def byte_capped [OF Cons.prems(2)] Inr)
      with Cons.IH [OF acc True] feed v show ?thesis by simp
    next
      case False
      then have "csv_feed (lim c s) (b # bs) = Inl (OverResidentCeiling c)"
        by (simp add: csv_feed_def byte_capped [OF Cons.prems(2)] Inr)
      with False more feed show ?thesis by (auto dest: order_trans)
    qed
  qed
qed (auto simp: csv_feed_def)

lemma finish_weighs:
  assumes "csv_accounts t" and "started t \<or> csv_fields t = [] \<and> field_bytes t = []" and "csv_finish t = Inr (rs, h)"
  shows "weighs t \<le> h"
proof (cases "started t")
  case True
  with assms(3) obtain v where "end_record t = Inr v" "h = held v"
    by (auto simp: csv_finish_def and_then_Inr_iff split: if_splits)
  with end_record_grows [OF assms(1)] show ?thesis by auto
next
  case False
  with assms(2,3) show ?thesis by (auto simp: csv_finish_def weighs_def split: if_splits)
qed

lemma finish_capped:
  assumes "csv_accounts t" and "weighs t \<le> c" and "started t \<or> csv_fields t = [] \<and> field_bytes t = []"
  shows "csv_finish (lim c t) = Inr (rs, h) \<longleftrightarrow> csv_finish (lim u64_max t) = Inr (rs, h) \<and> h \<le> c"
proof (cases "csv_state t \<noteq> Quoted \<and> started t")
  case True
  have held: "held v = weighs v" if "end_record (lim u64_max t) = Inr v" for v
    using end_record_grows [OF _ that] assms(1) by simp
  from True held show ?thesis
    by (cases "end_record (lim u64_max t)") (auto simp: csv_finish_def end_record_capped [of c])
next
  case False
  with assms show ?thesis by (auto simp: csv_finish_def weighs_def)
qed

lemma csv_new_accounts: "csv_accounts (csv_new c)" "weighs (csv_new c) = 0" "lim c (csv_new c) = csv_new c"
  by (simp_all add: csv_accounts_def csv_new_def records_cost_def weighs_def lim_def)

lemma feed_new:
  assumes "csv_feed (csv_new u64_max) bs = Inr u"
  shows "csv_accounts u \<and> lim u64_max u = u \<and> (started u \<or> csv_fields u = [] \<and> field_bytes u = [])"
proof -
  have "ceiling u = u64_max"
    using csv_ceiling.run_inv [of "csv_new u64_max" u64_max bs] assms by (simp add: csv_feed_def csv_new_def)
  moreover have "stands (csv_new u64_max) [] [] Before" by (simp add: stands_def holds_text_def csv_new_def)
  from feed_moves [OF this assms] have "started u \<or> csv_fields u = [] \<and> field_bytes u = []"
    by (auto simp: stands_def holds_text_def)
  ultimately show ?thesis using feed_grows [OF csv_new_accounts(1) assms] by (auto simp: lim_same)
qed

text \<open>Under a ceiling an input is read exactly when it is read without one and costs no more.\<close>

lemma csv_records_capped:
  assumes "[] \<notin> set cs"
  shows "csv_records (map Inr cs) c = Inr (rs, h) \<longleftrightarrow> csv_records (map Inr cs) u64_max = Inr (rs, h) \<and> h \<le> c"
proof -
  have run: "csv_records (map Inr cs) d = Inr (rs, h) \<longleftrightarrow>
      (\<exists>t rs'. csv_feed (csv_new d) (concat cs) = Inr t \<and> csv_finish t = Inr (rs', h) \<and> rs = strip_bom rs')" for d
    by (auto simp: csv_records_def csv_feed_chunks_concat [OF assms] and_then_Inr_iff)
  have at_c: "csv_feed (csv_new c) (concat cs) = Inr t \<longleftrightarrow>
      (\<exists>u. csv_feed (csv_new u64_max) (concat cs) = Inr u \<and> weighs u \<le> c \<and> t = lim c u)" for t
    using feed_capped [of "csv_new u64_max" c "concat cs" t] by (simp add: csv_new_accounts)
  have finish: "csv_finish (lim c u) = Inr (rs', h) \<and> weighs u \<le> c \<longleftrightarrow> csv_finish u = Inr (rs', h) \<and> h \<le> c"
    if "csv_feed (csv_new u64_max) (concat cs) = Inr u" for u rs'
    using finish_capped [of u c rs' h] finish_weighs [of u rs' h] feed_new [OF that] by auto
  show ?thesis
    unfolding run at_c using finish by blast
qed

section \<open>What a file is read as\<close>

text \<open>What the records of a file cost, and the names and rows its records are taken for.\<close>

definition file_cost :: "str list list \<Rightarrow> nat" where
  "file_cost rows = sum_list (map (\<lambda>fs. record_cost fs + ROW_OVERHEAD) rows)"

fun titled :: "bool \<Rightarrow> schema \<Rightarrow> str list list \<Rightarrow> (str list \<times> str list list) option" where
  "titled True Auto (fs # rows) = Some (fs, rows)"
| "titled True (Named named) (fs # rows) = Some (named, rows)"
| "titled False (Named named) rows = Some (named, rows)"
| "titled _ _ _ = None"

lemma records_cost_rows: "records_cost rs = file_cost (map snd rs)"
  by (induction rs) (auto simp: records_cost_def file_cost_def)

lemma columns_titled:
  "csv_columns header sch rs = Inr (cols, body) \<Longrightarrow> titled header sch (map snd rs) = Some (cols, map snd body)"
  "titled header sch (map snd rs) = Some (cols, rows) \<Longrightarrow>
     \<exists>body. csv_columns header sch rs = Inr (cols, body) \<and> map snd body = rows"
  by (cases "(header, sch, rs)" rule: csv_columns.cases; auto)+

lemma finish_cost:
  assumes "csv_feed (csv_new u64_max) bs = Inr s" and "csv_finish s = Inr (rs, h)"
  shows "h = min (file_cost (map snd rs)) u64_max"
proof -
  have "csv_inv s" using csv_bytes.run_inv [OF csv_inv_new, of u64_max bs] assms(1) by (simp add: csv_feed_def)
  from returnsD [OF csv_finish_cost [OF this] assms(2)] show ?thesis by (simp add: records_cost_rows)
qed

lemma records_are_a_file:
  assumes "[] \<notin> set cs" and "csv_records (map Inr cs) u64_max = Inr (rs, h)"
  shows "\<exists>ls ws. file_ok ls ws \<and> csv_text ls ws = concat cs \<and> map snd rs = drop_bom (csv_rows ls ws)
    \<and> h = min (file_cost (csv_rows ls ws)) u64_max"
proof -
  from assms(2) obtain s rs' where s: "csv_feed (csv_new u64_max) (concat cs) = Inr s" "csv_finish s = Inr (rs', h)"
    and rs: "rs = strip_bom rs'"
    by (auto simp: csv_records_def csv_feed_chunks_concat [OF assms(1)] and_then_Inr_iff)
  have "stands (csv_new u64_max) [] [] Before" by (simp add: stands_def holds_text_def csv_new_def)
  from feed_moves [OF this s(1)] obtain ls ws p where
    "stands s ls ws p" "text_read ls ws p = concat cs" by (auto simp: text_read_def fields_text_def)
  with finish_stands [OF _ s(2)] obtain row where "file_ok ls row" "csv_text ls row = concat cs"
    "map snd rs' = csv_rows ls row" by metis
  with finish_cost [OF s] rs show ?thesis by (metis map_snd_strip_bom)
qed

lemma file_gives_records:
  assumes "[] \<notin> set cs" and "file_ok ls ws" and "csv_text ls ws = concat cs"
  shows "\<exists>rs. csv_records (map Inr cs) u64_max = Inr (rs, min (file_cost (csv_rows ls ws)) u64_max)
    \<and> map snd rs = drop_bom (csv_rows ls ws)"
proof -
  from feed_file [OF assms(2)] obtain s rs h where
    s: "csv_feed (csv_new u64_max) (concat cs) = Inr s" "csv_finish s = Inr (rs, h)" "map snd rs = csv_rows ls ws"
    by (auto simp: assms(3))
  then show ?thesis
    using finish_cost [OF s(1,2)]
    by (auto simp: csv_records_def csv_feed_chunks_concat [OF assms(1)] map_snd_strip_bom)
qed

lemma rows_of_records_iff:
  "rows_of_records w rs = Inr rows \<longleftrightarrow>
     (\<forall>r \<in> set (map snd rs). length r = w) \<and> rows = map (map cell_of_text) (map snd rs)"
  by (induction rs arbitrary: rows) (fastforce simp: and_then_Inr_iff split: if_splits)+

text \<open>The table a file is read as, its names under the schema, its rows all as wide.\<close>

definition read_as :: "bool \<Rightarrow> schema \<Rightarrow> str list list \<Rightarrow> parsed \<Rightarrow> bool" where
  "read_as header sch rows p \<longleftrightarrow>
     (\<exists>body. titled header sch (drop_bom rows) = Some (par_columns p, body)
        \<and> par_columns p \<noteq> [] \<and> body \<noteq> [] \<and> (\<forall>r \<in> set body. length r = length (par_columns p))
        \<and> par_rows p = map (map cell_of_text) body \<and> par_held p = file_cost rows)"

lemma records_are_read:
  assumes "[] \<notin> set cs" and "c < u64_max" and "read_csv (map Inr cs) header sch c = Inr p"
  shows "\<exists>ls ws. file_ok ls ws \<and> csv_text ls ws = concat cs \<and> file_cost (csv_rows ls ws) \<le> c
    \<and> read_as header sch (csv_rows ls ws) p"
proof -
  from assms(3) obtain rs h cols body rows where rs: "csv_records (map Inr cs) c = Inr (rs, h)"
    and cols: "csv_columns header sch rs = Inr (cols, body)" "cols \<noteq> []"
    and rows: "rows_of_records (length cols) body = Inr rows" "rows \<noteq> []"
    and p: "p = \<lparr> par_columns = cols, par_rows = rows, par_held = h \<rparr>"
    by (auto simp: read_csv_def and_then_Inr_iff split: if_splits)
  note all = csv_records_capped [OF assms(1), THEN iffD1, OF rs]
  from records_are_a_file [OF assms(1) all [THEN conjunct1]] obtain ls ws where written: "file_ok ls ws" "csv_text ls ws = concat cs"
    "map snd rs = drop_bom (csv_rows ls ws)" "h = min (file_cost (csv_rows ls ws)) u64_max" by blast
  with all assms(2) have "h = file_cost (csv_rows ls ws)" "file_cost (csv_rows ls ws) \<le> c" by auto
  with written cols rows columns_titled(1) [OF cols(1)] show ?thesis
    by (intro exI [of _ ls] exI [of _ ws]) (auto simp: read_as_def p rows_of_records_iff)
qed

text \<open>C20: under a ceiling too, what is read is the language: an input, however cut, is read exactly when
  it is the text of a file whose records cost no more than the ceiling, named as the schema says, with
  at least one row and every row as wide as the names; what is read of it is what was written there,
  charged what it costs. Everything else is refused.\<close>

theorem csv_reads_what_fits:
  assumes "[] \<notin> set cs" and "c < u64_max"
  shows "read_csv (map Inr cs) header sch c = Inr p \<longleftrightarrow>
    (\<exists>ls ws. file_ok ls ws \<and> csv_text ls ws = concat cs \<and> file_cost (csv_rows ls ws) \<le> c
       \<and> read_as header sch (csv_rows ls ws) p)"
proof
  assume "read_csv (map Inr cs) header sch c = Inr p"
  then show "\<exists>ls ws. file_ok ls ws \<and> csv_text ls ws = concat cs \<and> file_cost (csv_rows ls ws) \<le> c
      \<and> read_as header sch (csv_rows ls ws) p" by (rule records_are_read [OF assms])
next
  assume "\<exists>ls ws. file_ok ls ws \<and> csv_text ls ws = concat cs \<and> file_cost (csv_rows ls ws) \<le> c
      \<and> read_as header sch (csv_rows ls ws) p"
  then obtain ls ws where written: "file_ok ls ws" "csv_text ls ws = concat cs" "file_cost (csv_rows ls ws) \<le> c"
    and p: "read_as header sch (csv_rows ls ws) p" by blast
  from file_gives_records [OF assms(1) written(1,2)] written(3) assms(2) obtain rs where
    rs: "csv_records (map Inr cs) u64_max = Inr (rs, file_cost (csv_rows ls ws))" "map snd rs = drop_bom (csv_rows ls ws)"
    by auto
  have at_c: "csv_records (map Inr cs) c = Inr (rs, file_cost (csv_rows ls ws))"
    by (rule csv_records_capped [OF assms(1), THEN iffD2, OF conjI [OF rs(1) written(3)]])
  from p rs(2) obtain body where "csv_columns header sch rs = Inr (par_columns p, body)" "par_columns p \<noteq> []"
    "map snd body \<noteq> []" "\<forall>r \<in> set (map snd body). length r = length (par_columns p)"
    "par_rows p = map (map cell_of_text) (map snd body)" "par_held p = file_cost (csv_rows ls ws)"
    unfolding read_as_def by (metis columns_titled(2))
  with at_c show "read_csv (map Inr cs) header sch c = Inr p"
    by (simp add: read_csv_def rows_of_records_iff [THEN iffD2])
qed

theorem csv_reads_what_fits_witness:
  "read_csv (map Inr [''asn,n'', drop 5 (csv_text mixed_lines [Bare ''2'', Bare []])]) True Auto 400 =
     Inr \<lparr> par_columns = [''asn'', ''name''],
       par_rows = [[Some ''1'', Some (''a,'' @ [QUOTE, LF])], [Some ''2'', None]],
       par_held = file_cost (csv_rows mixed_lines [Bare ''2'', Bare []]) \<rparr>"
proof -
  let ?cs = "[''asn,n'', drop 5 (csv_text mixed_lines [Bare ''2'', Bare []])]"
  have cs: "[] \<notin> set ?cs" and bytes: "concat ?cs = csv_text mixed_lines [Bare ''2'', Bare []]"
    by (simp_all add: csv_text_def mixed_lines_def DELIMITER_def)
  have rows: "csv_rows mixed_lines [Bare ''2'', Bare []] = [[''asn'', ''name''], [''1'', ''a,'' @ [QUOTE, LF]], [''2'', []]]"
    by (simp add: csv_rows_def mixed_lines_def)
  have fits: "file_cost (csv_rows mixed_lines [Bare ''2'', Bare []]) \<le> 400" "(400 :: nat) < u64_max"
    by (simp_all add: rows file_cost_def record_cost_def CELL_OVERHEAD_def ROW_OVERHEAD_def u64_max_def)
  show ?thesis
    by (rule csv_reads_what_fits [OF cs fits(2), THEN iffD2], intro exI conjI, rule mixed_ok)
      (use bytes fits(1) in \<open>simp_all add: read_as_def rows starts_with_def BOM_def cell_of_text_def\<close>)
qed

section \<open>What a table loaded from it answers\<close>

text \<open>C2: a table loaded from a CSV file is answered from what was written there: there is a file of the
  language with the bytes that were read, and every query answers with exactly its rows that satisfy the
  query, a text key with exactly those that hold the key, each once and in the order written.\<close>

theorem written_rows_are_answered:
  assumes "prefix_library L canon covers plen" and "[] \<notin> set cs" and "c < u64_max"
    and "read_file L A document_of to_text (Inr (map Inr cs)) (Csv header) sch ix c = Inr t"
  shows "\<exists>ls ws body. file_ok ls ws \<and> csv_text ls ws = concat cs
    \<and> titled header sch (drop_bom (csv_rows ls ws)) = Some (tab_columns t, body)
    \<and> (let rows = map (map cell_of_text) body in
         all_rows t = rows
         \<and> (\<forall>X q. map matched_row (collect_matches X t (find_matches L t q)) = filter (row_satisfies X t q) rows)
         \<and> (\<forall>name key. ix = Column name \<longrightarrow> table_all t key = filter (\<lambda>r. row_key t r = Some key) rows))"
proof -
  from assms(4) obtain p where p: "read_csv (map Inr cs) header sch c = Inr p" and t: "build_table L A p ix c = Inr t"
    by (auto simp: read_file_def read_table_def and_then_Inr_iff)
  from records_are_read [OF assms(2,3) p] obtain ls ws where written: "file_ok ls ws" "csv_text ls ws = concat cs"
    and read: "read_as header sch (csv_rows ls ws) p" by blast
  from build_table_indexed [OF assms(1) t] have ix: "table_indexed L canon t"
    and parts: "tab_rows t = par_rows p" "tab_columns t = par_columns p" by auto
  from read obtain body where body: "titled header sch (drop_bom (csv_rows ls ws)) = Some (tab_columns t, body)"
    "par_rows p = map (map cell_of_text) body" by (auto simp: read_as_def parts)
  have "all_rows t = par_rows p" by (simp add: all_rows_def row_at_def [abs_def] parts map_nth)
  moreover have "map matched_row (collect_matches X t (find_matches L t q)) = filter (row_satisfies X t q) (par_rows p)" for X q
    using find_is_filter [OF ix] by (simp add: comp_def parts)
  moreover have "table_all t key = filter (\<lambda>r. row_key t r = Some key) (par_rows p)" if "ix = Column name" for name key
    using text_key_reaches_its_rows [OF t [unfolded that]] by blast
  ultimately show ?thesis using written body by (auto simp: Let_def)
qed

text \<open>Two rows under one key, the second in quotes, in three chunks.\<close>

definition named_chunks :: "str list" where
  "named_chunks = [''asn,na'', ''me'' @ [CR, LF] @ ''7,a'' @ [LF, QUOTE], ''7'' @ [QUOTE] @ '',b'']"

lemma named_loads:
  "\<exists>t. read_file (net_library short_nets) doubling (\<lambda>_. ragged_document) (\<lambda>_. ''true'') (Inr (map Inr named_chunks))
     (Csv True) Auto (Column ''asn'') 2000 = Inr t \<and> table_all t ''7'' = [[Some ''7'', Some ''a''], [Some ''7'', Some ''b'']]"
  by (simp add: read_file_def read_table_def named_chunks_def csv_eval build_eval table_all_def positions_of_def
      filed_under_def row_at_def)

theorem written_rows_are_answered_witness:
  "\<exists>t ls ws body. read_file (net_library short_nets) doubling (\<lambda>_. ragged_document) (\<lambda>_. ''true'')
     (Inr (map Inr named_chunks)) (Csv True) Auto (Column ''asn'') 2000 = Inr t
   \<and> file_ok ls ws \<and> csv_text ls ws = concat named_chunks
   \<and> filter (\<lambda>r. row_key t r = Some ''7'') (map (map cell_of_text) body) = [[Some ''7'', Some ''a''], [Some ''7'', Some ''b'']]"
proof -
  obtain t where t: "read_file (net_library short_nets) doubling (\<lambda>_. ragged_document) (\<lambda>_. ''true'')
      (Inr (map Inr named_chunks)) (Csv True) Auto (Column ''asn'') 2000 = Inr t"
    and seven: "table_all t ''7'' = [[Some ''7'', Some ''a''], [Some ''7'', Some ''b'']]" using named_loads by blast
  have cs: "[] \<notin> set named_chunks" "(2000 :: nat) < u64_max" by (simp_all add: named_chunks_def u64_max_def)
  from written_rows_are_answered [OF net_ranges.prefix_library_axioms cs t] seven t show ?thesis
    unfolding Let_def by metis
qed

end
