(* ===== verification/Geo_Record.thy ===== *)
theory Geo_Record
  imports Prelude "HOL-Library.Word"
begin

text \<open>
  \<open>src/geoip/record.rs\<close>: what a lookup answers with. The values a source can carry and the
  narrowest kind each whole number is kept as, the record with its typed fields and the fields no
  typed field names, the flat pairs a consumer maps onto its schema, and the form a record is written
  in and read back from. A double is its 64 bits. The lemmas show that a record written as JSON is
  read back, and which value keeps one from being.
\<close>

section \<open>Values\<close>

datatype field_value =
    FStr str | FFloat "64 word" | FUInt nat | FInt int | FUInt128 nat | FBool bool | FBytes str

datatype extra_value =
    XStr str | XFloat "64 word" | XUInt nat | XInt int | XUInt128 nat | XBool bool | XBytes str

definition extra_from_i64 :: "int \<Rightarrow> extra_value" where
  "extra_from_i64 v = (if 0 \<le> v then XUInt (nat v) else XInt v)"

definition extra_from_u128 :: "nat \<Rightarrow> extra_value" where
  "extra_from_u128 v = (if v \<le> u64_max then XUInt v else XUInt128 v)"

fun as_field :: "extra_value \<Rightarrow> field_value" where
  "as_field (XStr v) = FStr v"
| "as_field (XFloat v) = FFloat v"
| "as_field (XUInt v) = FUInt v"
| "as_field (XInt v) = FInt v"
| "as_field (XUInt128 v) = FUInt128 v"
| "as_field (XBool v) = FBool v"
| "as_field (XBytes v) = FBytes v"

fun extra_as_str :: "extra_value \<Rightarrow> str option" where
  "extra_as_str (XStr v) = Some v"
| "extra_as_str _ = None"

section \<open>The record\<close>

text \<open>Path and value, in source order.\<close>

type_synonym extra_fields = "(str \<times> extra_value) list"

definition extra_new :: extra_fields where "extra_new = []"
definition extra_iter :: "extra_fields \<Rightarrow> (str \<times> extra_value) list" where "extra_iter fs = fs"
definition extra_len :: "extra_fields \<Rightarrow> nat" where "extra_len fs = length fs"
definition extra_is_empty :: "extra_fields \<Rightarrow> bool" where "extra_is_empty fs \<longleftrightarrow> fs = []"

definition extra_get :: "extra_fields \<Rightarrow> str \<Rightarrow> extra_value option" where
  "extra_get fs path = map_option snd (List.find (\<lambda>(key, _). key = path) fs)"

definition extra_push :: "extra_fields \<Rightarrow> str \<Rightarrow> extra_value \<Rightarrow> extra_fields" where
  "extra_push fs path v = fs @ [(path, v)]"

record geo_record =
  city_name :: "str option"
  continent_code :: "str option"
  continent_name :: "str option"
  country_code :: "str option"
  country_name :: "str option"
  region_name :: "str option"
  region_code :: "str option"
  postal_code :: "str option"
  timezone :: "str option"
  latitude :: "64 word option"
  longitude :: "64 word option"
  metro_code :: "nat option" \<comment> \<open>\<open>u16\<close>\<close>
  accuracy_radius :: "nat option" \<comment> \<open>\<open>u16\<close>\<close>
  autonomous_system_number :: "nat option" \<comment> \<open>\<open>u32\<close>\<close>
  autonomous_system_organization :: "str option"
  gr_is_private :: bool
  network :: "str option"
  asn_network :: "str option"
  as_domain :: "str option"
  gr_extra :: extra_fields

text \<open>\<open>GeoIpRecord::default()\<close>, and the record of an address that cannot have an answer.\<close>

definition record_default :: geo_record where
  "record_default =
     \<lparr> city_name = None, continent_code = None, continent_name = None, country_code = None,
       country_name = None, region_name = None, region_code = None, postal_code = None, timezone = None,
       latitude = None, longitude = None, metro_code = None, accuracy_radius = None,
       autonomous_system_number = None, autonomous_system_organization = None, gr_is_private = False,
       network = None, asn_network = None, as_domain = None, gr_extra = [] \<rparr>"

definition record_private :: geo_record where
  "record_private =
     \<lparr> city_name = None, continent_code = None, continent_name = None, country_code = None,
       country_name = None, region_name = None, region_code = None, postal_code = None, timezone = None,
       latitude = None, longitude = None, metro_code = None, accuracy_radius = None,
       autonomous_system_number = None, autonomous_system_organization = None, gr_is_private = True,
       network = None, asn_network = None, as_domain = None, gr_extra = [] \<rparr>"

section \<open>The schema map\<close>

definition push_field :: "(str \<times> field_value) list \<Rightarrow> str \<Rightarrow> field_value option \<Rightarrow> (str \<times> field_value) list" where
  "push_field fs key v = (case v of None \<Rightarrow> fs | Some x \<Rightarrow> fs @ [(key, x)])"

definition to_schema_map :: "geo_record \<Rightarrow> (str \<times> field_value) list" where
  "to_schema_map r =
     (let fs = [];
          fs = push_field fs ''city_name'' (map_option FStr (city_name r));
          fs = push_field fs ''continent_code'' (map_option FStr (continent_code r));
          fs = push_field fs ''continent_name'' (map_option FStr (continent_name r));
          fs = push_field fs ''country_code'' (map_option FStr (country_code r));
          fs = push_field fs ''country_name'' (map_option FStr (country_name r));
          fs = push_field fs ''region_name'' (map_option FStr (region_name r));
          fs = push_field fs ''region_code'' (map_option FStr (region_code r));
          fs = push_field fs ''postal_code'' (map_option FStr (postal_code r));
          fs = push_field fs ''timezone'' (map_option FStr (timezone r));
          fs = push_field fs ''latitude'' (map_option FFloat (latitude r));
          fs = push_field fs ''longitude'' (map_option FFloat (longitude r));
          fs = push_field fs ''metro_code'' (map_option FUInt (metro_code r));
          fs = push_field fs ''accuracy_radius'' (map_option FUInt (accuracy_radius r));
          fs = push_field fs ''autonomous_system_number'' (map_option FUInt (autonomous_system_number r));
          fs = push_field fs ''autonomous_system_organization'' (map_option FStr (autonomous_system_organization r));
          fs = fs @ [(''is_private'', FBool (gr_is_private r))];
          fs = push_field fs ''network'' (map_option FStr (network r));
          fs = push_field fs ''asn_network'' (map_option FStr (asn_network r));
          fs = push_field fs ''as_domain'' (map_option FStr (as_domain r))
      in fs @ map (\<lambda>(path, v). (path, as_field v)) (gr_extra r))"

section \<open>Written and read\<close>

text \<open>The values of serde's data model a record is written through.\<close>

datatype serde_value =
    SUnit
  | SStr str
  | SF64 "64 word"
  | SU64 nat
  | SI64 int
  | SU128 nat
  | SBool bool
  | SSeq "serde_value list"
  | SMap "(str \<times> serde_value) list"

fun serialize_extra_value :: "extra_value \<Rightarrow> serde_value" where
  "serialize_extra_value (XStr v) = SStr v"
| "serialize_extra_value (XFloat v) = SF64 v"
| "serialize_extra_value (XUInt v) = SU64 v"
| "serialize_extra_value (XInt v) = SI64 v"
| "serialize_extra_value (XUInt128 v) = SU128 v"
| "serialize_extra_value (XBool v) = SBool v"
| "serialize_extra_value (XBytes v) = SSeq (map (\<lambda>b. SU64 (byte_of b)) v)"

text \<open>An element of a byte sequence: a whole number that fits a byte.\<close>

fun read_u8 :: "serde_value \<Rightarrow> char option" where
  "read_u8 (SU64 n) = (if n < 256 then Some (char_of n) else None)"
| "read_u8 (SI64 i) = (if 0 \<le> i \<and> i < 256 then Some (char_of (nat i)) else None)"
| "read_u8 _ = None"

fun all_read :: "('a \<Rightarrow> 'b option) \<Rightarrow> 'a list \<Rightarrow> 'b list option" where
  "all_read f [] = Some []"
| "all_read f (x # xs) = (case f x of None \<Rightarrow> None | Some y \<Rightarrow> map_option ((#) y) (all_read f xs))"

fun deserialize_extra_value :: "serde_value \<Rightarrow> extra_value option" where
  "deserialize_extra_value (SBool b) = Some (XBool b)"
| "deserialize_extra_value (SI64 v) = Some (extra_from_i64 v)"
| "deserialize_extra_value (SU64 v) = Some (XUInt v)"
| "deserialize_extra_value (SU128 v) = Some (extra_from_u128 v)"
| "deserialize_extra_value (SF64 v) = Some (XFloat v)"
| "deserialize_extra_value (SStr v) = Some (XStr v)"
| "deserialize_extra_value (SSeq vs) = map_option XBytes (all_read read_u8 vs)"
| "deserialize_extra_value _ = None"

definition serialize_extra_fields :: "extra_fields \<Rightarrow> serde_value" where
  "serialize_extra_fields fs = SMap (map (\<lambda>(path, v). (path, serialize_extra_value v)) fs)"

fun deserialize_extra_fields :: "serde_value \<Rightarrow> extra_fields option" where
  "deserialize_extra_fields (SMap m) =
     all_read (\<lambda>(path, v). map_option (Pair path) (deserialize_extra_value v)) m"
| "deserialize_extra_fields _ = None"

text \<open>A field of the record that is skipped where it is absent.\<close>

definition optional_entry :: "str \<Rightarrow> ('a \<Rightarrow> serde_value) \<Rightarrow> 'a option \<Rightarrow> (str \<times> serde_value) list" where
  "optional_entry key ser v = (case v of None \<Rightarrow> [] | Some x \<Rightarrow> [(key, ser x)])"

definition serialize_record :: "geo_record \<Rightarrow> (str \<times> serde_value) list" where
  "serialize_record r =
     (optional_entry ''city_name'' SStr (city_name r)
      @ optional_entry ''continent_code'' SStr (continent_code r)
      @ optional_entry ''continent_name'' SStr (continent_name r)
      @ optional_entry ''country_code'' SStr (country_code r)
      @ optional_entry ''country_name'' SStr (country_name r)
      @ optional_entry ''region_name'' SStr (region_name r)
      @ optional_entry ''region_code'' SStr (region_code r)
      @ optional_entry ''postal_code'' SStr (postal_code r)
      @ optional_entry ''timezone'' SStr (timezone r)
      @ optional_entry ''latitude'' SF64 (latitude r)
      @ optional_entry ''longitude'' SF64 (longitude r)
      @ optional_entry ''metro_code'' SU64 (metro_code r)
      @ optional_entry ''accuracy_radius'' SU64 (accuracy_radius r)
      @ optional_entry ''autonomous_system_number'' SU64 (autonomous_system_number r)
      @ optional_entry ''autonomous_system_organization'' SStr (autonomous_system_organization r)
      @ [(''is_private'', SBool (gr_is_private r))]
      @ optional_entry ''network'' SStr (network r)
      @ optional_entry ''asn_network'' SStr (asn_network r)
      @ optional_entry ''as_domain'' SStr (as_domain r)
      @ (if gr_extra r = [] then [] else [(''extra'', serialize_extra_fields (gr_extra r))]))"

fun read_str :: "serde_value \<Rightarrow> str option" where
  "read_str (SStr s) = Some s"
| "read_str _ = None"

fun read_bool :: "serde_value \<Rightarrow> bool option" where
  "read_bool (SBool b) = Some b"
| "read_bool _ = None"

text \<open>A whole number no greater than a bound; a double, or a whole number converted to one by \<open>cv\<close>.\<close>

fun read_uint :: "nat \<Rightarrow> serde_value \<Rightarrow> nat option" where
  "read_uint bound (SU64 n) = (if n \<le> bound then Some n else None)"
| "read_uint bound (SI64 i) = (if 0 \<le> i \<and> nat i \<le> bound then Some (nat i) else None)"
| "read_uint bound _ = None"

fun read_f64 :: "(int \<Rightarrow> 64 word) \<Rightarrow> serde_value \<Rightarrow> 64 word option" where
  "read_f64 cv (SF64 f) = Some f"
| "read_f64 cv (SU64 n) = Some (cv (int n))"
| "read_f64 cv (SI64 i) = Some (cv i)"
| "read_f64 cv _ = None"

text \<open>An optional field of the derived reader: absent, or null, is none.\<close>

definition optional_field ::
    "(str \<times> serde_value) list \<Rightarrow> str \<Rightarrow> (serde_value \<Rightarrow> 'a option) \<Rightarrow> 'a option option" where
  "optional_field m key rd =
     (case map_of m key of
        None \<Rightarrow> Some None
      | Some SUnit \<Rightarrow> Some None
      | Some v \<Rightarrow> map_option Some (rd v))"

definition deserialize_map :: "(int \<Rightarrow> 64 word) \<Rightarrow> (str \<times> serde_value) list \<Rightarrow> geo_record option" where
  "deserialize_map cv m =
     Option.bind (optional_field m ''city_name'' read_str) (\<lambda>a.
     Option.bind (optional_field m ''continent_code'' read_str) (\<lambda>b.
     Option.bind (optional_field m ''continent_name'' read_str) (\<lambda>c.
     Option.bind (optional_field m ''country_code'' read_str) (\<lambda>d.
     Option.bind (optional_field m ''country_name'' read_str) (\<lambda>e.
     Option.bind (optional_field m ''region_name'' read_str) (\<lambda>f.
     Option.bind (optional_field m ''region_code'' read_str) (\<lambda>g.
     Option.bind (optional_field m ''postal_code'' read_str) (\<lambda>h.
     Option.bind (optional_field m ''timezone'' read_str) (\<lambda>i.
     Option.bind (optional_field m ''latitude'' (read_f64 cv)) (\<lambda>j.
     Option.bind (optional_field m ''longitude'' (read_f64 cv)) (\<lambda>k.
     Option.bind (optional_field m ''metro_code'' (read_uint 65535)) (\<lambda>l.
     Option.bind (optional_field m ''accuracy_radius'' (read_uint 65535)) (\<lambda>n.
     Option.bind (optional_field m ''autonomous_system_number'' (read_uint 4294967295)) (\<lambda>p.
     Option.bind (optional_field m ''autonomous_system_organization'' read_str) (\<lambda>q.
     Option.bind (Option.bind (map_of m ''is_private'') read_bool) (\<lambda>r.
     Option.bind (optional_field m ''network'' read_str) (\<lambda>s.
     Option.bind (optional_field m ''asn_network'' read_str) (\<lambda>t.
     Option.bind (optional_field m ''as_domain'' read_str) (\<lambda>u.
     Option.bind (case map_of m ''extra'' of None \<Rightarrow> Some [] | Some v \<Rightarrow> deserialize_extra_fields v) (\<lambda>x.
       Some \<lparr> city_name = a, continent_code = b, continent_name = c, country_code = d, country_name = e,
         region_name = f, region_code = g, postal_code = h, timezone = i, latitude = j, longitude = k,
         metro_code = l, accuracy_radius = n, autonomous_system_number = p,
         autonomous_system_organization = q, gr_is_private = r, network = s, asn_network = t,
         as_domain = u, gr_extra = x \<rparr>))))))))))))))))))))"

definition RECORD_KEYS :: "str list" where
  "RECORD_KEYS =
     [''city_name'', ''continent_code'', ''continent_name'', ''country_code'', ''country_name'', ''region_name'',
      ''region_code'', ''postal_code'', ''timezone'', ''latitude'', ''longitude'', ''metro_code'',
      ''accuracy_radius'', ''autonomous_system_number'', ''autonomous_system_organization'', ''is_private'',
      ''network'', ''asn_network'', ''as_domain'', ''extra'']"

text \<open>
  The derived reader, over the map form a record is written in: a key it knows may come once, one it
  does not is passed over.
\<close>

definition deserialize_record :: "(int \<Rightarrow> 64 word) \<Rightarrow> (str \<times> serde_value) list \<Rightarrow> geo_record option" where
  "deserialize_record cv m =
     (if distinct (filter (\<lambda>k. k \<in> set RECORD_KEYS) (map fst m)) then deserialize_map cv m else None)"

section \<open>Reading through JSON\<close>

text \<open>A double that is neither an infinity nor a NaN.\<close>

unbundle bit_operations_syntax

definition f64_finite :: "64 word \<Rightarrow> bool" where
  "f64_finite f \<longleftrightarrow> drop_bit 52 f AND 0x7FF \<noteq> 0x7FF"

text \<open>
  What JSON makes of a value: text, flags and whole numbers within 64 bits come back, a finite double
  as the double nearest to it that the parser finds, one that is not finite as null, and a whole
  number past 64 bits as a double.
\<close>

locale json_text =
  fixes reread :: "serde_value \<Rightarrow> serde_value"
    and near :: "64 word \<Rightarrow> 64 word"
    and wide :: "nat \<Rightarrow> 64 word"
  assumes text_back: "reread (SStr s) = SStr s"
    and flag_back: "reread (SBool b) = SBool b"
    and u64_back: "n \<le> u64_max \<Longrightarrow> reread (SU64 n) = SU64 n"
    and i64_back: "i < 0 \<Longrightarrow> reread (SI64 i) = SI64 i"
    and u128_back: "u64_max < n \<Longrightarrow> reread (SU128 n) = SF64 (wide n)"
    and finite_back: "f64_finite f \<Longrightarrow> reread (SF64 f) = SF64 (near f)"
    and other_back: "\<not> f64_finite f \<Longrightarrow> reread (SF64 f) = SUnit"
    and seq_back: "reread (SSeq vs) = SSeq (map reread vs)"
    and map_back: "reread (SMap m) = SMap (map (\<lambda>(k, v). (k, reread v)) m)"

text \<open>The values a source can yield: a signed number only where it is negative, a wide one only past 64 bits.\<close>

fun narrowest :: "extra_value \<Rightarrow> bool" where
  "narrowest (XUInt n) = (n \<le> u64_max)"
| "narrowest (XInt i) = (i < 0)"
| "narrowest (XUInt128 n) = (u64_max < n)"
| "narrowest _ = True"

lemma narrowest_from:
  "- (2 ^ 63) \<le> v \<Longrightarrow> v < 2 ^ 63 \<Longrightarrow> narrowest (extra_from_i64 v)"
  "narrowest (extra_from_u128 n)"
  by (auto simp: extra_from_i64_def extra_from_u128_def u64_max_def)

fun finite_value :: "extra_value \<Rightarrow> bool" where
  "finite_value (XFloat f) = f64_finite f"
| "finite_value _ = True"

text \<open>What a value comes back as.\<close>

fun value_back :: "(64 word \<Rightarrow> 64 word) \<Rightarrow> (nat \<Rightarrow> 64 word) \<Rightarrow> extra_value \<Rightarrow> extra_value" where
  "value_back near wide (XFloat f) = XFloat (near f)"
| "value_back near wide (XUInt128 n) = XFloat (wide n)"
| "value_back near wide v = v"

text \<open>A coordinate that is not finite is written as null, which reads as none.\<close>

definition coordinate_back :: "(64 word \<Rightarrow> 64 word) \<Rightarrow> 64 word option \<Rightarrow> 64 word option" where
  "coordinate_back near v = Option.bind v (\<lambda>f. if f64_finite f then Some (near f) else None)"

definition record_back :: "(64 word \<Rightarrow> 64 word) \<Rightarrow> (nat \<Rightarrow> 64 word) \<Rightarrow> geo_record \<Rightarrow> geo_record" where
  "record_back near wide r =
     r\<lparr> latitude := coordinate_back near (latitude r), longitude := coordinate_back near (longitude r),
        gr_extra := map (\<lambda>(path, v). (path, value_back near wide v)) (gr_extra r) \<rparr>"

text \<open>The widths of the fields, and the values a source can yield.\<close>

definition record_ok :: "geo_record \<Rightarrow> bool" where
  "record_ok r \<longleftrightarrow>
     pred_option (\<lambda>n. n \<le> 65535) (metro_code r) \<and> pred_option (\<lambda>n. n \<le> 65535) (accuracy_radius r)
     \<and> pred_option (\<lambda>n. n \<le> 4294967295) (autonomous_system_number r)
     \<and> (\<forall>(path, v) \<in> set (gr_extra r). narrowest v)"

text \<open>A record whose numbers JSON holds as they are: nothing wide, every double finite and read as written.\<close>

fun value_kept :: "(64 word \<Rightarrow> 64 word) \<Rightarrow> extra_value \<Rightarrow> bool" where
  "value_kept near (XFloat f) = (f64_finite f \<and> near f = f)"
| "value_kept near (XUInt128 n) = False"
| "value_kept near v = True"

definition record_kept :: "(64 word \<Rightarrow> 64 word) \<Rightarrow> geo_record \<Rightarrow> bool" where
  "record_kept near r \<longleftrightarrow>
     pred_option (\<lambda>f. f64_finite f \<and> near f = f) (latitude r) \<and> pred_option (\<lambda>f. f64_finite f \<and> near f = f) (longitude r)
     \<and> (\<forall>(path, v) \<in> set (gr_extra r). value_kept near v)"

lemma record_kept_back: "record_kept near r \<Longrightarrow> record_back near wide r = r"
proof -
  assume kept: "record_kept near r"
  have same: "value_kept near v \<Longrightarrow> value_back near wide v = v" for v by (cases v) simp_all
  have "map (\<lambda>(path, v). (path, value_back near wide v)) (gr_extra r) = gr_extra r"
    using kept same by (intro map_idI) (auto simp: record_kept_def)
  moreover have "coordinate_back near (latitude r) = latitude r" "coordinate_back near (longitude r) = longitude r"
    using kept by (auto simp: record_kept_def coordinate_back_def split: Option.bind_split)
  ultimately show ?thesis by (simp add: record_back_def)
qed

lemma all_read_map: "(\<And>x. x \<in> set xs \<Longrightarrow> f (g x) = Some (h x)) \<Longrightarrow> all_read f (map g xs) = Some (map h xs)"
  by (induction xs) auto

lemma all_read_None: "x \<in> set xs \<Longrightarrow> f x = None \<Longrightarrow> all_read f xs = None"
  by (induction xs) (auto split: option.split)

lemma map_of_optional_entry:
  "map_of (optional_entry key ser v @ m) k =
     (if k = key then (case v of None \<Rightarrow> map_of m k | Some x \<Rightarrow> Some (ser x)) else map_of m k)"
  by (simp add: optional_entry_def split: option.split)

lemma map_of_optional_last:
  "map_of (optional_entry key ser v) k = (if k = key then map_option ser v else None)"
  by (simp add: optional_entry_def split: option.split)

lemma map_of_map_value: "map_of (map (\<lambda>(k, v). (k, g v)) m) k = map_option g (map_of m k)"
  by (induction m) auto

text \<open>The keys of a written record are the record's keys, each once.\<close>

definition keys_in :: "str set \<Rightarrow> (str \<times> 'v) list \<Rightarrow> bool" where
  "keys_in K m \<longleftrightarrow> distinct (map fst m) \<and> set (map fst m) \<subseteq> K"

lemma keys_in_cons: "keys_in K m \<Longrightarrow> k \<notin> K \<Longrightarrow> keys_in (insert k K) (optional_entry k ser v @ m)"
  by (auto simp: keys_in_def optional_entry_def split: option.split)

lemma keys_in_one: "keys_in K m \<Longrightarrow> k \<notin> K \<Longrightarrow> keys_in (insert k K) ((k, v) # m)"
  by (auto simp: keys_in_def)

lemma keys_in_extra: "keys_in {''extra''} (if b then [] else [(''extra'', v)])"
  by (simp add: keys_in_def)

lemma serialize_record_keys: "distinct (map fst (serialize_record r))"
proof -
  have "\<exists>K. keys_in K (serialize_record r)"
    unfolding serialize_record_def append_Cons append_Nil
    by (rule exI, (rule keys_in_cons keys_in_one keys_in_extra | simp)+)
  then show ?thesis by (auto simp: keys_in_def)
qed

lemma serialized_at:
  "map_of (serialize_record r) ''city_name'' = map_option SStr (city_name r)"
  "map_of (serialize_record r) ''continent_code'' = map_option SStr (continent_code r)"
  "map_of (serialize_record r) ''continent_name'' = map_option SStr (continent_name r)"
  "map_of (serialize_record r) ''country_code'' = map_option SStr (country_code r)"
  "map_of (serialize_record r) ''country_name'' = map_option SStr (country_name r)"
  "map_of (serialize_record r) ''region_name'' = map_option SStr (region_name r)"
  "map_of (serialize_record r) ''region_code'' = map_option SStr (region_code r)"
  "map_of (serialize_record r) ''postal_code'' = map_option SStr (postal_code r)"
  "map_of (serialize_record r) ''timezone'' = map_option SStr (timezone r)"
  "map_of (serialize_record r) ''autonomous_system_organization'' = map_option SStr (autonomous_system_organization r)"
  "map_of (serialize_record r) ''network'' = map_option SStr (network r)"
  "map_of (serialize_record r) ''asn_network'' = map_option SStr (asn_network r)"
  "map_of (serialize_record r) ''as_domain'' = map_option SStr (as_domain r)"
  "map_of (serialize_record r) ''metro_code'' = map_option SU64 (metro_code r)"
  "map_of (serialize_record r) ''accuracy_radius'' = map_option SU64 (accuracy_radius r)"
  "map_of (serialize_record r) ''autonomous_system_number'' = map_option SU64 (autonomous_system_number r)"
  "map_of (serialize_record r) ''latitude'' = map_option SF64 (latitude r)"
  "map_of (serialize_record r) ''longitude'' = map_option SF64 (longitude r)"
  "map_of (serialize_record r) ''is_private'' = Some (SBool (gr_is_private r))"
  "map_of (serialize_record r) ''extra'' = (if gr_extra r = [] then None else Some (serialize_extra_fields (gr_extra r)))"
  by (simp_all add: serialize_record_def map_of_optional_entry map_of_optional_last del: map_of_append split: option.split)

context json_text
begin

lemma byte_back: "read_u8 (reread (SU64 (byte_of b))) = Some b"
proof -
  have "byte_of b < (256 :: nat)" by (rule nat_of_char_less_256)
  then have "byte_of b \<le> u64_max" unfolding u64_max_def by linarith
  then show ?thesis by (simp add: u64_back)
qed

lemma value_reads_back:
  "narrowest v \<Longrightarrow> finite_value v \<Longrightarrow>
     deserialize_extra_value (reread (serialize_extra_value v)) = Some (value_back near wide v)"
  by (cases v)
    (auto simp: text_back flag_back u64_back i64_back u128_back finite_back seq_back extra_from_i64_def
      comp_def byte_back all_read_map [where h = id, simplified])

lemma value_lost: "\<not> f64_finite f \<Longrightarrow> deserialize_extra_value (reread (serialize_extra_value (XFloat f))) = None"
  by (simp add: other_back)

lemma extra_reads_back:
  assumes "\<forall>(path, v) \<in> set fs. narrowest v \<and> finite_value v"
  shows "deserialize_extra_fields (reread (serialize_extra_fields fs)) =
    Some (map (\<lambda>(path, v). (path, value_back near wide v)) fs)"
  using assms
  by (auto simp: serialize_extra_fields_def map_back comp_def intro!: all_read_map value_reads_back)

lemma optional_reads_back:
  assumes "v = None \<or> (\<exists>x. v = Some x \<and> rd (reread (ser x)) = Some (h x) \<and> reread (ser x) \<noteq> SUnit)"
    and "map_of m key = map_option (\<lambda>x. reread (ser x)) v"
  shows "optional_field m key rd = Some (map_option h v)"
  using assms by (auto simp: optional_field_def split: serde_value.split)

lemma str_back: "v = None \<or> (\<exists>x. v = Some x \<and> read_str (reread (SStr x)) = Some (id x) \<and> reread (SStr x) \<noteq> SUnit)"
  by (cases v) (simp_all add: text_back)

lemma f64_back:
  assumes "map_of m key = map_option (\<lambda>x. reread (SF64 x)) v"
  shows "optional_field m key (read_f64 cv) = Some (coordinate_back near v)"
  using assms by (cases v) (auto simp: optional_field_def coordinate_back_def finite_back other_back)

lemma uint_back:
  "pred_option (\<lambda>n. n \<le> bound) v \<Longrightarrow> bound \<le> u64_max \<Longrightarrow>
     v = None \<or> (\<exists>x. v = Some x \<and> read_uint bound (reread (SU64 x)) = Some (id x) \<and> reread (SU64 x) \<noteq> SUnit)"
  by (cases v) (simp_all add: u64_back)

lemma record_reads_back_as:
  assumes "record_ok r" and "\<forall>(path, v) \<in> set (gr_extra r). finite_value v"
  shows "deserialize_record cv (map (\<lambda>(k, v). (k, reread v)) (serialize_record r)) = Some (record_back near wide r)"
proof -
  define m where "m = map (\<lambda>(k, v). (k, reread v)) (serialize_record r)"
  have look: "map_of m k = map_option reread (map_of (serialize_record r) k)" for k
    unfolding m_def by (rule map_of_map_value)
  note entry = look serialized_at comp_def
  note ok = assms(1) [unfolded record_ok_def]
  have fields: "\<forall>(path, v) \<in> set (gr_extra r). narrowest v \<and> finite_value v" using ok assms(2) by fastforce
  have keys: "distinct (map fst m)"
    using serialize_record_keys [of r] by (simp add: m_def comp_def case_prod_unfold)
  have names:
    "optional_field m ''city_name'' read_str = Some (city_name r)"
    "optional_field m ''continent_code'' read_str = Some (continent_code r)"
    "optional_field m ''continent_name'' read_str = Some (continent_name r)"
    "optional_field m ''country_code'' read_str = Some (country_code r)"
    "optional_field m ''country_name'' read_str = Some (country_name r)"
    "optional_field m ''region_name'' read_str = Some (region_name r)"
    "optional_field m ''region_code'' read_str = Some (region_code r)"
    "optional_field m ''postal_code'' read_str = Some (postal_code r)"
    "optional_field m ''timezone'' read_str = Some (timezone r)"
    "optional_field m ''autonomous_system_organization'' read_str = Some (autonomous_system_organization r)"
    "optional_field m ''network'' read_str = Some (network r)"
    "optional_field m ''asn_network'' read_str = Some (asn_network r)"
    "optional_field m ''as_domain'' read_str = Some (as_domain r)"
    by (rule optional_reads_back [OF str_back, unfolded option.map_id];
        simp add: entry option.map_comp split: option.split)+
  have numbers:
    "optional_field m ''metro_code'' (read_uint 65535) = Some (metro_code r)"
    "optional_field m ''accuracy_radius'' (read_uint 65535) = Some (accuracy_radius r)"
    "optional_field m ''autonomous_system_number'' (read_uint 4294967295) = Some (autonomous_system_number r)"
    by (rule optional_reads_back [OF uint_back, unfolded option.map_id];
        use ok in \<open>simp add: entry option.map_comp u64_max_def split: option.split\<close>)+
  have doubles:
    "optional_field m ''latitude'' (read_f64 cv) = Some (coordinate_back near (latitude r))"
    "optional_field m ''longitude'' (read_f64 cv) = Some (coordinate_back near (longitude r))"
    by (rule f64_back; simp add: entry option.map_comp)+
  have flag: "Option.bind (map_of m ''is_private'') read_bool = Some (gr_is_private r)"
    by (simp add: entry flag_back split: option.split)
  have extra: "(case map_of m ''extra'' of None \<Rightarrow> Some [] | Some v \<Rightarrow> deserialize_extra_fields v) =
      Some (map (\<lambda>(path, v). (path, value_back near wide v)) (gr_extra r))"
    using extra_reads_back [of "gr_extra r"] fields by (simp add: entry split: option.split)
  show ?thesis
    unfolding m_def [symmetric] using keys
    by (simp add: deserialize_record_def deserialize_map_def names numbers doubles flag extra distinct_filter
        record_back_def)
qed

end

text \<open>One JSON the laws hold of: a double comes back as itself, a wide whole number as zero.\<close>

fun plain_json :: "serde_value \<Rightarrow> serde_value" where
  "plain_json (SF64 f) = (if f64_finite f then SF64 f else SUnit)"
| "plain_json (SU128 n) = (if n \<le> u64_max then SU64 n else SF64 0)"
| "plain_json (SSeq vs) = SSeq (map plain_json vs)"
| "plain_json (SMap m) = SMap (map (\<lambda>(k, v). (k, plain_json v)) m)"
| "plain_json v = v"

interpretation plain: json_text plain_json "\<lambda>f. f" "\<lambda>_. 0"
  by unfold_locales auto

text \<open>A field whose value is a double that is not finite keeps the whole record from being read back:
  JSON writes it as null, which no value of a source field can be.\<close>

lemma lost_field_loses_the_record:
  assumes "json_text reread near wide" and "(path, XFloat f) \<in> set (gr_extra r)" and "\<not> f64_finite f"
  shows "deserialize_record cv (map (\<lambda>(k, v). (k, reread v)) (serialize_record r)) = None"
proof -
  define m where "m = map (\<lambda>(k, v). (k, reread v)) (serialize_record r)"
  have "deserialize_extra_value (reread (serialize_extra_value (XFloat f))) = None"
    using json_text.value_lost [OF assms(1,3)] .
  with assms(2) have lost: "deserialize_extra_fields (reread (serialize_extra_fields (gr_extra r))) = None"
    by (auto simp: serialize_extra_fields_def json_text.map_back [OF assms(1)] intro!: all_read_None)
  have "map_of m ''extra'' = Some (reread (serialize_extra_fields (gr_extra r)))"
    using assms(2) by (auto simp: m_def map_of_map_value serialized_at)
  with lost have "deserialize_map cv m = None"
    by (simp add: deserialize_map_def)
  then show ?thesis by (simp add: deserialize_record_def m_def)
qed

text \<open>C32: a record written as JSON is read back exactly if no source field of it is a double that is not
  finite. Then text, flags and whole numbers within 64 bits come back as they were, under their keys
  and paths and in their order, a double as the parser reads it, a coordinate that is not finite as
  none, and a wider whole number as a double; a record with no such number, and whose doubles the
  parser reads as written, comes back as itself.\<close>

theorem record_reads_back:
  assumes "json_text reread near wide" and "record_ok r"
  shows "deserialize_record cv (map (\<lambda>(k, v). (k, reread v)) (serialize_record r)) =
      (if \<forall>(path, v) \<in> set (gr_extra r). finite_value v then Some (record_back near wide r) else None)
    \<and> (record_kept near r \<longrightarrow>
      deserialize_record cv (map (\<lambda>(k, v). (k, reread v)) (serialize_record r)) = Some r)"
proof -
  have lost: "deserialize_record cv (map (\<lambda>(k, v). (k, reread v)) (serialize_record r)) = None"
    if "\<not> (\<forall>(path, v) \<in> set (gr_extra r). finite_value v)"
  proof -
    from that obtain path v where v: "(path, v) \<in> set (gr_extra r)" "\<not> finite_value v" by auto
    then obtain f where "v = XFloat f" "\<not> f64_finite f" by (cases v) auto
    with v lost_field_loses_the_record [OF assms(1), of path f r cv] show ?thesis by simp
  qed
  have "\<forall>(path, v) \<in> set (gr_extra r). finite_value v" if "record_kept near r"
  proof -
    have "value_kept near v \<Longrightarrow> finite_value v" for v by (cases v) simp_all
    with that show ?thesis by (auto simp: record_kept_def)
  qed
  with lost json_text.record_reads_back_as [OF assms] record_kept_back show ?thesis by auto
qed

definition boxford :: geo_record where
  "boxford = record_default\<lparr> city_name := Some ''Boxford'', latitude := Some 0x4049E00000000000,
     accuracy_radius := Some 100, gr_extra := [(''city.geoname_id'', XUInt 2655045), (''flag'', XBytes ''ab'')] \<rparr>"

theorem record_reads_back_witness:
  "deserialize_record (\<lambda>_. 0) (map (\<lambda>(k, v). (k, plain_json v)) (serialize_record boxford)) = Some boxford
   \<and> deserialize_record (\<lambda>_. 0) (map (\<lambda>(k, v). (k, plain_json v))
       (serialize_record (boxford\<lparr> gr_extra := [(''score'', XFloat 0x7FF8000000000000)] \<rparr>))) = None"
proof -
  have ok: "record_ok boxford" "record_ok (boxford\<lparr> gr_extra := [(''score'', XFloat 0x7FF8000000000000)] \<rparr>)"
    and kept: "record_kept (\<lambda>f. f) boxford"
    by (simp_all add: record_ok_def record_kept_def boxford_def record_default_def f64_finite_def u64_max_def drop_bit_eq_div)
  have "\<not> f64_finite 0x7FF8000000000000" by (simp add: f64_finite_def drop_bit_eq_div)
  then have lost: "\<not> (\<forall>(path, v) \<in> set (gr_extra (boxford\<lparr> gr_extra := [(''score'', XFloat 0x7FF8000000000000)] \<rparr>)). finite_value v)"
    by simp
  show ?thesis
    using record_reads_back [OF plain.json_text_axioms ok(1), of "\<lambda>_. 0", THEN conjunct2, rule_format, OF kept]
      record_reads_back [OF plain.json_text_axioms ok(2), of "\<lambda>_. 0", THEN conjunct1, unfolded if_not_P [OF lost]]
    by (rule conjI)
qed

text \<open>The schema map is the written form laid flat: the same keys in the same order, the source's own behind.\<close>

fun field_written :: "field_value \<Rightarrow> serde_value" where
  "field_written (FStr v) = SStr v"
| "field_written (FFloat v) = SF64 v"
| "field_written (FUInt v) = SU64 v"
| "field_written (FInt v) = SI64 v"
| "field_written (FUInt128 v) = SU128 v"
| "field_written (FBool v) = SBool v"
| "field_written (FBytes v) = SSeq (map (\<lambda>b. SU64 (byte_of b)) v)"

lemma field_written_extra: "field_written (as_field v) = serialize_extra_value v"
  by (cases v) simp_all

lemma written_push:
  "map (apsnd field_written) (push_field fs k (map_option FStr v)) = map (apsnd field_written) fs @ optional_entry k SStr v"
  "map (apsnd field_written) (push_field fs k (map_option FFloat w)) = map (apsnd field_written) fs @ optional_entry k SF64 w"
  "map (apsnd field_written) (push_field fs k (map_option FUInt n)) = map (apsnd field_written) fs @ optional_entry k SU64 n"
  by (simp_all add: push_field_def optional_entry_def split: option.split)

lemma schema_map_is_the_written_form:
  "serialize_record (r\<lparr> gr_extra := [] \<rparr>) @ map (\<lambda>(path, v). (path, serialize_extra_value v)) (gr_extra r)
   = map (apsnd field_written) (to_schema_map r)"
proof -
  have "map (apsnd field_written) (map (\<lambda>(path, v). (path, as_field v)) fs) =
      map (\<lambda>(path, v). (path, serialize_extra_value v)) fs" for fs
    by (auto simp: field_written_extra)
  note extra = this
  show ?thesis
    by (simp add: to_schema_map_def Let_def written_push serialize_record_def del: map_map)
      (rule extra [symmetric])
qed

end
