(* ===== verification/Extra.thy ===== *)
theory Extra
  imports Geo_Record
begin

text \<open>
  \<open>src/geoip/extra.rs\<close>: the fields of a database record the typed decode did not take. A record is
  walked once, each leaf kept under its dotted path until the field or byte bound is reached, and
  the leaves the typed fields hold already are left out. A decoded record is a tree, as the reader
  hands it over one value at a time; a decode the reader gives up, at a broken value or at its own
  limit on what one decode expands, fails at the value it gave up at. The lemmas show that what is
  kept is the longest prefix of the leaves within both bounds.
\<close>

section \<open>A record as the reader hands it over\<close>

text \<open>A map ends, or the next key fails to decode; a value can fail to decode anywhere.\<close>

datatype mmdb_value =
    MBool bool
  | MI64 int
  | MU64 nat
  | MU128 nat
  | MF64 "64 word"
  | MStr str
  | MBytes str
  | MMap "(str \<times> mmdb_value) list" "str option"
  | MSeq "mmdb_value list"
  | MFault str

section \<open>What is kept\<close>

definition MAX_EXTRA_FIELDS :: nat where "MAX_EXTRA_FIELDS = 512"
definition MAX_BYTES :: nat where "MAX_BYTES = 64 * 1024"

record kept =
  kp_fields :: extra_fields
  kp_bytes :: nat
  kp_full :: bool

definition kept_new :: kept where
  "kept_new = \<lparr> kp_fields = [], kp_bytes = 0, kp_full = False \<rparr>"

fun payload :: "extra_value \<Rightarrow> nat" where
  "payload (XStr t) = length t"
| "payload (XBytes b) = length b"
| "payload _ = 0"

definition kept_push :: "kept \<Rightarrow> str \<Rightarrow> extra_value \<Rightarrow> kept" where
  "kept_push k path v =
     (let cost = length path + payload v in
      if MAX_BYTES < kp_bytes k + cost then k\<lparr> kp_full := True \<rparr>
      else let fs = kp_fields k @ [(path, v)] in
        k\<lparr> kp_bytes := kp_bytes k + cost, kp_fields := fs, kp_full := (MAX_EXTRA_FIELDS \<le> length fs) \<rparr>)"

section \<open>The walk\<close>

definition child_path :: "str \<Rightarrow> str \<Rightarrow> str" where
  "child_path path key = (if path = [] then key else path @ ''.'' @ key)"

text \<open>A leaf as the value it is kept as; maps, sequences and failures are none.\<close>

fun leaf_value :: "mmdb_value \<Rightarrow> extra_value option" where
  "leaf_value (MBool b) = Some (XBool b)"
| "leaf_value (MI64 v) = Some (extra_from_i64 v)"
| "leaf_value (MU64 v) = Some (XUInt v)"
| "leaf_value (MU128 v) = Some (extra_from_u128 v)"
| "leaf_value (MF64 v) = Some (XFloat v)"
| "leaf_value (MStr v) = Some (XStr v)"
| "leaf_value (MBytes v) = Some (XBytes v)"
| "leaf_value _ = None"

fun walk_value :: "mmdb_value \<Rightarrow> str \<Rightarrow> kept \<Rightarrow> (str, kept) result"
  and walk_entries :: "(str \<times> mmdb_value) list \<Rightarrow> str option \<Rightarrow> str \<Rightarrow> kept \<Rightarrow> (str, kept) result"
  and walk_elements :: "nat \<Rightarrow> mmdb_value list \<Rightarrow> str \<Rightarrow> kept \<Rightarrow> (str, kept) result" where
  "walk_value (MMap es broken) path k = walk_entries es broken path k"
| "walk_value (MSeq vs) path k = walk_elements 0 vs path k"
| "walk_value (MFault e) path k = Inl e"
| "walk_value v path k = Inr (kept_push k path (the (leaf_value v)))"
| "walk_entries [] broken path k =
     (if kp_full k then Inr k else case broken of None \<Rightarrow> Inr k | Some e \<Rightarrow> Inl e)"
| "walk_entries ((key, v) # es) broken path k =
     (if kp_full k then Inr k
      else and_then (walk_value v (child_path path key) k) (walk_entries es broken path))"
| "walk_elements i [] path k = Inr k"
| "walk_elements i (v # vs) path k =
     (if kp_full k then Inr k
      else and_then (walk_value v (child_path path (show_nat i)) k) (walk_elements (i + 1) vs path))"

definition leaves_of :: "mmdb_value \<Rightarrow> (str, kept) result" where
  "leaves_of v = walk_value v [] kept_new"

section \<open>What the typed decode took\<close>

text \<open>IPinfo writes \<open>AS15169\<close> where every other source writes \<open>15169\<close>.\<close>

definition asn_number :: "str \<Rightarrow> nat option" where
  "asn_number s = parse_uint 4294967295 (case strip_prefix ''AS'' s of Some r \<Rightarrow> r | None \<Rightarrow> s)"

definition subdivision_field :: "str \<Rightarrow> str option" where
  "subdivision_field path =
     (case strip_prefix ''subdivisions.'' path of
        None \<Rightarrow> None
      | Some rest \<Rightarrow>
          (case split_once ''.'' rest of
             None \<Rightarrow> None
           | Some (index, field) \<Rightarrow> if list_all is_digit index then Some field else None))"

definition is_str :: "extra_value \<Rightarrow> str option \<Rightarrow> bool" where
  "is_str v held = (case (extra_as_str v, held) of (Some a, Some b) \<Rightarrow> a = b | _ \<Rightarrow> False)"

definition is_uint :: "extra_value \<Rightarrow> nat option \<Rightarrow> bool" where
  "is_uint v held = (case (v, held) of (XUInt a, Some b) \<Rightarrow> a = b | _ \<Rightarrow> False)"

text \<open>Bit for bit.\<close>

definition is_float :: "extra_value \<Rightarrow> 64 word option \<Rightarrow> bool" where
  "is_float v held = (case (v, held) of (XFloat a, Some b) \<Rightarrow> a = b | _ \<Rightarrow> False)"

definition typed :: "str \<Rightarrow> extra_value \<Rightarrow> geo_record \<Rightarrow> bool" where
  "typed path v r =
     (if path = ''city.names.en'' then is_str v (city_name r)
      else if path = ''continent.code'' \<or> path = ''continent_code'' then is_str v (continent_code r)
      else if path = ''continent.names.en'' \<or> path = ''continent'' then is_str v (continent_name r)
      else if path = ''country.iso_code'' \<or> path = ''country_code'' then is_str v (country_code r)
      else if path = ''country.names.en'' \<or> path = ''country'' then is_str v (country_name r)
      else if path = ''postal.code'' then is_str v (postal_code r)
      else if path = ''location.time_zone'' then is_str v (timezone r)
      else if path = ''location.latitude'' then is_float v (latitude r)
      else if path = ''location.longitude'' then is_float v (longitude r)
      else if path = ''location.metro_code'' then is_uint v (metro_code r)
      else if path = ''location.accuracy_radius'' then is_uint v (accuracy_radius r)
      else if path = ''autonomous_system_number'' then is_uint v (autonomous_system_number r)
      else if path = ''autonomous_system_organization'' \<or> path = ''as_name''
      then is_str v (autonomous_system_organization r)
      else if path = ''as_domain'' then is_str v (as_domain r)
      else if path = ''asn''
      then autonomous_system_number r \<noteq> None
           \<and> Option.bind (extra_as_str v) asn_number = autonomous_system_number r
      else case subdivision_field path of
        Some f \<Rightarrow>
          if f = ''names.en'' then is_str v (region_name r)
          else if f = ''iso_code'' then is_str v (region_code r) else False
      | None \<Rightarrow> False)"

text \<open>The leaves pushed one after the other, each unless the typed fields hold it.\<close>

fun push_untyped :: "extra_fields \<Rightarrow> geo_record \<Rightarrow> geo_record" where
  "push_untyped [] r = r"
| "push_untyped ((path, v) # ls) r =
     push_untyped ls (if typed path v r then r else r\<lparr> gr_extra := extra_push (gr_extra r) path v \<rparr>)"

text \<open>\<open>decoded\<close> is what the schema-less decode of the matched record yields: nothing, or the record's tree.\<close>

definition collect_extra :: "(str, mmdb_value option) result \<Rightarrow> geo_record \<Rightarrow> geo_record" where
  "collect_extra decoded r =
     (case decoded of
        Inl e \<Rightarrow> r
      | Inr None \<Rightarrow> r
      | Inr (Some v) \<Rightarrow> (case leaves_of v of Inl e \<Rightarrow> r | Inr k \<Rightarrow> push_untyped (kp_fields k) r))"

section \<open>What is kept of a record\<close>

text \<open>Every leaf of a record under its path, in the order it is written: what an unbounded walk keeps.\<close>

fun all_leaves :: "mmdb_value \<Rightarrow> str \<Rightarrow> extra_fields"
  and entry_leaves :: "(str \<times> mmdb_value) list \<Rightarrow> str \<Rightarrow> extra_fields"
  and element_leaves :: "nat \<Rightarrow> mmdb_value list \<Rightarrow> str \<Rightarrow> extra_fields" where
  "all_leaves (MMap es broken) path = entry_leaves es path"
| "all_leaves (MSeq vs) path = element_leaves 0 vs path"
| "all_leaves (MFault e) path = []"
| "all_leaves v path = [(path, the (leaf_value v))]"
| "entry_leaves [] path = []"
| "entry_leaves ((key, v) # es) path = all_leaves v (child_path path key) @ entry_leaves es path"
| "element_leaves i [] path = []"
| "element_leaves i (v # vs) path = all_leaves v (child_path path (show_nat i)) @ element_leaves (i + 1) vs path"

fun sound :: "mmdb_value \<Rightarrow> bool"
  and sound_entries :: "(str \<times> mmdb_value) list \<Rightarrow> bool"
  and sound_elements :: "mmdb_value list \<Rightarrow> bool" where
  "sound (MMap es broken) \<longleftrightarrow> broken = None \<and> sound_entries es"
| "sound (MSeq vs) \<longleftrightarrow> sound_elements vs"
| "sound (MFault e) \<longleftrightarrow> False"
| "sound v \<longleftrightarrow> True"
| "sound_entries [] \<longleftrightarrow> True"
| "sound_entries ((key, v) # es) \<longleftrightarrow> sound v \<and> sound_entries es"
| "sound_elements [] \<longleftrightarrow> True"
| "sound_elements (v # vs) \<longleftrightarrow> sound v \<and> sound_elements vs"

text \<open>Leaves handed over until a bound is reached.\<close>

fun feed :: "extra_fields \<Rightarrow> kept \<Rightarrow> kept" where
  "feed [] k = k"
| "feed ((path, v) # ls) k = (if kp_full k then k else feed ls (kept_push k path v))"

lemma feed_full [simp]: "kp_full k \<Longrightarrow> feed ls k = k"
  by (cases ls) auto

lemma feed_append: "feed (ls @ ls') k = feed ls' (feed ls k)"
  by (induction ls k rule: feed.induct) auto

lemma walk_feeds:
  "sound v \<Longrightarrow> \<not> kp_full k \<Longrightarrow> walk_value v path k = Inr (feed (all_leaves v path) k)"
  "sound_entries es \<Longrightarrow> walk_entries es None path k = Inr (feed (entry_leaves es path) k)"
  "sound_elements vs \<Longrightarrow> walk_elements i vs path k = Inr (feed (element_leaves i vs path) k)"
proof (induction v path and es path and i vs path arbitrary: k and k and k
    rule: all_leaves_entry_leaves_element_leaves.induct)
  case (6 key v es path)
  then show ?case by (cases "kp_full k") (auto simp: feed_append)
next
  case (8 i v vs path)
  then show ?case by (cases "kp_full k") (auto simp: feed_append)
qed auto

text \<open>What keeping leaves costs.\<close>

definition leaf_cost :: "str \<times> extra_value \<Rightarrow> nat" where
  "leaf_cost l = length (fst l) + payload (snd l)"

definition leaves_cost :: "extra_fields \<Rightarrow> nat" where
  "leaves_cost ls = sum_list (map leaf_cost ls)"

definition kept_ok :: "kept \<Rightarrow> bool" where
  "kept_ok k \<longleftrightarrow>
     kp_bytes k = leaves_cost (kp_fields k) \<and> kp_bytes k \<le> MAX_BYTES
     \<and> length (kp_fields k) \<le> MAX_EXTRA_FIELDS \<and> (\<not> kp_full k \<longrightarrow> length (kp_fields k) < MAX_EXTRA_FIELDS)"

lemma kept_push_ok: "kept_ok k \<Longrightarrow> \<not> kp_full k \<Longrightarrow> kept_ok (kept_push k path v)"
  by (auto simp: kept_ok_def kept_push_def Let_def leaves_cost_def leaf_cost_def)

lemma feed_prefix:
  assumes "kept_ok k"
  shows "\<exists>n \<le> length ls. kept_ok (feed ls k) \<and> kp_fields (feed ls k) = kp_fields k @ take n ls
    \<and> (n < length ls \<longrightarrow> kp_full k \<or> length (kp_fields k) + n = MAX_EXTRA_FIELDS
         \<or> MAX_BYTES < leaves_cost (kp_fields k @ take (Suc n) ls))"
  using assms
proof (induction ls k rule: feed.induct)
  case (2 path v ls k)
  show ?case
  proof (cases "kp_full k")
    case True
    with 2(2) show ?thesis by (intro exI [of _ 0]) simp
  next
    case False
    let ?k = "kept_push k path v"
    have ok: "kept_ok ?k" using kept_push_ok [OF 2(2) False] .
    show ?thesis
    proof (cases "MAX_BYTES < kp_bytes k + leaf_cost (path, v)")
      case True
      then have "kp_full ?k" "kp_fields ?k = kp_fields k"
        by (simp_all add: kept_push_def Let_def leaf_cost_def)
      with True False ok 2(2) show ?thesis
        by (intro exI [of _ 0]) (simp add: kept_ok_def leaves_cost_def)
    next
      case fits: False
      then have grown: "kp_fields ?k = kp_fields k @ [(path, v)]"
        and full: "kp_full ?k \<longleftrightarrow> MAX_EXTRA_FIELDS \<le> Suc (length (kp_fields k))"
        by (simp_all add: kept_push_def Let_def leaf_cost_def)
      from 2(1) [OF False ok] obtain n where n: "n \<le> length ls" "kept_ok (feed ls ?k)"
        "kp_fields (feed ls ?k) = kp_fields ?k @ take n ls"
        "n < length ls \<longrightarrow> kp_full ?k \<or> length (kp_fields ?k) + n = MAX_EXTRA_FIELDS
          \<or> MAX_BYTES < leaves_cost (kp_fields ?k @ take (Suc n) ls)" by blast
      have "kp_full ?k \<Longrightarrow> length (kp_fields ?k) = MAX_EXTRA_FIELDS"
        using ok full grown by (auto simp: kept_ok_def)
      moreover have "kp_full ?k \<Longrightarrow> n = 0 \<or> ls = []"
        using n(3) by (cases n) auto
      ultimately show ?thesis
        using n False grown by (intro exI [of _ "Suc n"]) auto
    qed
  qed
qed simp

text \<open>C30: of a record that decodes, the walk keeps the longest prefix of its leaves, each under its dotted
  path and in the order written, that holds no more than the field bound and costs no more than the
  byte bound.\<close>

theorem longest_prefix_of_leaves_is_kept:
  assumes "sound v" and "leaves_of v = Inr k"
  shows "\<exists>n \<le> length (all_leaves v []). kp_fields k = take n (all_leaves v [])
    \<and> n \<le> MAX_EXTRA_FIELDS \<and> leaves_cost (take n (all_leaves v [])) \<le> MAX_BYTES
    \<and> (n < length (all_leaves v []) \<longrightarrow>
         n = MAX_EXTRA_FIELDS \<or> MAX_BYTES < leaves_cost (take (Suc n) (all_leaves v [])))"
proof -
  have k: "k = feed (all_leaves v []) kept_new"
    using assms walk_feeds(1) [OF assms(1), of kept_new "[]"] by (simp add: leaves_of_def kept_new_def)
  have "kept_ok kept_new" by (simp add: kept_ok_def kept_new_def leaves_cost_def MAX_EXTRA_FIELDS_def)
  from feed_prefix [OF this, of "all_leaves v []"] k show ?thesis
    by (auto simp: kept_ok_def kept_new_def)
qed

lemma leaves_cost_append: "leaves_cost (a @ b) = leaves_cost a + leaves_cost b"
  by (simp add: leaves_cost_def)

theorem longest_prefix_of_leaves_is_kept_witness:
  "\<exists>k. leaves_of (MMap [(''names'', MMap [(''en'', MStr ''Boxford'')] None), (''ids'', MSeq [MU64 7, MI64 (- 1)])] None) = Inr k
     \<and> kp_fields k = [(''names.en'', XStr ''Boxford''), (''ids.0'', XUInt 7), (''ids.1'', XInt (- 1))]"
proof -
  let ?v = "MMap [(''names'', MMap [(''en'', MStr ''Boxford'')] None), (''ids'', MSeq [MU64 7, MI64 (- 1)])] None"
  have shown: "show_nat 0 = ''0''" "show_nat (Suc 0) = ''1''"
    by (simp_all add: show_nat.simps digit_def char_of_def bit_0)
  have leaves: "all_leaves ?v [] = [(''names.en'', XStr ''Boxford''), (''ids.0'', XUInt 7), (''ids.1'', XInt (- 1))]"
    by (simp add: child_path_def shown extra_from_i64_def)
  obtain k where k: "leaves_of ?v = Inr k"
    using walk_feeds(1) [of ?v kept_new "[]"] by (auto simp: leaves_of_def kept_new_def)
  define ls where "ls = all_leaves ?v []"
  have "sound ?v" by simp
  from longest_prefix_of_leaves_is_kept [OF this k] obtain n where n: "n \<le> length ls" "kp_fields k = take n ls"
    "n < length ls \<longrightarrow> n = MAX_EXTRA_FIELDS \<or> MAX_BYTES < leaves_cost (take (Suc n) ls)"
    unfolding ls_def by blast
  have "leaves_cost (take m ls) \<le> leaves_cost ls" for m
    using leaves_cost_append [of "take m ls" "drop m ls"] by simp
  moreover have "leaves_cost ls \<le> MAX_BYTES" "length ls < MAX_EXTRA_FIELDS"
    unfolding ls_def leaves by (simp_all add: leaves_cost_def leaf_cost_def MAX_BYTES_def MAX_EXTRA_FIELDS_def)
  ultimately have "\<not> n < length ls" using n by (metis le_trans less_irrefl not_le)
  with n k leaves show ?thesis unfolding ls_def by auto
qed

section \<open>What is added to a record\<close>

lemma kept_new_ok: "kept_ok kept_new"
  by (simp add: kept_ok_def kept_new_def leaves_cost_def MAX_EXTRA_FIELDS_def)

lemma walk_ok:
  "walk_value v path k = Inr k' \<Longrightarrow> kept_ok k \<Longrightarrow> \<not> kp_full k \<Longrightarrow> kept_ok k'"
  "walk_entries es broken path k = Inr k' \<Longrightarrow> kept_ok k \<Longrightarrow> kept_ok k'"
  "walk_elements i vs path k = Inr k' \<Longrightarrow> kept_ok k \<Longrightarrow> kept_ok k'"
proof (induction v path k and es broken path k and i vs path k arbitrary: k' and k' and k'
    rule: walk_value_walk_entries_walk_elements.induct)
qed (auto simp: and_then_Inr_iff kept_push_ok split: if_splits option.splits)

lemma leaves_of_ok: "leaves_of v = Inr k \<Longrightarrow> kept_ok k"
  using walk_ok(1) [of v "[]" kept_new k] kept_new_ok by (simp add: leaves_of_def kept_new_def)

lemma typed_extra_irrelevant [simp]: "typed path v (r\<lparr> gr_extra := x \<rparr>) = typed path v r"
  by (simp add: typed_def split: option.split)

lemma push_untyped_filter:
  "push_untyped ls r = r\<lparr> gr_extra := gr_extra r @ filter (\<lambda>(path, v). \<not> typed path v r) ls \<rparr>"
  by (induction ls r rule: push_untyped.induct) (auto simp: extra_push_def)

lemma leaves_cost_filter: "leaves_cost (filter p ls) \<le> leaves_cost ls"
  by (induction ls) (auto simp: leaves_cost_def)

lemma collect_extra_adds:
  "\<exists>added. collect_extra decoded r = r\<lparr> gr_extra := gr_extra r @ added \<rparr>
     \<and> length added \<le> MAX_EXTRA_FIELDS \<and> leaves_cost added \<le> MAX_BYTES
     \<and> list_all (\<lambda>(path, v). \<not> typed path v r) added"
proof (cases "\<exists>v k. decoded = Inr (Some v) \<and> leaves_of v = Inr k")
  case True
  then obtain v k where v: "decoded = Inr (Some v)" "leaves_of v = Inr k" by blast
  let ?added = "filter (\<lambda>(path, v). \<not> typed path v r) (kp_fields k)"
  have "kept_ok k" using leaves_of_ok [OF v(2)] .
  then have "length ?added \<le> MAX_EXTRA_FIELDS" "leaves_cost ?added \<le> MAX_BYTES"
    using le_trans [OF length_filter_le] leaves_cost_filter [of "\<lambda>(path, v). \<not> typed path v r" "kp_fields k"]
    by (auto simp: kept_ok_def)
  with v show ?thesis
    by (intro exI [of _ ?added]) (auto simp: collect_extra_def push_untyped_filter list_all_iff)
next
  case False
  then have "collect_extra decoded r = r" by (auto simp: collect_extra_def split: sum.split option.split)
  then show ?thesis by (intro exI [of _ "[]"]) (simp add: leaves_cost_def)
qed

text \<open>Whatever a record decodes to, collecting leaves the typed fields as they are and adds, behind the
  fields already there, no field a typed one holds and no more fields or bytes than the bounds.\<close>

theorem collecting_is_bounded:
  "\<exists>added. collect_extra decoded r = r\<lparr> gr_extra := gr_extra r @ added \<rparr>
     \<and> length added \<le> MAX_EXTRA_FIELDS \<and> leaves_cost added \<le> MAX_BYTES
     \<and> list_all (\<lambda>(path, v). \<not> typed path v r) added"
  by (rule collect_extra_adds)

section \<open>What the bounds do not stop\<close>

text \<open>The values the walk asks the reader for: one for each entry or element it goes into.\<close>

fun asks_value :: "mmdb_value \<Rightarrow> str \<Rightarrow> kept \<Rightarrow> nat"
  and asks_entries :: "(str \<times> mmdb_value) list \<Rightarrow> str \<Rightarrow> kept \<Rightarrow> nat"
  and asks_elements :: "nat \<Rightarrow> mmdb_value list \<Rightarrow> str \<Rightarrow> kept \<Rightarrow> nat" where
  "asks_value (MMap es broken) path k = asks_entries es path k"
| "asks_value (MSeq vs) path k = asks_elements 0 vs path k"
| "asks_value v path k = 0"
| "asks_entries [] path k = 0"
| "asks_entries ((key, v) # es) path k =
     (if kp_full k then 0
      else 1 + asks_value v (child_path path key) k
        + (case walk_value v (child_path path key) k of Inl e \<Rightarrow> 0 | Inr k' \<Rightarrow> asks_entries es path k'))"
| "asks_elements i [] path k = 0"
| "asks_elements i (v # vs) path k =
     (if kp_full k then 0
      else 1 + asks_value v (child_path path (show_nat i)) k
        + (case walk_value v (child_path path (show_nat i)) k of
             Inl e \<Rightarrow> 0 | Inr k' \<Rightarrow> asks_elements (i + 1) vs path k'))"

end
