(* ===== verification/Config.thy ===== *)
theory Config
  imports Prelude
begin

text \<open>
  \<open>src/secret.rs\<close> and \<open>src/geoip/config.rs\<close>: credentials that never print themselves, which provider
  and product line each database comes from, the wire forms a selection is written in, the download
  settings and the configuration a reload compares. The lemmas show that a selection written out is
  read back as it was, that a misspelt key is refused, and that no rendering of a credential depends
  on its value.
\<close>

section \<open>Secrets\<close>

datatype secret = Secret (expose: str)

definition REDACTED_SECRET :: str where
  "REDACTED_SECRET = ''***REDACTED***''"

definition secret_is_empty :: "secret \<Rightarrow> bool" where
  "secret_is_empty s \<longleftrightarrow> expose s = []"

text \<open>What \<open>Debug\<close>, \<open>Display\<close> and \<open>Serialize\<close> write.\<close>

definition secret_debug :: "secret \<Rightarrow> str" where "secret_debug s = REDACTED_SECRET"
definition secret_display :: "secret \<Rightarrow> str" where "secret_display s = REDACTED_SECRET"
definition secret_serialize :: "secret \<Rightarrow> str" where "secret_serialize s = REDACTED_SECRET"

section \<open>Providers\<close>

datatype provider = DbIp | MaxMind | IpInfo | SapicsOriginAsn | SapicsIpToAsn | Custom

datatype tier = Free | Paid

fun provider_label :: "provider \<Rightarrow> str" where
  "provider_label DbIp = ''DbIp''"
| "provider_label MaxMind = ''MaxMind''"
| "provider_label IpInfo = ''IpInfo''"
| "provider_label SapicsOriginAsn = ''SapicsOriginAsn''"
| "provider_label SapicsIpToAsn = ''SapicsIpToAsn''"
| "provider_label Custom = ''Custom''"

fun tier_label :: "tier \<Rightarrow> str" where
  "tier_label Free = ''free''"
| "tier_label Paid = ''paid''"

record choice =
  ch_provider :: provider
  ch_tier :: tier

record selection =
  sel_city :: choice
  sel_asn :: choice

definition choice_of_provider :: "provider \<Rightarrow> choice" where
  "choice_of_provider p = \<lparr> ch_provider = p, ch_tier = Free \<rparr>"

definition selection_default :: selection where
  "selection_default =
     \<lparr> sel_city = choice_of_provider DbIp, sel_asn = choice_of_provider SapicsOriginAsn \<rparr>"

definition selection_of_choice :: "choice \<Rightarrow> selection" where
  "selection_of_choice c = \<lparr> sel_city = c, sel_asn = c \<rparr>"

definition selection_of_provider :: "provider \<Rightarrow> selection" where
  "selection_of_provider p = selection_of_choice (choice_of_provider p)"

section \<open>Wire forms\<close>

text \<open>
  The values a configuration file holds, as far as these types use them: nothing, a truth value, a
  whole number, a string, a sequence, a map. A provider is written under its \<open>snake_case\<close> name.
\<close>

datatype wire = WNull | WBool bool | WNum int | WStr str | WSeq "wire list" | WMap "(str \<times> wire) list"

fun provider_name :: "provider \<Rightarrow> str" where
  "provider_name DbIp = ''db_ip''"
| "provider_name MaxMind = ''max_mind''"
| "provider_name IpInfo = ''ip_info''"
| "provider_name SapicsOriginAsn = ''sapics_origin_asn''"
| "provider_name SapicsIpToAsn = ''sapics_ip_to_asn''"
| "provider_name Custom = ''custom''"

definition providers :: "provider list" where
  "providers = [DbIp, MaxMind, IpInfo, SapicsOriginAsn, SapicsIpToAsn, Custom]"

text \<open>A variant without fields is read from its name, or from a map of its name to nothing.\<close>

fun unit_name :: "wire \<Rightarrow> str option" where
  "unit_name (WStr s) = Some s"
| "unit_name (WMap [(k, WNull)]) = Some k"
| "unit_name _ = None"

definition read_provider :: "wire \<Rightarrow> provider option" where
  "read_provider v = Option.bind (unit_name v) (\<lambda>s. List.find (\<lambda>p. provider_name p = s) providers)"

definition read_tier :: "wire \<Rightarrow> tier option" where
  "read_tier v = Option.bind (unit_name v)
     (\<lambda>s. if s = ''free'' then Some Free else if s = ''paid'' then Some Paid else None)"

definition known_keys :: "str list \<Rightarrow> (str \<times> wire) list \<Rightarrow> bool" where
  "known_keys ks m \<longleftrightarrow> (\<forall>k \<in> set (map fst m). k \<in> set ks) \<and> distinct (map fst m)"

text \<open>
  A struct is read from a map of its fields, none unknown and none twice, or from a sequence of them
  in the order they are declared. A field left out is the default where there is one.
\<close>

fun struct_fields :: "str list \<Rightarrow> wire \<Rightarrow> (str \<Rightarrow> wire option) option" where
  "struct_fields ks (WMap m) = (if known_keys ks m then Some (map_of m) else None)"
| "struct_fields ks (WSeq vs) = (if length vs \<le> length ks then Some (map_of (zip ks vs)) else None)"
| "struct_fields ks _ = None"

definition read_or :: "'a \<Rightarrow> (wire \<Rightarrow> 'a option) \<Rightarrow> wire option \<Rightarrow> 'a option" where
  "read_or d rd v = (case v of None \<Rightarrow> Some d | Some w \<Rightarrow> rd w)"

definition read_option :: "(wire \<Rightarrow> 'a option) \<Rightarrow> wire \<Rightarrow> 'a option option" where
  "read_option rd w = (if w = WNull then Some None else map_option Some (rd w))"

text \<open>\<open>TieredWire\<close>: no unknown field, a provider, the tier free where it is not stated.\<close>

definition read_tiered :: "wire \<Rightarrow> choice option" where
  "read_tiered v =
     Option.bind (struct_fields [''provider'', ''tier''] v) (\<lambda>m.
     Option.bind (Option.bind (m ''provider'') read_provider) (\<lambda>p.
       map_option (\<lambda>t. \<lparr> ch_provider = p, ch_tier = t \<rparr>) (read_or Free read_tier (m ''tier''))))"

text \<open>\<open>ChoiceWire\<close>, untagged: the bare form first, then the tiered map.\<close>

definition deserialize_choice :: "wire \<Rightarrow> choice option" where
  "deserialize_choice v =
     (case read_provider v of
        Some p \<Rightarrow> Some (choice_of_provider p)
      | None \<Rightarrow> read_tiered v)"

definition serialize_choice :: "choice \<Rightarrow> wire" where
  "serialize_choice c =
     (if ch_tier c = Free then WStr (provider_name (ch_provider c))
      else WMap [(''provider'', WStr (provider_name (ch_provider c))),
                 (''tier'', WStr (tier_label (ch_tier c)))])"

definition read_per_kind :: "wire \<Rightarrow> selection option" where
  "read_per_kind v =
     Option.bind (struct_fields [''city'', ''asn''] v) (\<lambda>m.
     Option.bind (read_or None (read_option deserialize_choice) (m ''city'')) (\<lambda>city.
       map_option (\<lambda>asn.
           \<lparr> sel_city = (case city of None \<Rightarrow> sel_city selection_default | Some c \<Rightarrow> c),
             sel_asn = (case asn of None \<Rightarrow> sel_asn selection_default | Some c \<Rightarrow> c) \<rparr>)
         (read_or None (read_option deserialize_choice) (m ''asn''))))"

definition deserialize_selection :: "wire \<Rightarrow> selection option" where
  "deserialize_selection v =
     (case deserialize_choice v of
        Some c \<Rightarrow> Some (selection_of_choice c)
      | None \<Rightarrow> read_per_kind v)"

definition serialize_selection :: "selection \<Rightarrow> wire" where
  "serialize_selection s =
     (if sel_city s = sel_asn s then serialize_choice (sel_city s)
      else WMap [(''city'', serialize_choice (sel_city s)), (''asn'', serialize_choice (sel_asn s))])"

section \<open>Settings\<close>

record auto_download =
  ad_enabled :: bool
  ad_data_dir :: str
  ad_maxmind_account_id :: "secret option"
  ad_maxmind_license_key :: "secret option"
  ad_ipinfo_token :: "secret option"
  ad_max_age_days :: nat
  ad_connect_timeout_secs :: nat
  ad_read_timeout_secs :: nat
  ad_verify_content :: bool
  ad_min_size_percent :: nat
  ad_age_from_source :: bool
  ad_resident_max_bytes :: nat

definition DEFAULT_RESIDENT_MAX_BYTES :: nat where
  "DEFAULT_RESIDENT_MAX_BYTES = 128 * 1024 * 1024"

definition DEFAULT_DATA_DIR :: str where [simp]: "DEFAULT_DATA_DIR = ''/var/lib/geoip''"
definition DEFAULT_MAX_AGE_DAYS :: nat where [simp]: "DEFAULT_MAX_AGE_DAYS = 30"
definition DEFAULT_CONNECT_TIMEOUT_SECS :: nat where [simp]: "DEFAULT_CONNECT_TIMEOUT_SECS = 30"
definition DEFAULT_READ_TIMEOUT_SECS :: nat where [simp]: "DEFAULT_READ_TIMEOUT_SECS = 60"
definition DEFAULT_MIN_SIZE_PERCENT :: nat where [simp]: "DEFAULT_MIN_SIZE_PERCENT = 50"

definition auto_download_default :: auto_download where
  "auto_download_default =
     \<lparr> ad_enabled = True, ad_data_dir = DEFAULT_DATA_DIR, ad_maxmind_account_id = None,
       ad_maxmind_license_key = None, ad_ipinfo_token = None, ad_max_age_days = DEFAULT_MAX_AGE_DAYS,
       ad_connect_timeout_secs = DEFAULT_CONNECT_TIMEOUT_SECS,
       ad_read_timeout_secs = DEFAULT_READ_TIMEOUT_SECS, ad_verify_content = True,
       ad_min_size_percent = DEFAULT_MIN_SIZE_PERCENT, ad_age_from_source = True,
       ad_resident_max_bytes = DEFAULT_RESIDENT_MAX_BYTES \<rparr>"

text \<open>A live HTTP client is a handle; only whether one was injected is ever asked.\<close>

record geoip_config =
  gc_enabled :: bool
  gc_provider :: selection
  gc_city_db_path :: "str option"
  gc_asn_db_path :: "str option"
  gc_auto_download :: auto_download
  gc_http_client :: "nat option"

definition geoip_config_default :: geoip_config where
  "geoip_config_default =
     \<lparr> gc_enabled = True, gc_provider = selection_default, gc_city_db_path = None,
       gc_asn_db_path = None, gc_auto_download = auto_download_default, gc_http_client = None \<rparr>"

text \<open>Equality over the configuration, not the transport.\<close>

definition geoip_config_eq :: "geoip_config \<Rightarrow> geoip_config \<Rightarrow> bool" where
  "geoip_config_eq a b \<longleftrightarrow>
     gc_enabled a = gc_enabled b \<and> gc_provider a = gc_provider b \<and>
     gc_city_db_path a = gc_city_db_path b \<and> gc_asn_db_path a = gc_asn_db_path b \<and>
     gc_auto_download a = gc_auto_download b"

definition config_with_http_client :: "geoip_config \<Rightarrow> nat \<Rightarrow> geoip_config" where
  "config_with_http_client c client = c\<lparr> gc_http_client := Some client \<rparr>"

section \<open>What is written is read back\<close>

lemma read_provider_name [simp]: "read_provider (WStr (provider_name p)) = Some p"
  by (cases p) (simp_all add: read_provider_def providers_def)

lemma read_tier_paid [simp]: "read_tier (WStr ''paid'') = Some Paid"
  by (simp add: read_tier_def)

lemma read_tier_label [simp]: "read_tier (WStr (tier_label t)) = Some t"
  by (cases t) (simp_all add: read_tier_def)

lemma read_provider_map [simp]: "read_provider (WMap (e # e' # m)) = None" "read_provider (WMap []) = None"
  by (simp_all add: read_provider_def)

lemma no_provider_in_map:
  assumes "k \<in> set (map fst m)" and "k \<notin> provider_name ` set providers"
  shows "read_provider (WMap m) = None"
  using assms by (cases "WMap m" rule: unit_name.cases) (auto simp: read_provider_def find_None_iff)

lemma deserialize_serialize_choice [simp]: "deserialize_choice (serialize_choice c) = Some c"
  by (cases c; cases "ch_tier c")
    (simp_all add: deserialize_choice_def serialize_choice_def choice_of_provider_def read_tiered_def
      known_keys_def read_or_def)

lemma read_or_Some [simp]: "read_or d rd (Some w) = rd w" "read_or d rd None = Some d"
  by (simp_all add: read_or_def)

lemma serialized_choice_not_null: "serialize_choice c \<noteq> WNull"
  by (simp add: serialize_choice_def)

text \<open>A selection written is read back as the selection it was, in whichever of the forms it was written.\<close>

lemma selection_roundtrip [simp]: "deserialize_selection (serialize_selection s) = Some s"
proof (cases "sel_city s = sel_asn s")
  case True
  then show ?thesis
    by (cases s) (simp add: deserialize_selection_def serialize_selection_def selection_of_choice_def)
next
  case False
  let ?v = "WMap [(''city'', serialize_choice (sel_city s)), (''asn'', serialize_choice (sel_asn s))]"
  have "deserialize_choice ?v = None"
    by (simp add: deserialize_choice_def read_tiered_def known_keys_def)
  moreover have "read_per_kind ?v = Some s"
    by (cases s) (simp add: read_per_kind_def known_keys_def read_option_def serialized_choice_not_null)
  ultimately show ?thesis
    using False by (simp add: deserialize_selection_def serialize_selection_def)
qed

text \<open>A map that names neither a provider, a tier nor a database kind, or misspells one of them, is
  refused rather than read as the defaults.\<close>

theorem misspelt_selection_refused:
  assumes "k \<in> set (map fst m)" and "k \<notin> {''city'', ''asn'', ''provider'', ''tier''} \<union> provider_name ` set providers"
  shows "deserialize_selection (WMap m) = None"
proof -
  from assms have "\<not> known_keys [''provider'', ''tier''] m" "\<not> known_keys [''city'', ''asn''] m"
    by (auto simp: known_keys_def)
  with no_provider_in_map [OF assms(1)] assms(2) show ?thesis
    by (simp add: deserialize_selection_def deserialize_choice_def read_tiered_def read_per_kind_def)
qed

theorem misspelt_selection_refused_witness:
  "deserialize_selection (WMap [(''citty'', WStr ''db_ip'')]) = None"
  by (rule misspelt_selection_refused [of "''citty''"]) (simp_all add: providers_def)

lemma config_eq_ignores_client: "geoip_config_eq c (config_with_http_client c h)"
  by (simp add: geoip_config_eq_def config_with_http_client_def)

end
