(* ===== verification/World.thy ===== *)
theory World
  imports Download_Error
begin

text \<open>
  What acquisition acts on: the files of the data directory with their contents and modification
  times, the clock, and the two process-wide tables of \<open>src/geoip/download/cooldown.rs\<close>. A path is
  the text it displays as. A file operation may fail, for a reason the caller of the model chooses;
  one that fails changes nothing.
\<close>

section \<open>State\<close>

record file_state =
  content :: str
  mtime :: nat

text \<open>One permanent failure, and the configuration it failed under.\<close>

record suppression =
  sup_fingerprint :: nat
  sup_until :: nat
  sup_reason :: str
  sup_announced :: bool

record world =
  files :: "str \<Rightarrow> file_state option"
  clock :: nat \<comment> \<open>seconds since the epoch\<close>
  suppressions :: "str \<Rightarrow> suppression option"
  announced :: "(str \<times> nat) list"

section \<open>File operations\<close>

datatype io_op =
    CreateDir str
  | OpenLock str
  | OpenFile str
  | CreateFile str
  | ReadFile str
  | WriteFile str
  | Rename str str
  | Remove str
  | Sync str
  | Metadata str

text \<open>Which operations fail, and what the failure displays as.\<close>

type_synonym io_faults = "io_op \<Rightarrow> str option"

definition no_faults :: io_faults where
  "no_faults = (\<lambda>_. None)"

definition put_file :: "world \<Rightarrow> str \<Rightarrow> str \<Rightarrow> world" where
  "put_file w p bs = w\<lparr> files := (files w)(p \<mapsto> \<lparr> content = bs, mtime = clock w \<rparr>) \<rparr>"

definition remove_file :: "world \<Rightarrow> str \<Rightarrow> world" where
  "remove_file w p = w\<lparr> files := (files w)(p := None) \<rparr>"

text \<open>\<open>let _ = fs::remove_file(..)\<close>: a removal whose failure is let pass.\<close>

definition try_remove :: "io_faults \<Rightarrow> world \<Rightarrow> str \<Rightarrow> world" where
  "try_remove F w p = (if F (Remove p) = None then remove_file w p else w)"

definition rename_file :: "world \<Rightarrow> str \<Rightarrow> str \<Rightarrow> world" where
  "rename_file w p q = w\<lparr> files := ((files w)(p := None))(q := files w p) \<rparr>"

definition file_exists :: "world \<Rightarrow> str \<Rightarrow> bool" where
  "file_exists w p \<longleftrightarrow> files w p \<noteq> None"

definition no_entry :: str where
  "no_entry = ''No such file or directory (os error 2)''"

text \<open>Opening a file to read it whole, and the length \<open>metadata\<close> reports.\<close>

definition read_content :: "io_faults \<Rightarrow> world \<Rightarrow> str \<Rightarrow> (str, str) result" where
  "read_content F w p =
     (case F (ReadFile p) of
        Some e \<Rightarrow> Inl e
      | None \<Rightarrow> (case files w p of None \<Rightarrow> Inl no_entry | Some f \<Rightarrow> Inr (content f)))"

definition file_length :: "io_faults \<Rightarrow> world \<Rightarrow> str \<Rightarrow> (str, nat) result" where
  "file_length F w p =
     (case F (Metadata p) of
        Some e \<Rightarrow> Inl e
      | None \<Rightarrow> (case files w p of None \<Rightarrow> Inl no_entry | Some f \<Rightarrow> Inr (length (content f))))"

text \<open>A sibling of a path: an extension is appended, never put in place of one.\<close>

definition with_extension :: "str \<Rightarrow> str \<Rightarrow> str" where
  "with_extension path ext = path @ ''.'' @ ext"

lemma with_extension_inj [simp]: "with_extension p e = with_extension p e' \<longleftrightarrow> e = e'"
  by (simp add: with_extension_def)

lemma with_extension_neq [simp]: "with_extension p e \<noteq> p" "p \<noteq> with_extension p e"
  by (simp_all add: with_extension_def)

lemma files_update [simp]:
  "files (put_file w p bs) q = (if q = p then Some \<lparr> content = bs, mtime = clock w \<rparr> else files w q)"
  "files (remove_file w p) q = (if q = p then None else files w q)"
  "files (rename_file w p p') q = (if q = p' then files w p else if q = p then None else files w q)"
  by (auto simp: put_file_def remove_file_def rename_file_def)

lemma world_update [simp]:
  "clock (put_file w p bs) = clock w" "clock (remove_file w p) = clock w" "clock (rename_file w p q) = clock w"
  "suppressions (put_file w p bs) = suppressions w" "suppressions (remove_file w p) = suppressions w"
  "suppressions (rename_file w p q) = suppressions w"
  "announced (put_file w p bs) = announced w" "announced (remove_file w p) = announced w"
  "announced (rename_file w p q) = announced w"
  by (auto simp: put_file_def remove_file_def rename_file_def)

lemma try_remove_simps [simp]:
  "files (try_remove F w p) q = (if q = p \<and> F (Remove p) = None then None else files w q)"
  "clock (try_remove F w p) = clock w" "suppressions (try_remove F w p) = suppressions w"
  "announced (try_remove F w p) = announced w"
  by (simp_all add: try_remove_def)

end
