(* ===== verification/Source.thy ===== *)
theory Source
  imports Config World Table_Types
begin

text \<open>
  \<open>src/geoip/download/source.rs\<close>: every database the crate can fetch, one row per provider, tier
  and kind, and how a row becomes a transfer: the URL and the one behind it, the credential read out
  of the settings, the destination, the freshness window. The transfer, archive and credential types
  are those of \<open>fetch.rs\<close>, the database kinds and formats those of \<open>mod.rs\<close>.
\<close>

section \<open>Kinds, formats and transfers\<close>

datatype kind = City | Asn

fun kind_label :: "kind \<Rightarrow> str" where
  "kind_label City = ''city''"
| "kind_label Asn = ''asn''"

fun kind_choice :: "kind \<Rightarrow> selection \<Rightarrow> choice" where
  "kind_choice City s = sel_city s"
| "kind_choice Asn s = sel_asn s"

fun explicit_path :: "kind \<Rightarrow> geoip_config \<Rightarrow> str option" where
  "explicit_path City c = gc_city_db_path c"
| "explicit_path Asn c = gc_asn_db_path c"

datatype database_format = MmdbFormat | CsvFormat | JsonFormat

fun format_name :: "database_format \<Rightarrow> str" where
  "format_name MmdbFormat = ''MaxMind DB''"
| "format_name CsvFormat = ''CSV''"
| "format_name JsonFormat = ''JSON''"

record database =
  db_format :: database_format
  db_files :: "str list"

record database_spec =
  spec_format :: database_format
  spec_names :: "str list"

text \<open>\<open>Path::join\<close> of a directory and a relative name.\<close>

definition join_path :: "str \<Rightarrow> str \<Rightarrow> str" where
  "join_path dir name =
     (if name \<noteq> [] \<and> take 1 name = ''/'' then name
      else if dir = [] \<or> last dir = CHR ''/'' then dir @ name else dir @ ''/'' @ name)"

definition database_at :: "database_spec \<Rightarrow> str \<Rightarrow> database" where
  "database_at spec data_dir =
     \<lparr> db_format = spec_format spec, db_files = map (join_path data_dir) (spec_names spec) \<rparr>"

datatype archive = RawBody | GzipBody | TarGz str

datatype credential =
    Anonymous
  | Basic secret secret str
  | QueryToken str secret str

fun credential_debug :: "credential \<Rightarrow> str" where
  "credential_debug Anonymous = ''None''"
| "credential_debug (Basic _ _ _) = ''Basic(***REDACTED***)''"
| "credential_debug (QueryToken _ _ _) = ''QueryToken(***REDACTED***)''"

fun credential_fields :: "credential \<Rightarrow> str option" where
  "credential_fields Anonymous = None"
| "credential_fields (Basic _ _ fs) = Some fs"
| "credential_fields (QueryToken _ _ fs) = Some fs"

record transfer =
  tr_url :: str
  tr_fallback_url :: "str option"
  tr_checksum_url :: "str option"
  tr_dest :: str
  tr_archive :: archive
  tr_format :: database_format
  tr_credential :: credential

section \<open>URLs\<close>

text \<open>\<open>str::replace\<close> of every occurrence of a non-empty pattern.\<close>

function replace_all :: "str \<Rightarrow> str \<Rightarrow> str \<Rightarrow> str" where
  "replace_all pat rep s =
     (if pat = [] \<or> s = [] then s
      else if starts_with s pat then rep @ replace_all pat rep (drop (length pat) s)
      else hd s # replace_all pat rep (tl s))"
  by pat_completeness auto
termination
  by (relation "measure (\<lambda>(pat, rep, s). length s)") auto

declare replace_all.simps [simp del]

definition MONTH :: str where "MONTH = ''{month}''"
definition EDITION :: str where "EDITION = ''{edition}''"

datatype url_strategy = Static str | MonthlyDated str bool | Edition str

text \<open>
  The clock's month and the month before it, where there is one, as \<open>chrono\<close> writes them
  (\<open>%Y-%m\<close>).
\<close>

record calendar =
  this_month :: str
  last_month :: "str option"

definition dated :: "str \<Rightarrow> str \<Rightarrow> str" where
  "dated template month = replace_all MONTH month template"

fun resolve_url :: "calendar \<Rightarrow> url_strategy \<Rightarrow> str \<Rightarrow> str \<times> str option" where
  "resolve_url cal (Static url) edition = (url, None)"
| "resolve_url cal (MonthlyDated template fallback) edition =
     (dated template (this_month cal),
      if fallback then map_option (dated template) (last_month cal) else None)"
| "resolve_url cal (Edition endpoint) edition = (replace_all EDITION edition endpoint, None)"

section \<open>Credentials\<close>

record slot =
  slot_path :: str
  slot_read :: "auto_download \<Rightarrow> secret option"

definition require_slot :: "slot \<Rightarrow> str \<Rightarrow> auto_download \<Rightarrow> (download_error, secret) result" where
  "require_slot sl prov auto =
     (case slot_read sl auto of
        Some s \<Rightarrow> if secret_is_empty s then Inl (MissingCredential prov (slot_path sl)) else Inr s
      | None \<Rightarrow> Inl (MissingCredential prov (slot_path sl)))"

datatype credential_kind =
    NoCredential
  | BasicSlots slot slot str
  | TokenSlot str slot

fun resolve_credential :: "credential_kind \<Rightarrow> str \<Rightarrow> auto_download \<Rightarrow> (download_error, credential) result" where
  "resolve_credential NoCredential prov auto = Inr Anonymous"
| "resolve_credential (BasicSlots username password fs) prov auto =
     and_then (require_slot username prov auto) (\<lambda>u.
     and_then (require_slot password prov auto) (\<lambda>p. Inr (Basic u p fs)))"
| "resolve_credential (TokenSlot name token) prov auto =
     and_then (require_slot token prov auto) (\<lambda>t. Inr (QueryToken name t (slot_path token)))"

section \<open>The table\<close>

record source_spec =
  ss_provider :: provider
  ss_tier :: tier
  ss_kind :: kind
  ss_name :: str
  ss_url :: url_strategy
  ss_credential :: credential_kind
  ss_archive :: archive
  ss_checksum :: "url_strategy option"
  ss_cadence :: nat
  ss_min_interval :: "nat option"
  ss_terms_url :: str
  ss_file :: str
  ss_format :: database_format

definition DAY :: nat where "DAY = 24 * 60 * 60"
definition TWICE_WEEKLY :: nat where "TWICE_WEEKLY = 7 * 24 * 60 * 60 div 2"
definition MONTHLY :: nat where "MONTHLY = 30 * 24 * 60 * 60"
definition SECS_PER_DAY :: nat where "SECS_PER_DAY = 86400"

definition DB_IP_LITE_TERMS :: str where "DB_IP_LITE_TERMS = ''https://db-ip.com/db/lite.php''"
definition MAXMIND_GEOLITE2_TERMS :: str where
  "MAXMIND_GEOLITE2_TERMS = ''https://www.maxmind.com/en/geolite/eula''"
definition MAXMIND_GEOIP2_TERMS :: str where
  "MAXMIND_GEOIP2_TERMS = ''https://www.maxmind.com/en/end-user-license-agreement''"
definition IPINFO_LITE_TERMS :: str where
  "IPINFO_LITE_TERMS = ''https://ipinfo.io/developers/ipinfo-lite-database''"
definition SAPICS_TERMS :: str where "SAPICS_TERMS = ''https://github.com/sapics/ip-location-db''"

definition MAXMIND_ENDPOINT :: str where
  "MAXMIND_ENDPOINT =
     ''https://download.maxmind.com/geoip/databases/{edition}/download?suffix=tar.gz''"
definition MAXMIND_CHECKSUM_ENDPOINT :: str where
  "MAXMIND_CHECKSUM_ENDPOINT =
     ''https://download.maxmind.com/geoip/databases/{edition}/download?suffix=tar.gz.sha256''"

definition MAXMIND_CREDENTIAL :: credential_kind where
  "MAXMIND_CREDENTIAL =
     BasicSlots
       \<lparr> slot_path = ''auto_download.maxmind_account_id'', slot_read = ad_maxmind_account_id \<rparr>
       \<lparr> slot_path = ''auto_download.maxmind_license_key'', slot_read = ad_maxmind_license_key \<rparr>
       ''auto_download.maxmind_account_id and auto_download.maxmind_license_key''"

definition maxmind_source :: "tier \<Rightarrow> kind \<Rightarrow> str \<Rightarrow> str \<Rightarrow> str \<Rightarrow> source_spec" where
  "maxmind_source t k name edition terms =
     \<lparr> ss_provider = MaxMind, ss_tier = t, ss_kind = k, ss_name = name,
       ss_url = Edition MAXMIND_ENDPOINT, ss_credential = MAXMIND_CREDENTIAL,
       ss_archive = TarGz (edition @ ''.mmdb''), ss_checksum = Some (Edition MAXMIND_CHECKSUM_ENDPOINT),
       ss_cadence = TWICE_WEEKLY, ss_min_interval = Some DAY, ss_terms_url = terms,
       ss_file = edition @ ''.mmdb'', ss_format = MmdbFormat \<rparr>"

definition db_ip_source :: "kind \<Rightarrow> str \<Rightarrow> str \<Rightarrow> str \<Rightarrow> source_spec" where
  "db_ip_source k name template file =
     \<lparr> ss_provider = DbIp, ss_tier = Free, ss_kind = k, ss_name = name,
       ss_url = MonthlyDated template True, ss_credential = NoCredential, ss_archive = GzipBody,
       ss_checksum = None, ss_cadence = MONTHLY, ss_min_interval = None,
       ss_terms_url = DB_IP_LITE_TERMS, ss_file = file, ss_format = MmdbFormat \<rparr>"

definition sapics_source :: "provider \<Rightarrow> str \<Rightarrow> str \<Rightarrow> str \<Rightarrow> str \<Rightarrow> source_spec" where
  "sapics_source p name url digest file =
     \<lparr> ss_provider = p, ss_tier = Free, ss_kind = Asn, ss_name = name, ss_url = Static url,
       ss_credential = NoCredential, ss_archive = RawBody, ss_checksum = Some (Static digest),
       ss_cadence = DAY, ss_min_interval = None, ss_terms_url = SAPICS_TERMS, ss_file = file,
       ss_format = MmdbFormat \<rparr>"

definition SOURCES :: "source_spec list" where
  "SOURCES =
     [db_ip_source City ''DB-IP Lite City''
        ''https://download.db-ip.com/free/dbip-city-lite-{month}.mmdb.gz'' ''dbip-city-lite.mmdb'',
      db_ip_source Asn ''DB-IP Lite ASN''
        ''https://download.db-ip.com/free/dbip-asn-lite-{month}.mmdb.gz'' ''dbip-asn-lite.mmdb'',
      maxmind_source Free City ''MaxMind GeoLite2 City'' ''GeoLite2-City'' MAXMIND_GEOLITE2_TERMS,
      maxmind_source Free Asn ''MaxMind GeoLite2 ASN'' ''GeoLite2-ASN'' MAXMIND_GEOLITE2_TERMS,
      maxmind_source Paid City ''MaxMind GeoIP2 City'' ''GeoIP2-City'' MAXMIND_GEOIP2_TERMS,
      maxmind_source Paid Asn ''MaxMind GeoIP2 ISP'' ''GeoIP2-ISP'' MAXMIND_GEOIP2_TERMS,
      \<lparr> ss_provider = IpInfo, ss_tier = Free, ss_kind = City, ss_name = ''IPinfo Lite'',
        ss_url = Static ''https://ipinfo.io/data/ipinfo_lite.mmdb'',
        ss_credential = TokenSlot ''token''
          \<lparr> slot_path = ''auto_download.ipinfo_token'', slot_read = ad_ipinfo_token \<rparr>,
        ss_archive = RawBody, ss_checksum = None, ss_cadence = DAY, ss_min_interval = Some DAY,
        ss_terms_url = IPINFO_LITE_TERMS, ss_file = ''ipinfo-lite.mmdb'', ss_format = MmdbFormat \<rparr>,
      sapics_source SapicsOriginAsn ''sapics origin-asn''
        ''https://github.com/sapics/ip-location-db/releases/download/latest/origin-asn.mmdb''
        ''https://github.com/sapics/ip-location-db/releases/download/checksum/origin-asn.mmdb.sha256''
        ''origin-asn.mmdb'',
      sapics_source SapicsIpToAsn ''sapics iptoasn-asn''
        ''https://github.com/sapics/ip-location-db/releases/download/latest/iptoasn-asn.mmdb''
        ''https://github.com/sapics/ip-location-db/releases/download/checksum/iptoasn-asn.mmdb.sha256''
        ''iptoasn-asn.mmdb'']"

section \<open>Selecting a row\<close>

definition answers_choice :: "choice \<Rightarrow> kind \<Rightarrow> source_spec \<Rightarrow> bool" where
  "answers_choice c k s \<longleftrightarrow> ss_provider s = ch_provider c \<and> ss_tier s = ch_tier c \<and> ss_kind s = k"

definition find_source :: "choice \<Rightarrow> kind \<Rightarrow> source_spec option" where
  "find_source c k = List.find (answers_choice c k) SOURCES"

definition select_source :: "choice \<Rightarrow> kind \<Rightarrow> (download_error, source_spec option) result" where
  "select_source c k =
     (case find_source c k of
        Some s \<Rightarrow> Inr (Some s)
      | None \<Rightarrow>
          if \<not> list_ex (\<lambda>s. ss_provider s = ch_provider c) SOURCES then Inr None
          else if \<not> list_ex (\<lambda>s. ss_provider s = ch_provider c \<and> ss_tier s = ch_tier c) SOURCES
          then Inl (UnsupportedTier (provider_label (ch_provider c)) (tier_label (ch_tier c)))
          else Inr None)"

definition source_database :: "source_spec \<Rightarrow> database_spec" where
  "source_database s = \<lparr> spec_format = ss_format s, spec_names = [ss_file s] \<rparr>"

definition edition_of :: "source_spec \<Rightarrow> str" where
  "edition_of s = (case strip_suffix ''.mmdb'' (ss_file s) of None \<Rightarrow> ss_file s | Some e \<Rightarrow> e)"

definition source_transfer :: "calendar \<Rightarrow> source_spec \<Rightarrow> auto_download \<Rightarrow> (download_error, transfer) result" where
  "source_transfer cal s auto =
     and_then (resolve_credential (ss_credential s) (provider_label (ss_provider s)) auto) (\<lambda>cred.
       Inr \<lparr> tr_url = fst (resolve_url cal (ss_url s) (edition_of s)),
             tr_fallback_url = snd (resolve_url cal (ss_url s) (edition_of s)),
             tr_checksum_url = map_option (\<lambda>c. fst (resolve_url cal c (edition_of s))) (ss_checksum s),
             tr_dest = join_path (ad_data_dir auto) (ss_file s), tr_archive = ss_archive s,
             tr_format = ss_format s, tr_credential = cred \<rparr>)"

definition staleness_window :: "source_spec \<Rightarrow> auto_download \<Rightarrow> nat" where
  "staleness_window s auto =
     max (min (ss_cadence s) (ad_max_age_days auto * SECS_PER_DAY))
       (case ss_min_interval s of None \<Rightarrow> 0 | Some i \<Rightarrow> i)"

record source_terms =
  st_name :: str
  st_kind :: str
  st_terms_url :: str
  st_cadence :: nat
  st_min_interval :: "nat option"

definition terms_of :: "source_spec \<Rightarrow> source_terms" where
  "terms_of s =
     \<lparr> st_name = ss_name s, st_kind = kind_label (ss_kind s), st_terms_url = ss_terms_url s,
       st_cadence = ss_cadence s, st_min_interval = ss_min_interval s \<rparr>"

definition terms_for :: "selection \<Rightarrow> source_terms list" where
  "terms_for sel =
     map terms_of (concat (map (\<lambda>k. case find_source (kind_choice k sel) k of None \<Rightarrow> [] | Some s \<Rightarrow> [s])
       [City, Asn]))"

section \<open>What the table guarantees\<close>

definition source_key :: "source_spec \<Rightarrow> provider \<times> tier \<times> kind" where
  "source_key s = (ss_provider s, ss_tier s, ss_kind s)"

lemma source_keys:
  "map source_key SOURCES =
     [(DbIp, Free, City), (DbIp, Free, Asn), (MaxMind, Free, City), (MaxMind, Free, Asn),
      (MaxMind, Paid, City), (MaxMind, Paid, Asn), (IpInfo, Free, City), (SapicsOriginAsn, Free, Asn),
      (SapicsIpToAsn, Free, Asn)]"
  by (simp add: SOURCES_def source_key_def db_ip_source_def maxmind_source_def sapics_source_def)

lemma find_source_iff: "find_source c k = Some s \<longleftrightarrow> s \<in> set SOURCES \<and> answers_choice c k s"
proof -
  have "answers_choice c k = (\<lambda>s. source_key s = (ch_provider c, ch_tier c, k))"
    by (auto simp: answers_choice_def source_key_def)
  moreover have "distinct (map source_key SOURCES)" by (simp add: source_keys)
  ultimately show ?thesis by (simp add: find_source_def find_keyed)
qed

lemma some_source:
  "(\<exists>s \<in> set SOURCES. Q (ss_provider s) (ss_tier s) (ss_kind s)) \<longleftrightarrow>
   (\<exists>(p, t, k) \<in> set (map source_key SOURCES). Q p t k)"
  by (auto simp: source_key_def)

lemma find_source_None:
  "find_source c k = None \<longleftrightarrow> (ch_provider c, ch_tier c, k) \<notin> set (map source_key SOURCES)"
  by (force simp: find_source_def find_None_iff answers_choice_def source_key_def image_iff)

lemma provider_listed:
  "list_ex (\<lambda>s. ss_provider s = p) SOURCES \<longleftrightarrow> p \<in> fst ` set (map source_key SOURCES)"
  "list_ex (\<lambda>s. ss_provider s = p \<and> ss_tier s = t) SOURCES \<longleftrightarrow>
   (p, t) \<in> (\<lambda>(p, t, k). (p, t)) ` set (map source_key SOURCES)"
  by (force simp: list_ex_iff source_key_def image_iff)+

text \<open>A selection is answered by the one row the table has for it; a tier the table does not model of
  a provider it does is refused by name, and nothing else is a fault.\<close>

theorem selection_is_decided_by_the_table:
  "(select_source c k = Inr (Some s) \<longleftrightarrow> s \<in> set SOURCES \<and> answers_choice c k s)
   \<and> (select_source c k = Inl e \<longleftrightarrow>
        ch_tier c = Paid \<and> ch_provider c \<in> {DbIp, IpInfo, SapicsOriginAsn, SapicsIpToAsn}
        \<and> e = UnsupportedTier (provider_label (ch_provider c)) ''paid'')"
proof -
  have "select_source c k = Inr (Some s) \<longleftrightarrow> find_source c k = Some s"
    by (auto simp: select_source_def split: option.splits if_splits)
  moreover have "select_source c k = Inl e \<longleftrightarrow>
      find_source c k = None \<and> list_ex (\<lambda>s. ss_provider s = ch_provider c) SOURCES
      \<and> \<not> list_ex (\<lambda>s. ss_provider s = ch_provider c \<and> ss_tier s = ch_tier c) SOURCES
      \<and> e = UnsupportedTier (provider_label (ch_provider c)) (tier_label (ch_tier c))"
    by (auto simp: select_source_def split: option.splits if_splits)
  moreover have "\<dots> \<longleftrightarrow> ch_tier c = Paid \<and> ch_provider c \<in> {DbIp, IpInfo, SapicsOriginAsn, SapicsIpToAsn}
        \<and> e = UnsupportedTier (provider_label (ch_provider c)) ''paid''"
    unfolding find_source_None provider_listed source_keys
    by (cases "ch_provider c"; cases "ch_tier c") auto
  ultimately show ?thesis by (simp add: find_source_iff)
qed

text \<open>A copy is fresh no longer than the operator's limit or the publisher's rhythm allows, except
  that it is never fetched sooner than the interval the publisher asks for.\<close>

theorem window_keeps_both_limits:
  "staleness_window s auto \<le>
     max (ad_max_age_days auto * 86400) (case ss_min_interval s of None \<Rightarrow> 0 | Some i \<Rightarrow> i)
   \<and> staleness_window s auto \<le> max (ss_cadence s) (case ss_min_interval s of None \<Rightarrow> 0 | Some i \<Rightarrow> i)
   \<and> (case ss_min_interval s of None \<Rightarrow> 0 | Some i \<Rightarrow> i) \<le> staleness_window s auto"
  by (auto simp: staleness_window_def SECS_PER_DAY_def)

definition same_but_credentials :: "auto_download \<Rightarrow> auto_download \<Rightarrow> bool" where
  "same_but_credentials a b \<longleftrightarrow>
     a\<lparr> ad_maxmind_account_id := None, ad_maxmind_license_key := None, ad_ipinfo_token := None \<rparr> =
     b\<lparr> ad_maxmind_account_id := None, ad_maxmind_license_key := None, ad_ipinfo_token := None \<rparr>"

text \<open>No URL of a transfer, and nothing its credential prints as, depends on a credential: settings
  that differ in their credentials alone give transfers that differ in the secrets alone.\<close>

theorem credentials_stay_out_of_urls:
  assumes "source_transfer cal s a = Inr t" and "source_transfer cal s b = Inr t'" and "same_but_credentials a b"
  shows "tr_url t = tr_url t' \<and> tr_fallback_url t = tr_fallback_url t' \<and> tr_checksum_url t = tr_checksum_url t'
    \<and> tr_dest t = tr_dest t' \<and> credential_debug (tr_credential t) = credential_debug (tr_credential t')"
proof -
  have "ad_data_dir a = ad_data_dir b"
    using assms(3) by (cases a; cases b) (simp add: same_but_credentials_def)
  moreover have "credential_debug x = credential_debug y"
    if "resolve_credential k p a = Inr x" "resolve_credential k p b = Inr y" for k p x y
    using that by (cases k) (auto simp: and_then_Inr_iff)
  ultimately show ?thesis
    using assms(1,2) by (auto simp: source_transfer_def and_then_Inr_iff)
qed

definition ipinfo_settings :: "str \<Rightarrow> auto_download" where
  "ipinfo_settings token = auto_download_default\<lparr> ad_ipinfo_token := Some (Secret token) \<rparr>"

definition ipinfo_source :: source_spec where
  "ipinfo_source = SOURCES ! 6"

theorem credentials_stay_out_of_urls_witness:
  "\<exists>t t'. source_transfer \<lparr> this_month = ''2026-07'', last_month = None \<rparr> ipinfo_source (ipinfo_settings ''one'') = Inr t
     \<and> source_transfer \<lparr> this_month = ''2026-07'', last_month = None \<rparr> ipinfo_source (ipinfo_settings ''two'') = Inr t'
     \<and> tr_url t = tr_url t' \<and> tr_credential t \<noteq> tr_credential t'"
proof -
  let ?cal = "\<lparr> this_month = ''2026-07'', last_month = None \<rparr>"
  obtain t t' where t: "source_transfer ?cal ipinfo_source (ipinfo_settings ''one'') = Inr t"
    "source_transfer ?cal ipinfo_source (ipinfo_settings ''two'') = Inr t'"
    and creds: "tr_credential t = QueryToken ''token'' (Secret ''one'') ''auto_download.ipinfo_token''"
    "tr_credential t' = QueryToken ''token'' (Secret ''two'') ''auto_download.ipinfo_token''"
    by (simp add: source_transfer_def ipinfo_source_def SOURCES_def require_slot_def secret_is_empty_def
        ipinfo_settings_def numeral_eq_Suc)
  moreover have "same_but_credentials (ipinfo_settings ''one'') (ipinfo_settings ''two'')"
    by (simp add: same_but_credentials_def ipinfo_settings_def)
  ultimately show ?thesis
    using credentials_stay_out_of_urls [OF t] by auto
qed

text \<open>Every row writes a file of its own.\<close>

lemma source_files_distinct: "distinct (map ss_file SOURCES)"
  by (simp add: SOURCES_def db_ip_source_def maxmind_source_def sapics_source_def)

end
