(* ===== verification/Verify.thy ===== *)
theory Verify
  imports Source Table_Index
begin

text \<open>
  \<open>src/geoip/download/verify.rs\<close>: what a staged file has to satisfy before it replaces the copy on
  disk. The size floor, the probe of a MaxMind DB for the field its kind exists to carry, and the
  full load of a table. The MaxMind DB reader, the decoders, the digest and the URL parser are not
  part of the repository; they are the fields of the record \<open>platform\<close>.
\<close>

section \<open>What acquisition takes from outside\<close>

text \<open>
  A decoded stream: the bytes it yields, then how it fails if it does. A tar entry: whether it is a
  regular file, its file name if its path can be read and has one, and its contents.
\<close>

type_synonym decoded = "str \<times> str option"

record tar_entry =
  te_is_file :: bool
  te_name :: "(str, str option) result"
  te_body :: decoded

text \<open>
  A parsed URL: scheme, host, port and path as one text, whether it can carry user info (it has a host
  and is no \<open>file\<close> URL), and the parts a log line must not show.
\<close>

record url =
  ul_base :: str
  ul_takes_user :: bool
  ul_username :: str
  ul_password :: "str option"
  ul_query :: "str option"
  ul_fragment :: "str option"

text \<open>
  \<open>pf_parse_url\<close> is \<open>Url::parse\<close>: the refusal, or the URL; \<open>pf_show_url\<close> is how a URL displays.
  \<open>pf_decode_path\<close> is a lookup followed by the decoding of one path as a string.
\<close>

record ('p, 'm, 'b) platform =
  pf_prefixes :: "('p, 'm) prefix_lib"
  pf_alloc :: allocator
  pf_document :: "reader \<Rightarrow> document"
  pf_json_text :: "json \<Rightarrow> str"
  pf_parse_url :: "str \<Rightarrow> (str, url) result"
  pf_show_url :: "url \<Rightarrow> str"
  pf_gunzip :: "str \<Rightarrow> decoded"
  pf_untar :: "str \<Rightarrow> (str, (str, tar_entry) result list) result"
  pf_sha256 :: "str \<Rightarrow> str"
  pf_open_mmdb :: "str \<Rightarrow> 'b option"
  pf_decode_path :: "'b \<Rightarrow> ip_addr \<Rightarrow> str list \<Rightarrow> str option"

section \<open>The guard\<close>

record table_check =
  tc_format :: table_format
  tc_schema :: schema
  tc_index :: index
  tc_ceiling :: nat

record guard =
  gd_probe :: "kind option"
  gd_table :: "table_check option"
  gd_min_size_percent :: nat

definition PERCENT :: nat where "PERCENT = 100"

definition guard_new :: "kind \<Rightarrow> auto_download \<Rightarrow> guard" where
  "guard_new k auto =
     \<lparr> gd_probe = (if ad_verify_content auto then Some k else None), gd_table = None,
       gd_min_size_percent = ad_min_size_percent auto \<rparr>"

definition guard_for_table :: "table_format \<Rightarrow> schema \<Rightarrow> index \<Rightarrow> auto_download \<Rightarrow> guard" where
  "guard_for_table fmt sch ix auto =
     \<lparr> gd_probe = None,
       gd_table = Some \<lparr> tc_format = fmt, tc_schema = sch, tc_index = ix,
                         tc_ceiling = ad_resident_max_bytes auto \<rparr>,
       gd_min_size_percent = ad_min_size_percent auto \<rparr>"

text \<open>
  Refuse a replacement catastrophically smaller than the copy it would replace: cross-multiplied, and
  saturating.
\<close>

definition check_size :: "io_faults \<Rightarrow> world \<Rightarrow> guard \<Rightarrow> str \<Rightarrow> str \<Rightarrow> (download_error, unit) result" where
  "check_size F w g staged dest =
     (if gd_min_size_percent g = 0 then Inr ()
      else case file_length F w dest of
        Inl _ \<Rightarrow> Inr ()
      | Inr existing \<Rightarrow>
          if existing = 0 then Inr ()
          else and_then (map_err Io (file_length F w staged)) (\<lambda>actual.
            if sat_mul actual PERCENT < sat_mul existing (gd_min_size_percent g)
            then Inl (Undersized dest actual existing (gd_min_size_percent g))
            else Inr ()))"

definition PROBE_ADDRESSES :: "ip_addr list" where
  "PROBE_ADDRESSES =
     [V4 0x08080808, V4 0x01010101, V4 0x09090909,
      V6 0x20014860486000000000000000008888, V6 0x26064700470000000000000000001111,
      V6 0x262000fe0000000000000000000000fe]"

definition COUNTRY_PATHS :: "str list list" where
  "COUNTRY_PATHS =
     [[''country'', ''iso_code''], [''registered_country'', ''iso_code''], [''country_code'']]"

definition ORGANISATION_PATHS :: "str list list" where
  "ORGANISATION_PATHS = [[''autonomous_system_organization''], [''isp''], [''as_name'']]"

fun paths_of :: "kind \<Rightarrow> str list list" where
  "paths_of City = COUNTRY_PATHS"
| "paths_of Asn = ORGANISATION_PATHS"

fun field_of :: "kind \<Rightarrow> str" where
  "field_of City = ''country''"
| "field_of Asn = ''organisation name''"

definition answers_probe :: "('p, 'm, 'b) platform \<Rightarrow> 'b \<Rightarrow> ip_addr \<Rightarrow> kind \<Rightarrow> bool" where
  "answers_probe E r a k =
     list_ex (\<lambda>path. case pf_decode_path E r a path of None \<Rightarrow> False | Some v \<Rightarrow> trim v \<noteq> []) (paths_of k)"

definition probe_mmdb ::
    "('p, 'm, 'b) platform \<Rightarrow> io_faults \<Rightarrow> world \<Rightarrow> str \<Rightarrow> str \<Rightarrow> kind \<Rightarrow> database_format \<Rightarrow>
     (download_error, unit) result" where
  "probe_mmdb E F w staged dest k fmt =
     (if fmt \<noteq> MmdbFormat then Inr ()
      else case Option.bind (case read_content F w staged of Inl _ \<Rightarrow> None | Inr bs \<Rightarrow> Some bs) (pf_open_mmdb E) of
        None \<Rightarrow> Inl (NotADatabase dest)
      | Some r \<Rightarrow>
          if list_ex (\<lambda>a. answers_probe E r a k) PROBE_ADDRESSES then Inr ()
          else Inl (Unpopulated dest (field_of k)))"

text \<open>Load the staged file as the table it states, and drop the result.\<close>

definition opened_reader :: "io_faults \<Rightarrow> world \<Rightarrow> str \<Rightarrow> (str, reader) result" where
  "opened_reader F w p = and_then (read_content F w p) (\<lambda>bs. Inr [Inr bs])"

definition parses_as_table ::
    "('p, 'm, 'b) platform \<Rightarrow> io_faults \<Rightarrow> world \<Rightarrow> str \<Rightarrow> str \<Rightarrow> table_check \<Rightarrow> (download_error, unit) result" where
  "parses_as_table E F w staged dest tc =
     map_err (\<lambda>e. Unparseable dest (table_error_text e))
       (probe_table (pf_prefixes E) (pf_alloc E) (pf_document E) (pf_json_text E) (opened_reader F w staged)
          (tc_format tc) (tc_schema tc) (tc_index tc) (tc_ceiling tc))"

definition admit ::
    "('p, 'm, 'b) platform \<Rightarrow> io_faults \<Rightarrow> world \<Rightarrow> guard \<Rightarrow> str \<Rightarrow> str \<Rightarrow> database_format \<Rightarrow>
     (download_error, unit) result" where
  "admit E F w g staged dest fmt =
     and_then (check_size F w g staged dest) (\<lambda>_.
     and_then (case gd_probe g of None \<Rightarrow> Inr () | Some k \<Rightarrow> probe_mmdb E F w staged dest k fmt) (\<lambda>_.
       case gd_table g of None \<Rightarrow> Inr () | Some tc \<Rightarrow> parses_as_table E F w staged dest tc))"

text \<open>The probe and the guard of a build without the lookup engine, which has no reader to ask a file with.\<close>

definition probe_unread :: "str \<Rightarrow> str \<Rightarrow> kind \<Rightarrow> database_format \<Rightarrow> (download_error, unit) result" where
  "probe_unread staged dest k fmt = Inr ()"

definition admit_unread ::
    "('p, 'm, 'b) platform \<Rightarrow> io_faults \<Rightarrow> world \<Rightarrow> guard \<Rightarrow> str \<Rightarrow> str \<Rightarrow> database_format \<Rightarrow>
     (download_error, unit) result" where
  "admit_unread E F w g staged dest fmt =
     and_then (check_size F w g staged dest) (\<lambda>_.
     and_then (case gd_probe g of None \<Rightarrow> Inr () | Some k \<Rightarrow> probe_unread staged dest k fmt) (\<lambda>_.
       case gd_table g of None \<Rightarrow> Inr () | Some tc \<Rightarrow> parses_as_table E F w staged dest tc))"

section \<open>What the guard promises\<close>

text \<open>
  Such a build differs by the probe alone: it refuses with the same error whatever it refuses, admits
  all the other admits, and admits beyond that only what the probe would have refused.
\<close>

theorem unread_build_skips_the_probe_alone:
  "(case admit_unread E F w g staged dest fmt of
      Inl e \<Rightarrow> admit E F w g staged dest fmt = Inl e
        \<or> (\<exists>k e'. gd_probe g = Some k \<and> check_size F w g staged dest = Inr ()
             \<and> probe_mmdb E F w staged dest k fmt = Inl e' \<and> admit E F w g staged dest fmt = Inl e')
    | Inr _ \<Rightarrow> admit E F w g staged dest fmt = Inr ()
        \<or> (\<exists>k e'. gd_probe g = Some k \<and> probe_mmdb E F w staged dest k fmt = Inl e'
             \<and> admit E F w g staged dest fmt = Inl e'))"
proof (cases "check_size F w g staged dest")
  case (Inr u)
  show ?thesis
  proof (cases "gd_probe g")
    case (Some k)
    with Inr show ?thesis
      by (cases "probe_mmdb E F w staged dest k fmt") (simp_all add: admit_def admit_unread_def probe_unread_def split: sum.split)
  qed (use Inr in \<open>simp add: admit_def admit_unread_def split: sum.split\<close>)
qed (simp add: admit_def admit_unread_def)

text \<open>The size floor refuses exactly the replacements below the stated percentage of a copy that is
  there and not empty, where neither length is past what a 64-bit count of percents can hold.\<close>

theorem size_floor_is_exact:
  assumes "files w dest = Some old" and "files w staged = Some new" and "F = no_faults"
    and "length (content old) * 100 \<le> u64_max" and "length (content new) * 100 \<le> u64_max"
    and "gd_min_size_percent g \<le> 100"
  shows "check_size F w g staged dest = Inr () \<longleftrightarrow>
    length (content old) * gd_min_size_percent g \<le> length (content new) * 100"
proof -
  have "length (content old) * gd_min_size_percent g \<le> length (content old) * 100"
    using assms(6) by simp
  with assms(4) have "length (content old) * gd_min_size_percent g \<le> u64_max" by linarith
  with assms show ?thesis
    by (auto simp: check_size_def file_length_def no_faults_def sat_mul_def PERCENT_def not_less)
qed

theorem size_floor_is_exact_witness:
  "let w = \<lparr> files = [''db'' \<mapsto> \<lparr> content = ''0123456789'', mtime = 0 \<rparr>, ''new'' \<mapsto> \<lparr> content = ''0123'', mtime = 0 \<rparr>],
             clock = 0, suppressions = (\<lambda>_. None), announced = [] \<rparr> in
   check_size no_faults w (guard_new City auto_download_default) ''new'' ''db'' \<noteq> Inr ()"
  using size_floor_is_exact [of "\<lparr> files = [''db'' \<mapsto> \<lparr> content = ''0123456789'', mtime = 0 \<rparr>,
      ''new'' \<mapsto> \<lparr> content = ''0123'', mtime = 0 \<rparr>], clock = 0, suppressions = (\<lambda>_. None), announced = [] \<rparr>"
      "''db''" "\<lparr> content = ''0123456789'', mtime = 0 \<rparr>" "''new''" "\<lparr> content = ''0123'', mtime = 0 \<rparr>"
      no_faults "guard_new City auto_download_default"]
  by (simp add: u64_max_def guard_new_def auto_download_default_def)

text \<open>What the guard of a table admits, the load of that table under the same settings accepts.\<close>

theorem admitted_table_loads:
  assumes "admit E F w (guard_for_table fmt sch ix auto) staged dest dfmt = Inr ()"
  shows "\<exists>t. read_file (pf_prefixes E) (pf_alloc E) (pf_document E) (pf_json_text E)
      (opened_reader F w staged) fmt sch ix (ad_resident_max_bytes auto) = Inr t"
  using assms
  by (auto simp: admit_def guard_for_table_def parses_as_table_def probe_table_def and_then_Inr_iff)

lemma admitted_database_opens:
  assumes "admit E F w (guard_new k auto) staged dest MmdbFormat = Inr ()" and "ad_verify_content auto"
  shows "\<exists>bs r. read_content F w staged = Inr bs \<and> pf_open_mmdb E bs = Some r
    \<and> (\<exists>a \<in> set PROBE_ADDRESSES. answers_probe E r a k)"
proof -
  from assms have "probe_mmdb E F w staged dest k MmdbFormat = Inr ()"
    by (simp add: admit_def guard_new_def and_then_Inr_iff)
  then show ?thesis
    by (auto simp: probe_mmdb_def list_ex_iff split: option.splits sum.splits if_splits)
qed

text \<open>A database the guard admits opens, and answers a probe address with a country, or an organisation,
  that is not blank.\<close>

theorem admitted_database_answers:
  assumes "admit E F w (guard_new k auto) staged dest MmdbFormat = Inr ()" and "ad_verify_content auto"
  shows "\<exists>bs r a path v. read_content F w staged = Inr bs \<and> pf_open_mmdb E bs = Some r
    \<and> a \<in> set PROBE_ADDRESSES \<and> path \<in> set (paths_of k)
    \<and> pf_decode_path E r a path = Some v \<and> trim v \<noteq> []"
  using admitted_database_opens [OF assms]
  by (fastforce simp: answers_probe_def list_ex_iff split: option.splits)

section \<open>A platform the properties apply to\<close>

definition demo_platform :: "(net, net_map, str) platform" where
  "demo_platform =
     \<lparr> pf_prefixes = net_library short_nets, pf_alloc = doubling,
       pf_document = (\<lambda>_. ragged_document), pf_json_text = (\<lambda>_. ''true''),
       pf_parse_url = (\<lambda>_. Inl ''invalid port number''), pf_show_url = ul_base, pf_gunzip = (\<lambda>bs. (bs, None)),
       pf_untar = (\<lambda>_. Inl ''failed to read entire block''), pf_sha256 = (\<lambda>_. replicate 64 CHR ''0''),
       pf_open_mmdb = Some,
       pf_decode_path = (\<lambda>r a path. if path = [''country_code''] then Some r else None) \<rparr>"

definition one_file :: "str \<Rightarrow> str \<Rightarrow> world" where
  "one_file p bs =
     \<lparr> files = [p \<mapsto> \<lparr> content = bs, mtime = 0 \<rparr>], clock = 0, suppressions = (\<lambda>_. None), announced = [] \<rparr>"

definition demo_settings :: auto_download where
  "demo_settings = auto_download_default\<lparr> ad_resident_max_bytes := 1000 \<rparr>"

lemma demo_admitted:
  "admit demo_platform no_faults (one_file ''new'' ''[..]'')
     (guard_for_table Json Auto (Column ''a'') demo_settings) ''new'' ''db'' JsonFormat = Inr ()"
  by (simp add: admit_def guard_for_table_def demo_settings_def auto_download_default_def check_size_def
      file_length_def no_faults_def one_file_def parses_as_table_def probe_table_def read_file_def
      opened_reader_def read_content_def demo_platform_def read_table_def ragged_document_reads build_eval)

lemma trim_AU: "trim ''AU'' = ''AU''"
  by (simp add: trim_def trim_start.simps [of "''AU''"] trim_end.simps [of "''AU''"] space_head_def space_tail_def)

lemma demo_probed:
  "admit demo_platform no_faults (one_file ''new'' ''AU'') (guard_new City demo_settings) ''new'' ''db'' MmdbFormat = Inr ()"
  by (simp add: admit_def guard_new_def demo_settings_def auto_download_default_def check_size_def
      file_length_def no_faults_def one_file_def probe_mmdb_def read_content_def demo_platform_def
      PROBE_ADDRESSES_def answers_probe_def COUNTRY_PATHS_def trim_AU)

theorem admitted_table_loads_witness:
  "\<exists>t. read_file (net_library short_nets) doubling (\<lambda>_. ragged_document) (\<lambda>_. ''true'')
     (opened_reader no_faults (one_file ''new'' ''[..]'') ''new'') Json Auto (Column ''a'') 1000 = Inr t"
  using admitted_table_loads [OF demo_admitted] by (simp add: demo_platform_def demo_settings_def)

theorem admitted_database_answers_witness:
  "\<exists>bs path. read_content no_faults (one_file ''new'' ''AU'') ''new'' = Inr bs
     \<and> path \<in> set COUNTRY_PATHS \<and> trim bs \<noteq> []"
  using admitted_database_answers [OF demo_probed]
  by (auto simp: demo_settings_def auto_download_default_def demo_platform_def split: if_splits)

end
