(* ===== verification/Mmdb_Wire.thy ===== *)
theory Mmdb_Wire
  imports Extra Fetch
begin

text \<open>
  \<open>src/geoip/mmdb_wire.rs\<close>, the MaxMind DB encoding the crate builds its own databases with, the
  records of \<open>src/geoip/download/verify/fixtures.rs\<close> put through it, and the records \<open>extra.rs\<close> crafts
  to defeat its bounds. A panic is \<open>None\<close>. What a data section holds at an offset is stated apart from
  the encoders, as the relation \<open>stored\<close> of the published format. The lemmas show that what is encoded
  is stored and nothing else, how far a small file with shared pointers expands, and what the walk
  of \<open>extra.rs\<close> costs over such a record.
\<close>

unbundle bit_operations_syntax

section \<open>Encoding\<close>

definition WIRE_MARKER :: str where
  "WIRE_MARKER = [CHR 0xAB, CHR 0xCD, CHR 0xEF] @ ''MaxMind.com''"

definition SEPARATOR :: str where "SEPARATOR = replicate 16 (CHR 0x00)"
definition NODE_COUNT :: nat where "NODE_COUNT = 1"
definition RECORD_SIZE :: nat where "RECORD_SIZE = 24"
definition STRING :: nat where "STRING = 2"
definition UINT16 :: nat where "UINT16 = 5"
definition UINT32 :: nat where "UINT32 = 6"
definition MAP :: nat where "MAP = 7"
definition UINT64 :: nat where "UINT64 = 9"
definition ARRAY :: nat where "ARRAY = 11"
definition SPILL_ONE :: nat where "SPILL_ONE = 0x1D"
definition SPILL_TWO :: nat where "SPILL_TWO = 0x1E"
definition IPV4 :: nat where "IPV4 = 4"
definition IPV6 :: nat where "IPV6 = 6"

text \<open>A \<open>u8\<close>: shifts drop what passes the eighth bit.\<close>

definition control :: "nat \<Rightarrow> nat \<Rightarrow> char" where
  "control kind len = char_of (push_bit 5 kind OR len)"

definition header :: "nat \<Rightarrow> nat \<Rightarrow> str option" where
  "header kind len =
     (if len \<le> 28 then Some [control kind len]
      else if len \<le> 284 then Some [control kind SPILL_ONE, char_of (len - 29)]
      else if len \<le> 65819
      then Some [control kind SPILL_TWO, char_of ((len - 285) div 256), char_of ((len - 285) mod 256)]
      else None)"

definition extended :: "nat \<Rightarrow> nat \<Rightarrow> str option" where
  "extended kind len = (if len < SPILL_ONE then Some [char_of len, char_of (kind - MAP)] else None)"

text \<open>The bytes of an unsigned integer, the highest first, and those behind the leading zeros.\<close>

definition be_bytes :: "nat \<Rightarrow> nat \<Rightarrow> str" where
  "be_bytes n v = map (\<lambda>i. char_of (drop_bit (8 * (n - 1 - i)) v)) [0..<n]"

definition trimmed :: "64 word \<Rightarrow> str" where
  "trimmed v =
     (let bytes = be_bytes 8 (unat v)
      in drop (case position (\<lambda>b. b \<noteq> CHR 0x00) bytes of Some first \<Rightarrow> first | None \<Rightarrow> 8) bytes)"

definition wire_string :: "str \<Rightarrow> str option" where
  "wire_string v = map_option (\<lambda>h. h @ v) (header STRING (length v))"

definition wire_uint16 :: "16 word \<Rightarrow> str option" where
  "wire_uint16 v = (let bs = trimmed (ucast v) in map_option (\<lambda>h. h @ bs) (header UINT16 (length bs)))"

definition wire_uint32 :: "32 word \<Rightarrow> str option" where
  "wire_uint32 v = (let bs = trimmed (ucast v) in map_option (\<lambda>h. h @ bs) (header UINT32 (length bs)))"

definition wire_uint64 :: "64 word \<Rightarrow> str option" where
  "wire_uint64 v = (let bs = trimmed v in map_option (\<lambda>h. h @ bs) (extended UINT64 (length bs)))"

text \<open>The values put into a container are encoded first: a panic in one is a panic of the whole.\<close>

definition wire_array :: "str option list \<Rightarrow> str option" where
  "wire_array items =
     Option.bind (those items) (\<lambda>bss. map_option (\<lambda>h. h @ concat bss) (extended ARRAY (length items)))"

fun wire_pairs :: "(str \<times> str) list \<Rightarrow> str option" where
  "wire_pairs [] = Some []"
| "wire_pairs ((key, v) # ps) =
     Option.bind (wire_string key) (\<lambda>k. map_option (\<lambda>rest. k @ v @ rest) (wire_pairs ps))"

definition wire_map :: "(str \<times> str option) list \<Rightarrow> str option" where
  "wire_map pairs =
     Option.bind (those (map snd pairs)) (\<lambda>vs.
     Option.bind (header MAP (length pairs)) (\<lambda>h.
     map_option (\<lambda>rest. h @ rest) (wire_pairs (zip (map fst pairs) vs))))"

definition metadata :: "str \<Rightarrow> 16 word \<Rightarrow> str option" where
  "metadata database_type ip_version =
     wire_map
       [(''binary_format_major_version'', wire_uint16 2),
        (''binary_format_minor_version'', wire_uint16 0),
        (''build_epoch'', wire_uint64 0),
        (''database_type'', wire_string database_type),
        (''description'', wire_map [(''en'', wire_string ''fixture'')]),
        (''ip_version'', wire_uint16 ip_version),
        (''languages'', wire_array [wire_string ''en'']),
        (''node_count'', wire_uint32 (of_nat NODE_COUNT)),
        (''record_size'', wire_uint16 (of_nat RECORD_SIZE))]"

text \<open>A slot is a \<open>u32\<close> of which the file carries three bytes; a sum past it panics in the tests' build.\<close>

definition database_file :: "str \<Rightarrow> nat \<Rightarrow> str \<Rightarrow> 16 word \<Rightarrow> str option" where
  "database_file data root database_type ip_version =
     (let slot = NODE_COUNT + length SEPARATOR + root;
          pointer = tl (be_bytes 4 slot)
      in if 2 ^ 32 \<le> slot then None
         else map_option (\<lambda>meta. pointer @ pointer @ SEPARATOR @ data @ WIRE_MARKER @ meta)
                (metadata database_type ip_version))"

section \<open>The databases built with it\<close>

definition asn_record :: "32 word \<Rightarrow> str \<Rightarrow> str option" where
  "asn_record number organisation =
     wire_map [(''autonomous_system_number'', wire_uint32 number),
               (''autonomous_system_organization'', wire_string organisation)]"

definition city_record :: "str \<Rightarrow> str option" where
  "city_record iso_code = wire_map [(''country'', wire_map [(''iso_code'', wire_string iso_code)])]"

definition asn_mmdb :: "32 word \<Rightarrow> str \<Rightarrow> str option" where
  "asn_mmdb number organisation =
     Option.bind (asn_record number organisation) (\<lambda>r. database_file r 0 ''GeoLite2-ASN'' (of_nat IPV4))"

definition asn_mmdb_v6 :: "32 word \<Rightarrow> str \<Rightarrow> str option" where
  "asn_mmdb_v6 number organisation =
     Option.bind (asn_record number organisation) (\<lambda>r. database_file r 0 ''GeoLite2-ASN'' (of_nat IPV6))"

definition city_mmdb :: "str \<Rightarrow> str option" where
  "city_mmdb iso_code = Option.bind (city_record iso_code) (\<lambda>r. database_file r 0 ''GeoLite2-City'' (of_nat IPV4))"

definition city_mmdb_v6 :: "str \<Rightarrow> str option" where
  "city_mmdb_v6 iso_code = Option.bind (city_record iso_code) (\<lambda>r. database_file r 0 ''GeoLite2-City'' (of_nat IPV6))"

definition flat_city_mmdb :: "str \<Rightarrow> str option" where
  "flat_city_mmdb code =
     Option.bind (wire_map [(''country_code'', wire_string code), (''continent_code'', wire_string ''OC'')])
       (\<lambda>r. database_file r 0 ''ipinfo lite'' (of_nat IPV4))"

text \<open>\<open>mod crafted\<close> of \<open>extra.rs\<close>: pointers in the two-byte form, and the records made of them.\<close>

definition POINTER :: nat where "POINTER = 1"
definition POINTER_LIMIT :: nat where "POINTER_LIMIT = 2048"
definition DATABASE_TYPE :: str where "DATABASE_TYPE = ''GeoLite2-City''"

definition wire_pointer :: "nat \<Rightarrow> str option" where
  "wire_pointer target =
     (if target < POINTER_LIMIT then Some [control POINTER (drop_bit 8 target), char_of (target AND 0xFF)] else None)"

text \<open>The loop of \<open>pointer_bomb\<close>: the data so far and the offset of the level below.\<close>

fun bomb_levels :: "nat \<Rightarrow> str \<times> nat \<Rightarrow> (str \<times> nat) option" where
  "bomb_levels 0 s = Some s"
| "bomb_levels (Suc n) (data, below) =
     Option.bind (wire_pointer below) (\<lambda>branch.
     Option.bind (header MAP 2) (\<lambda>h.
     Option.bind (wire_string ''a'') (\<lambda>a.
     Option.bind (wire_string ''b'') (\<lambda>b.
       bomb_levels n (data @ h @ a @ branch @ b @ branch, length data)))))"

definition pointer_bomb :: "nat \<Rightarrow> str \<Rightarrow> str option" where
  "pointer_bomb levels leaf =
     Option.bind (wire_string leaf) (\<lambda>data.
     Option.bind (bomb_levels levels (data, 0)) (\<lambda>(data, below). database_file data below DATABASE_TYPE (of_nat IPV4)))"

fun wide_fields :: "nat \<Rightarrow> nat \<Rightarrow> str \<Rightarrow> str option" where
  "wide_fields index 0 value = Some []"
| "wide_fields index (Suc n) value =
     Option.bind (wire_string (''f'' @ show_nat index)) (\<lambda>k.
     Option.bind (wire_string value) (\<lambda>v. map_option (\<lambda>rest. k @ v @ rest) (wide_fields (index + 1) n value)))"

definition wide_record :: "nat \<Rightarrow> str \<Rightarrow> str option" where
  "wide_record n value =
     Option.bind (header MAP n) (\<lambda>h.
     Option.bind (wide_fields 0 n value) (\<lambda>fs. database_file (h @ fs) 0 DATABASE_TYPE (of_nat IPV4)))"

section \<open>What a data section holds\<close>

text \<open>The value of bytes read the highest first, and the bytes of a slice that is there.\<close>

definition be_value :: "str \<Rightarrow> nat" where
  "be_value bs = foldl (\<lambda>n b. n * 256 + byte_of b) 0 bs"

definition slice :: "str \<Rightarrow> nat \<Rightarrow> nat \<Rightarrow> str option" where
  "slice d off n = (if off + n \<le> length d then Some (take n (drop off d)) else None)"

text \<open>
  The kind of value at an offset, the size field, and where the payload starts: an extended kind is
  named by a byte of its own, a size of 29 or more spills into the bytes behind that.
\<close>

definition kind_at :: "str \<Rightarrow> nat \<Rightarrow> (nat \<times> nat \<times> nat) option" where
  "kind_at d off =
     map_option (\<lambda>bs. let c = be_value bs in (c div 32, c mod 32, off + 1)) (slice d off 1)"

fun spilled :: "str \<Rightarrow> nat \<Rightarrow> nat \<Rightarrow> (nat \<times> nat) option" where
  "spilled d len off =
     (if len < 29 then Some (len, off)
      else let n = len - 28; base = (if n = 1 then 29 else if n = 2 then 285 else 65821)
           in map_option (\<lambda>bs. (base + be_value bs, off + n)) (slice d off n))"

definition control_at :: "str \<Rightarrow> nat \<Rightarrow> (nat \<times> nat \<times> nat) option" where
  "control_at d off =
     Option.bind (kind_at d off) (\<lambda>(kind, len, next).
       if kind = 0
       then Option.bind (slice d next 1) (\<lambda>bs.
              map_option (\<lambda>(n, off). (MAP + be_value bs, n, off)) (spilled d len (next + 1)))
       else map_option (\<lambda>(n, off). (kind, n, off)) (spilled d len next))"

text \<open>The offset a pointer leads to, and where it ends; its size field holds the form and the high bits.\<close>

definition pointer_at :: "str \<Rightarrow> nat \<Rightarrow> (nat \<times> nat) option" where
  "pointer_at d off =
     Option.bind (kind_at d off) (\<lambda>(kind, len, next).
       let form = len div 8; high = (if form = 3 then 0 else len mod 8) in
       if kind = POINTER
       then map_option (\<lambda>bs. (high * 256 ^ (form + 1) + be_value bs + [0, 2048, 526336, 0] ! form, next + form + 1))
              (slice d next (form + 1))
       else None)"

text \<open>At an offset a value is stored, and ends at another: the kinds the encoders write.\<close>

inductive stored :: "str \<Rightarrow> nat \<Rightarrow> mmdb_value \<Rightarrow> nat \<Rightarrow> bool"
  and stored_pairs :: "str \<Rightarrow> nat \<Rightarrow> nat \<Rightarrow> (str \<times> mmdb_value) list \<Rightarrow> nat \<Rightarrow> bool"
  and stored_items :: "str \<Rightarrow> nat \<Rightarrow> nat \<Rightarrow> mmdb_value list \<Rightarrow> nat \<Rightarrow> bool" for d where
  stored_pointer: "pointer_at d off = Some (target, next) \<Longrightarrow> stored d target v n \<Longrightarrow> stored d off v next"
| stored_string: "control_at d off = Some (STRING, len, at) \<Longrightarrow> slice d at len = Some bs \<Longrightarrow>
    stored d off (MStr bs) (at + len)"
| stored_uint: "control_at d off = Some (kind, len, at) \<Longrightarrow>
    (kind, len) \<in> {UINT16} \<times> {..2} \<union> {UINT32} \<times> {..4} \<union> {UINT64} \<times> {..8} \<Longrightarrow> slice d at len = Some bs \<Longrightarrow>
    stored d off (MU64 (be_value bs)) (at + len)"
| stored_map: "control_at d off = Some (MAP, len, at) \<Longrightarrow> stored_pairs d len at es next \<Longrightarrow>
    stored d off (MMap es None) next"
| stored_array: "control_at d off = Some (ARRAY, len, at) \<Longrightarrow> stored_items d len at vs next \<Longrightarrow>
    stored d off (MSeq vs) next"
| no_pairs: "stored_pairs d 0 off [] off"
| more_pairs: "stored d off (MStr key) at \<Longrightarrow> stored d at v next \<Longrightarrow> stored_pairs d n next es end \<Longrightarrow>
    stored_pairs d (Suc n) off ((key, v) # es) end"
| no_items: "stored_items d 0 off [] off"
| more_items: "stored d off v next \<Longrightarrow> stored_items d n next vs end \<Longrightarrow> stored_items d (Suc n) off (v # vs) end"

section \<open>Bytes\<close>

text \<open>Bytes are in a data section at an offset.\<close>

definition at :: "str \<Rightarrow> nat \<Rightarrow> str \<Rightarrow> bool" where
  "at d off bs \<longleftrightarrow> slice d off (length bs) = Some bs"

lemma at_append: "at d off (xs @ ys) \<longleftrightarrow> at d off xs \<and> at d (off + length xs) ys"
  by (auto simp: at_def slice_def take_add add.commute split: if_splits)

lemma at_Cons: "at d off (x # xs) \<longleftrightarrow> at d off [x] \<and> at d (off + 1) xs"
  using at_append [of d off "[x]" xs] by simp

lemma at_concat: "at (pre @ bs @ post) (length pre) bs"
  by (simp add: at_def slice_def)

lemma at_slice: "at d off bs \<Longrightarrow> length bs = n \<Longrightarrow> slice d off n = Some bs"
  by (auto simp: at_def)

lemma slice_more: "slice d off n = Some bs \<Longrightarrow> slice (d @ post) off n = Some bs"
  by (auto simp: slice_def split: if_splits)

lemma be_value_snoc [simp]: "be_value (bs @ [b]) = be_value bs * 256 + byte_of b"
  by (simp add: be_value_def)

lemma be_value_Nil [simp]: "be_value [] = 0"
  by (simp add: be_value_def)

lemma be_value_Cons: "be_value (b # bs) = byte_of b * 256 ^ length bs + be_value bs"
  by (induction bs rule: rev_induct) (simp_all add: be_value_def algebra_simps)

lemma be_bytes_snoc: "be_bytes (Suc n) v = be_bytes n (drop_bit 8 v) @ [char_of v]"
proof -
  have "char_of (drop_bit (8 * (n - i)) v) = (char_of (drop_bit (8 * (n - 1 - i)) (drop_bit 8 v)) :: char)" if "i < n" for i
  proof -
    have "8 * (n - i) = 8 * (n - 1 - i) + 8" using that by (cases n) auto
    then show ?thesis by (simp add: add.commute)
  qed
  then show ?thesis by (simp add: be_bytes_def)
qed

lemma be_bytes_length [simp]: "length (be_bytes n v) = n"
  by (simp add: be_bytes_def)

lemma be_value_bytes: "be_value (be_bytes n v) = v mod 256 ^ n"
proof (induction n arbitrary: v)
  case (Suc n)
  have "(v div 256) mod 256 ^ n * 256 + v mod 256 = v mod 256 ^ Suc n"
    by (simp add: mod_mult2_eq)
  with Suc show ?case by (simp add: be_bytes_snoc drop_bit_eq_div)
qed (simp add: be_bytes_def)

lemma byte_zero: "byte_of b = 0 \<longleftrightarrow> b = CHR 0x00"
  by (cases b) (auto simp: of_char_def)

lemma be_value_zeros: "be_value (dropWhile (\<lambda>b. b = CHR 0x00) bs) = be_value bs"
  by (induction bs) (auto simp: be_value_Cons)

lemma trimmed_drops: "trimmed v = dropWhile (\<lambda>b. b = CHR 0x00) (be_bytes 8 (unat v))"
proof -
  have "drop (case position (\<lambda>b. b \<noteq> z) bs of Some first \<Rightarrow> first | None \<Rightarrow> length bs) bs = dropWhile (\<lambda>b. b = z) bs"
    for z :: char and bs
    by (induction bs) (auto split: option.splits)
  from this [where z = "CHR 0x00" and bs = "be_bytes 8 (unat v)"] show ?thesis
    unfolding be_bytes_length by (simp only: trimmed_def Let_def)
qed

lemma trimmed_value: "be_value (trimmed v) = unat v"
  using unsigned_less [where w = v and ?'a = nat] by (simp add: trimmed_drops be_value_zeros be_value_bytes)

lemma trimmed_length:
  assumes "unat v < 256 ^ n"
  shows "length (trimmed v) \<le> n"
proof (rule ccontr)
  assume long: "\<not> length (trimmed v) \<le> n"
  then obtain b bs where bs: "trimmed v = b # bs" by (cases "trimmed v") auto
  then have "b \<noteq> CHR 0x00" using hd_dropWhile [of "\<lambda>b. b = CHR 0x00" "be_bytes 8 (unat v)"] by (simp add: trimmed_drops)
  then have "byte_of b \<noteq> 0" by (simp add: byte_zero)
  then have "1 * 256 ^ length bs \<le> byte_of b * 256 ^ length bs" by (intro mult_le_mono1) simp
  moreover have "byte_of b * 256 ^ length bs + be_value bs = unat v"
    using trimmed_value [of v] by (simp add: bs be_value_Cons)
  ultimately have "256 ^ length bs \<le> unat v" by linarith
  moreover have "(256 :: nat) ^ n \<le> 256 ^ length bs" using long by (intro power_increasing) (auto simp: bs)
  ultimately show False using assms by linarith
qed

lemma control_value:
  assumes "kind < 8" and "len < 32"
  shows "byte_of (control kind len) = kind * 32 + len"
proof -
  have "push_bit 5 kind AND take_bit 5 len = 0"
    by (rule bit_eqI) (auto simp: bit_simps)
  then have "push_bit 5 kind AND len = 0" using assms(2) by (simp add: take_bit_nat_eq_self)
  then have "push_bit 5 kind OR len = kind * 32 + len"
    using disjunctive_add_eq_or [of "push_bit 5 kind" len] by (simp add: push_bit_eq_mult)
  then show ?thesis using assms by (simp add: control_def)
qed

section \<open>What is encoded is stored\<close>

lemma at_one: "at d off [b] \<Longrightarrow> slice d off (Suc 0) = Some [b]"
  by (simp add: at_def)

lemma be_value_one [simp]: "be_value [b] = byte_of b"
  by (simp add: be_value_Cons)

lemma kind_at_control:
  assumes "at d off [control kind len]" and "kind < 8" and "len < 32"
  shows "kind_at d off = Some (kind, len, off + 1)"
  using at_one [OF assms(1)] control_value [OF assms(2,3)] assms(3)
  by (simp add: kind_at_def Let_def div_mult_self3)

lemma spilled_forms:
  "len < 29 \<Longrightarrow> spilled d len off = Some (len, off)"
  "at d off [b] \<Longrightarrow> spilled d 29 off = Some (29 + byte_of b, off + 1)"
  "at d off [b, b'] \<Longrightarrow> spilled d 30 off = Some (285 + byte_of b * 256 + byte_of b', off + 2)"
  by (simp_all add: at_def be_value_Cons numeral_2_eq_2)

lemma control_at_header:
  assumes "header kind len = Some h" and "at d off h" and "1 < kind" and "kind < 8"
  shows "control_at d off = Some (kind, len, off + length h)"
proof -
  have control: "control_at d off = map_option (\<lambda>(n, off). (kind, n, off)) (spilled d field (off + 1))"
    if "at d off [control kind field]" and "field < 32" for field
    using kind_at_control [OF that(1) assms(4) that(2)] assms(3) by (simp add: control_at_def del: spilled.simps)
  have first: "at d off [b] \<and> at d (off + 1) bs" if "h = b # bs" for b bs
    using assms(2) at_Cons that by blast
  from assms(1) consider (plain) "len \<le> 28" "h = [control kind len]"
    | (one) "29 \<le> len" "len \<le> 284" "h = [control kind 29, char_of (len - 29)]"
    | (two) "285 \<le> len" "len \<le> 65819"
        "h = [control kind 30, char_of ((len - 285) div 256), char_of ((len - 285) mod 256)]"
    by (auto simp: header_def SPILL_ONE_def SPILL_TWO_def split: if_splits)
  then show ?thesis
  proof cases
    case plain
    with control [of len] first show ?thesis by (simp add: spilled_forms(1) del: spilled.simps)
  next
    case one
    with control [of 29] first spilled_forms(2) [of d "off + 1" "char_of (len - 29)"] show ?thesis
      by (simp add: numeral_2_eq_2 del: spilled.simps)
  next
    case two
    then have "byte_of (char_of ((len - 285) div 256)) * 256 + byte_of (char_of ((len - 285) mod 256)) = len - 285"
      by (simp add: div_mult_mod_eq)
    with two control [of 30] first spilled_forms(3) [of d "off + 1" "char_of ((len - 285) div 256)" "char_of ((len - 285) mod 256)"] show ?thesis
      by (simp add: numeral_3_eq_3 add.assoc del: spilled.simps)
  qed
qed

lemma control_at_extended:
  assumes "extended kind len = Some h" and "at d off h" and "MAP < kind" and "kind < 256"
  shows "control_at d off = Some (kind, len, off + length h)"
proof -
  from assms(1) have len: "len < 29" "h = [char_of len, char_of (kind - MAP)]"
    by (auto simp: extended_def SPILL_ONE_def split: if_splits)
  with assms(2) have "at d off [char_of len]" "at d (off + 1) [char_of (kind - MAP)]"
    using at_Cons by blast+
  then have "kind_at d off = Some (0, len, off + 1)" and "slice d (off + 1) 1 = Some [char_of (kind - MAP)]"
    using len(1) by (simp_all add: kind_at_def at_one)
  then show ?thesis
    using len assms(3,4) by (simp add: control_at_def spilled_forms(1) MAP_def del: spilled.simps)
qed

lemma slice_at_end: "at d off (h @ bs) \<Longrightarrow> slice d (off + length h) (length bs) = Some bs"
  by (simp only: at_append) (simp add: at_def)

lemma string_stored:
  assumes "wire_string v = Some bs" and "at d off bs"
  shows "stored d off (MStr v) (off + length bs)"
proof -
  from assms(1) obtain h where h: "header STRING (length v) = Some h" "bs = h @ v" by (auto simp: wire_string_def)
  have "control_at d off = Some (STRING, length v, off + length h)"
    using control_at_header [OF h(1)] assms(2) by (simp add: h(2) at_append STRING_def)
  from stored_string [OF this slice_at_end [OF assms(2) [unfolded h(2)]]] show ?thesis by (simp add: h(2) add.assoc)
qed

lemma uint_stored:
  assumes "control_at d off = Some (kind, length (trimmed v), off + length h)" and "at d off (h @ trimmed v)"
    and "(kind, length (trimmed v)) \<in> {UINT16} \<times> {..2} \<union> {UINT32} \<times> {..4} \<union> {UINT64} \<times> {..8}"
  shows "stored d off (MU64 (unat v)) (off + length (h @ trimmed v))"
  using stored_uint [OF assms(1,3) slice_at_end [OF assms(2)]] by (simp add: trimmed_value add.assoc)

lemma widened:
  "unat (ucast (v :: 16 word) :: 64 word) = unat v" "unat (ucast (u :: 32 word) :: 64 word) = unat u"
  using unsigned_less [where w = v and ?'a = nat] unsigned_less [where w = u and ?'a = nat]
  by (simp_all add: unsigned_ucast_eq take_bit_nat_eq_self_iff)

lemma uint16_stored:
  assumes "wire_uint16 v = Some bs" and "at d off bs"
  shows "stored d off (MU64 (unat v)) (off + length bs)"
proof -
  let ?v = "ucast v :: 64 word"
  from assms(1) obtain h where h: "header UINT16 (length (trimmed ?v)) = Some h" "bs = h @ trimmed ?v"
    by (auto simp: wire_uint16_def Let_def)
  have "length (trimmed ?v) \<le> 2" using unsigned_less [where w = v and ?'a = nat] by (intro trimmed_length) (simp add: widened)
  moreover have "control_at d off = Some (UINT16, length (trimmed ?v), off + length h)"
    using control_at_header [OF h(1)] assms(2) by (simp add: h(2) at_append UINT16_def)
  ultimately show ?thesis using uint_stored [OF _ assms(2) [unfolded h(2)]] by (simp add: h(2) widened)
qed

lemma uint32_stored:
  assumes "wire_uint32 v = Some bs" and "at d off bs"
  shows "stored d off (MU64 (unat v)) (off + length bs)"
proof -
  let ?v = "ucast v :: 64 word"
  from assms(1) obtain h where h: "header UINT32 (length (trimmed ?v)) = Some h" "bs = h @ trimmed ?v"
    by (auto simp: wire_uint32_def Let_def)
  have "length (trimmed ?v) \<le> 4" using unsigned_less [where w = v and ?'a = nat] by (intro trimmed_length) (simp add: widened)
  moreover have "control_at d off = Some (UINT32, length (trimmed ?v), off + length h)"
    using control_at_header [OF h(1)] assms(2) by (simp add: h(2) at_append UINT32_def)
  ultimately show ?thesis using uint_stored [OF _ assms(2) [unfolded h(2)]] by (simp add: h(2) widened)
qed

lemma uint64_stored:
  assumes "wire_uint64 v = Some bs" and "at d off bs"
  shows "stored d off (MU64 (unat v)) (off + length bs)"
proof -
  from assms(1) obtain h where h: "extended UINT64 (length (trimmed v)) = Some h" "bs = h @ trimmed v"
    by (auto simp: wire_uint64_def Let_def)
  have "length (trimmed v) \<le> 8" using unsigned_less [where w = v and ?'a = nat] by (intro trimmed_length) simp
  moreover have "control_at d off = Some (UINT64, length (trimmed v), off + length h)"
    using control_at_extended [OF h(1)] assms(2) by (simp add: h(2) at_append UINT64_def MAP_def)
  ultimately show ?thesis using uint_stored [OF _ assms(2) [unfolded h(2)]] by (simp add: h(2))
qed

text \<open>Values as the encoders are called with them, and what a reader hands over of them.\<close>

datatype wired =
    PutString str
  | Put16 "16 word"
  | Put32 "32 word"
  | Put64 "64 word"
  | PutMap "(str \<times> wired) list"
  | PutArray "wired list"

fun encoded :: "wired \<Rightarrow> str option" where
  "encoded (PutString v) = wire_string v"
| "encoded (Put16 v) = wire_uint16 v"
| "encoded (Put32 v) = wire_uint32 v"
| "encoded (Put64 v) = wire_uint64 v"
| "encoded (PutMap ps) = wire_map (map (\<lambda>(k, w). (k, encoded w)) ps)"
| "encoded (PutArray ws) = wire_array (map encoded ws)"

fun read_back :: "wired \<Rightarrow> mmdb_value" where
  "read_back (PutString v) = MStr v"
| "read_back (Put16 v) = MU64 (unat v)"
| "read_back (Put32 v) = MU64 (unat v)"
| "read_back (Put64 v) = MU64 (unat v)"
| "read_back (PutMap ps) = MMap (map (\<lambda>(k, w). (k, read_back w)) ps) None"
| "read_back (PutArray ws) = MSeq (map read_back ws)"

lemma those_Cons: "those (x # xs) = Some vs \<longleftrightarrow> (\<exists>v vs'. x = Some v \<and> those xs = Some vs' \<and> vs = v # vs')"
  by (auto split: option.splits)

lemma pairs_stored:
  assumes "\<And>k w off bs. (k, w) \<in> set ps \<Longrightarrow> encoded w = Some bs \<Longrightarrow> at d off bs \<Longrightarrow> stored d off (read_back w) (off + length bs)"
    and "those (map (\<lambda>p. encoded (snd p)) ps) = Some vs" and "wire_pairs (zip (map fst ps) vs) = Some bs" and "at d off bs"
  shows "stored_pairs d (length ps) off (map (\<lambda>(k, w). (k, read_back w)) ps) (off + length bs)"
  using assms
proof (induction ps arbitrary: vs bs off)
  case Nil
  then show ?case by (auto intro: stored_stored_pairs_stored_items.intros)
next
  case (Cons p ps)
  obtain k w where p: "p = (k, w)" by (cases p)
  from Cons.prems(2) obtain v vs' where v: "encoded w = Some v" "those (map (\<lambda>p. encoded (snd p)) ps) = Some vs'" "vs = v # vs'"
    by (auto simp: p those_Cons simp del: those.simps)
  from Cons.prems(3) obtain kb rest where kb: "wire_string k = Some kb" "wire_pairs (zip (map fst ps) vs') = Some rest"
    and bs: "bs = kb @ v @ rest" by (auto simp: p v(3) bind_eq_Some_conv)
  from Cons.prems(4) have at: "at d off kb" "at d (off + length kb) v" "at d (off + length kb + length v) rest"
    by (simp_all add: bs at_append)
  have "stored_pairs d (length ps) (off + length kb + length v) (map (\<lambda>(k, w). (k, read_back w)) ps)
      (off + length kb + length v + length rest)"
    by (rule Cons.IH [OF Cons.prems(1) v(2) kb(2) at(3)]) auto
  from more_pairs [OF string_stored [OF kb(1) at(1)] Cons.prems(1) [where k = k, OF _ v(1) at(2)] this]
  show ?case by (simp add: p bs add.assoc)
qed

lemma items_stored:
  assumes "\<And>w off bs. w \<in> set ws \<Longrightarrow> encoded w = Some bs \<Longrightarrow> at d off bs \<Longrightarrow> stored d off (read_back w) (off + length bs)"
    and "those (map encoded ws) = Some vs" and "at d off (concat vs)"
  shows "stored_items d (length ws) off (map read_back ws) (off + length (concat vs))"
  using assms
proof (induction ws arbitrary: vs off)
  case Nil
  then show ?case by (auto intro: stored_stored_pairs_stored_items.intros)
next
  case (Cons w ws)
  from Cons.prems(2) obtain v vs' where v: "encoded w = Some v" "those (map encoded ws) = Some vs'" "vs = v # vs'"
    by (auto simp: those_Cons simp del: those.simps)
  from Cons.prems(3) have at: "at d off v" "at d (off + length v) (concat vs')" by (simp_all add: v(3) at_append)
  have "stored_items d (length ws) (off + length v) (map read_back ws) (off + length v + length (concat vs'))"
    by (rule Cons.IH [OF Cons.prems(1) v(2) at(2)]) auto
  from more_items [OF Cons.prems(1) [OF _ v(1) at(1)] this] show ?case by (simp add: v(3) add.assoc)
qed

lemma encoded_stored: "encoded w = Some bs \<Longrightarrow> at d off bs \<Longrightarrow> stored d off (read_back w) (off + length bs)"
proof (induction w arbitrary: off bs rule: encoded.induct)
  case (5 ps)
  let ?ps = "map (\<lambda>(k, w). (k, encoded w)) ps"
  have maps: "map snd ?ps = map (\<lambda>p. encoded (snd p)) ps" "map fst ?ps = map fst ps"
    by (auto simp: split_beta)
  from "5.prems"(1) obtain vs h rest where vs: "those (map (\<lambda>p. encoded (snd p)) ps) = Some vs"
    and h: "header MAP (length ps) = Some h" and rest: "wire_pairs (zip (map fst ps) vs) = Some rest" and bs: "bs = h @ rest"
    unfolding encoded.simps wire_map_def maps by (auto simp: bind_eq_Some_conv)
  from "5.prems"(2) have at: "at d off h" "at d (off + length h) rest" by (simp_all add: bs at_append)
  have "control_at d off = Some (MAP, length ps, off + length h)"
    by (rule control_at_header [OF h at(1)]) (simp_all add: MAP_def)
  moreover have "stored_pairs d (length ps) (off + length h) (map (\<lambda>(k, w). (k, read_back w)) ps) (off + length h + length rest)"
    by (rule pairs_stored [OF _ vs rest at(2)]) (use "5.IH" in auto)
  ultimately show ?case using stored_map by (auto simp: bs add.assoc)
next
  case (6 ws)
  from "6.prems"(1) obtain vs h where vs: "those (map encoded ws) = Some vs" and h: "extended ARRAY (length ws) = Some h"
    and bs: "bs = h @ concat vs" by (auto simp: wire_array_def bind_eq_Some_conv)
  from "6.prems"(2) have at: "at d off h" "at d (off + length h) (concat vs)" by (simp_all add: bs at_append)
  have "control_at d off = Some (ARRAY, length ws, off + length h)"
    by (rule control_at_extended [OF h at(1)]) (simp_all add: MAP_def ARRAY_def)
  moreover have "stored_items d (length ws) (off + length h) (map read_back ws) (off + length h + length (concat vs))"
    by (rule items_stored [OF _ vs at(2)]) (use "6.IH" in auto)
  ultimately show ?case using stored_array by (auto simp: bs add.assoc)
qed (auto intro: string_stored uint16_stored uint32_stored uint64_stored)

section \<open>Nothing else is stored there\<close>

lemma control_not_pointer:
  assumes "control_at d off = Some (kind, len, next)" and "1 < kind"
  shows "pointer_at d off = None"
  using assms
  by (auto simp: control_at_def pointer_at_def POINTER_def bind_eq_Some_conv Let_def split: if_splits option.splits)

inductive_cases stored_pairsE: "stored_pairs d n off es end"
inductive_cases stored_itemsE: "stored_items d n off vs end"

lemmas kinds = STRING_def UINT16_def UINT32_def UINT64_def MAP_def ARRAY_def POINTER_def

text \<open>What stands at an offset is decided by its control bytes.\<close>

lemma stored_behind_pointer:
  assumes "pointer_at d off = Some (target, next)" and "stored d off v n"
  shows "n = next \<and> (\<exists>m. stored d target v m)"
  using assms(2)
proof (cases rule: stored.cases)
  case (stored_pointer t m)
  then show ?thesis using assms(1) by auto
qed (use assms(1) control_not_pointer [of d off] in \<open>auto simp: kinds\<close>)

lemma stored_by_kind:
  assumes "control_at d off = Some (kind, len, pos)" and "1 < kind" and "stored d off v n"
  shows "(kind = STRING \<and> (\<exists>bs. slice d pos len = Some bs \<and> v = MStr bs \<and> n = pos + len))
    \<or> (kind \<in> {UINT16, UINT32, UINT64} \<and> (\<exists>bs. slice d pos len = Some bs \<and> v = MU64 (be_value bs) \<and> n = pos + len))
    \<or> (kind = MAP \<and> (\<exists>es. stored_pairs d len pos es n \<and> v = MMap es None))
    \<or> (kind = ARRAY \<and> (\<exists>vs. stored_items d len pos vs n \<and> v = MSeq vs))"
proof -
  have direct: "pointer_at d off = None" using control_not_pointer [OF assms(1,2)] .
  from assms(3) show ?thesis
    by (cases rule: stored.cases) (use assms(1) direct in auto)
qed

lemma stored_once:
  "stored d off v n \<Longrightarrow> stored d off v' n' \<Longrightarrow> v' = v \<and> n' = n"
  "stored_pairs d k off es n \<Longrightarrow> stored_pairs d k off es' n' \<Longrightarrow> es' = es \<and> n' = n"
  "stored_items d k off vs n \<Longrightarrow> stored_items d k off vs' n' \<Longrightarrow> vs' = vs \<and> n' = n"
proof (induction arbitrary: v' n' and es' n' and vs' n' rule: stored_stored_pairs_stored_items.inducts)
  case (stored_pointer off target nxt v n)
  from stored_behind_pointer [OF stored_pointer(1,4)] stored_pointer(3) show ?case by blast
next
  case (stored_string off len at' bs)
  from stored_by_kind [OF stored_string(1) _ stored_string(3)] stored_string(2) show ?case by (auto simp: kinds)
next
  case (stored_uint off kind len at' bs)
  then have "1 < kind" by (auto simp: kinds)
  from stored_by_kind [OF stored_uint(1) this stored_uint(4)] stored_uint(2,3) show ?case by (auto simp: kinds)
next
  case (stored_map off len at' es nxt)
  from stored_by_kind [OF stored_map(1) _ stored_map(4)] stored_map(3) show ?case by (auto simp: kinds)
next
  case (stored_array off len at' vs nxt)
  from stored_by_kind [OF stored_array(1) _ stored_array(4)] stored_array(3) show ?case by (auto simp: kinds)
next
  case (no_pairs off)
  then show ?case by (auto elim: stored_pairsE)
next
  case (more_pairs off key at' v nxt n es fin)
  from more_pairs.prems obtain key2 at2 v2 nxt2 es2 where es: "es' = (key2, v2) # es2" "stored d off (MStr key2) at2"
    "stored d at2 v2 nxt2" "stored_pairs d n nxt2 es2 n'"
    by (rule stored_pairsE) auto
  from more_pairs(2) [OF es(2)] have "key2 = key" "at2 = at'" by auto
  with more_pairs(4) es(3) have "v2 = v" "nxt2 = nxt" by auto
  with more_pairs(6) es(1,4) \<open>key2 = key\<close> show ?case by auto
next
  case (no_items off)
  then show ?case by (auto elim: stored_itemsE)
next
  case (more_items off v nxt n vs fin)
  from more_items.prems obtain v2 nxt2 vs2 where vs: "vs' = v2 # vs2" "stored d off v2 nxt2" "stored_items d n nxt2 vs2 n'"
    by (rule stored_itemsE) auto
  from more_items(2) [OF vs(2)] more_items(4) vs(1,3) show ?case by auto
qed

text \<open>C35: what the encoders write at an offset is read back there as the value that was written, ends where
  its bytes end, and is the only value stored there, whatever stands in front of it and behind it.\<close>

theorem what_is_written_is_read:
  assumes "encoded w = Some bs"
  shows "stored (pre @ bs @ post) (length pre) v n \<longleftrightarrow> v = read_back w \<and> n = length pre + length bs"
  using stored_once(1) encoded_stored [OF assms at_concat] by blast

theorem what_is_written_is_read_witness:
  "\<exists>bs. encoded (PutMap [(''asn'', Put32 64512), (''names'', PutArray [PutString ''a'', PutString []])]) = Some bs
     \<and> stored (''xy'' @ bs @ ''z'') 2 (MMap [(''asn'', MU64 64512), (''names'', MSeq [MStr ''a'', MStr []])] None) (2 + length bs)"
proof -
  let ?w = "PutMap [(''asn'', Put32 64512), (''names'', PutArray [PutString ''a'', PutString []])]"
  have read_back_w: "read_back ?w = MMap [(''asn'', MU64 64512), (''names'', MSeq [MStr ''a'', MStr []])] None" by simp
  have "length (trimmed 64512) \<le> 2" by (rule trimmed_length) simp
  then have "\<exists>bs. encoded ?w = Some bs"
    by (simp add: wire_map_def wire_array_def wire_uint32_def wire_string_def header_def extended_def SPILL_ONE_def Let_def)
  then obtain bs where bs: "encoded ?w = Some bs" by blast
  from what_is_written_is_read [OF bs, of "''xy''" "''z''"] bs have "stored (''xy'' @ bs @ ''z'') (length ''xy'') (read_back ?w) (length ''xy'' + length bs)" by blast
  moreover have "length ''xy'' = 2" by simp
  ultimately show ?thesis using bs by (metis read_back_w)
qed

section \<open>The record of a file\<close>

text \<open>
  One node of two records, both leading past the node and the separator to the same place in what
  stands behind them: every address resolves to the record stored there.
\<close>

definition record_stored :: "str \<Rightarrow> mmdb_value \<Rightarrow> bool" where
  "record_stored f v \<longleftrightarrow>
     (let width = RECORD_SIZE div 8; slot = be_value (take width f); front = NODE_COUNT + length SEPARATOR
      in take width (drop width f) = take width f \<and> front \<le> slot
         \<and> (\<exists>n. stored (drop (2 * width + length SEPARATOR) f) (slot - front) v n))"

lemma record_stored_once: "record_stored f v \<Longrightarrow> record_stored f v' \<Longrightarrow> v' = v"
  using stored_once(1) by (auto simp: record_stored_def Let_def)

lemma be_value_tl: "bs \<noteq> [] \<Longrightarrow> be_value (tl bs) = be_value bs mod 256 ^ (length bs - 1)"
proof (cases bs)
  case (Cons b r)
  have "be_value r < 256 ^ length r"
  proof (induction r rule: rev_induct)
    case (snoc c r)
    moreover have "byte_of c < 256" by simp
    ultimately have "be_value r * 256 + byte_of c < 256 ^ length r * 256" by linarith
    then show ?case by simp
  qed simp
  then show ?thesis by (simp add: Cons be_value_Cons)
qed simp

lemma database_record:
  assumes "database_file d root ty ip = Some f" and "root + 17 < 2 ^ 24"
    and "\<And>post. \<exists>n. stored (d @ post) root v n"
  shows "record_stored f v"
proof -
  let ?tree = "tl (be_bytes 4 (17 + root))"
  have slot: "NODE_COUNT + length SEPARATOR = 17" by (simp add: NODE_COUNT_def SEPARATOR_def)
  from assms(1) obtain meta where f: "f = ?tree @ ?tree @ SEPARATOR @ d @ WIRE_MARKER @ meta"
    by (auto simp: database_file_def Let_def slot split: if_splits)
  have "be_bytes 4 (17 + root) \<noteq> []" by (metis be_bytes_length list.size(3) zero_neq_numeral)
  from be_value_tl [OF this] assms(2) have "be_value ?tree = 17 + root" by (simp add: be_value_bytes)
  then show ?thesis
    using assms(3) [of "WIRE_MARKER @ meta"]
    by (simp add: record_stored_def f RECORD_SIZE_def SEPARATOR_def NODE_COUNT_def Let_def)
qed

section \<open>What a walk costs\<close>

text \<open>The levels of containers over the deepest leaf, and records whose containers all hold something.\<close>

fun depth :: "mmdb_value \<Rightarrow> nat"
  and entries_depth :: "(str \<times> mmdb_value) list \<Rightarrow> nat"
  and elements_depth :: "mmdb_value list \<Rightarrow> nat" where
  "depth (MMap es broken) = entries_depth es"
| "depth (MSeq vs) = elements_depth vs"
| "depth v = 0"
| "entries_depth [] = 0"
| "entries_depth ((key, v) # es) = max (1 + depth v) (entries_depth es)"
| "elements_depth [] = 0"
| "elements_depth (v # vs) = max (1 + depth v) (elements_depth vs)"

fun populated :: "mmdb_value \<Rightarrow> bool"
  and populated_entries :: "(str \<times> mmdb_value) list \<Rightarrow> bool"
  and populated_elements :: "mmdb_value list \<Rightarrow> bool" where
  "populated (MMap es broken) \<longleftrightarrow> es \<noteq> [] \<and> populated_entries es"
| "populated (MSeq vs) \<longleftrightarrow> vs \<noteq> [] \<and> populated_elements vs"
| "populated v \<longleftrightarrow> True"
| "populated_entries [] \<longleftrightarrow> True"
| "populated_entries ((key, v) # es) \<longleftrightarrow> populated v \<and> populated_entries es"
| "populated_elements [] \<longleftrightarrow> True"
| "populated_elements (v # vs) \<longleftrightarrow> populated v \<and> populated_elements vs"

text \<open>How far the walk has come: the leaves kept, and whether it is over.\<close>

definition progress :: "kept \<Rightarrow> nat" where
  "progress k = length (kp_fields k) + (if kp_full k then 1 else 0)"

lemma push_progress: "\<not> kp_full k \<Longrightarrow> progress k < progress (kept_push k path v)"
  by (simp add: progress_def kept_push_def Let_def)

lemma level_cost:
  fixes a b d D x y :: nat
  assumes "a \<le> d * x" and "b \<le> D * y" and "0 < x"
  shows "1 + a + b \<le> max (1 + d) D * (x + y)"
proof -
  have "1 + a \<le> (1 + d) * x" using assms(1,3) by simp
  also have "\<dots> \<le> max (1 + d) D * x" by (rule mult_le_mono1) simp
  finally have "1 + a \<le> max (1 + d) D * x" .
  moreover have "D * y \<le> max (1 + d) D * y" by (rule mult_le_mono1) simp
  then have "b \<le> max (1 + d) D * y" by (rule order_trans [OF assms(2)])
  ultimately show ?thesis by (simp add: distrib_left)
qed

lemma step_cost:
  assumes "progress k < progress k1 \<and> a \<le> d * (progress k1 - progress k)"
    and "progress k1 \<le> progress k' \<and> b \<le> D * (progress k' - progress k1)"
  shows "progress k < progress k' \<and> 1 + a + b \<le> max (1 + d) D * (progress k' - progress k)"
  using assms level_cost [of a d "progress k1 - progress k" b D "progress k' - progress k1"] by auto

lemma asks_bounded:
  "populated v \<Longrightarrow> \<not> kp_full k \<Longrightarrow> walk_value v path k = Inr k' \<Longrightarrow>
     progress k < progress k' \<and> asks_value v path k \<le> depth v * (progress k' - progress k)"
  "populated_entries es \<Longrightarrow> walk_entries es broken path k = Inr k' \<Longrightarrow>
     progress k \<le> progress k' \<and> (es \<noteq> [] \<and> \<not> kp_full k \<longrightarrow> progress k < progress k')
     \<and> asks_entries es path k \<le> entries_depth es * (progress k' - progress k)"
  "populated_elements vs \<Longrightarrow> walk_elements i vs path k = Inr k' \<Longrightarrow>
     progress k \<le> progress k' \<and> (vs \<noteq> [] \<and> \<not> kp_full k \<longrightarrow> progress k < progress k')
     \<and> asks_elements i vs path k \<le> elements_depth vs * (progress k' - progress k)"
proof (induction v path k and es broken path k and i vs path k arbitrary: k' and k' and k'
    rule: walk_value_walk_entries_walk_elements.induct)
  case (6 key v es broken path k)
  show ?case
  proof (cases "kp_full k")
    case False
    with "6.prems" obtain k1 where k1: "walk_value v (child_path path key) k = Inr k1"
      "walk_entries es broken path k1 = Inr k'" by (auto simp: and_then_Inr_iff)
    from step_cost [of k k1 "asks_value v (child_path path key) k" "depth v" k' "asks_entries es path k1" "entries_depth es"]
      "6.IH"(1) [OF False _ False k1(1)] "6.IH"(2) [OF False k1(1) _ k1(2)] "6.prems"(1) False k1(1)
    show ?thesis by simp
  qed (use "6.prems" in simp)
next
  case (8 i v vs path k)
  show ?case
  proof (cases "kp_full k")
    case False
    with "8.prems" obtain k1 where k1: "walk_value v (child_path path (show_nat i)) k = Inr k1"
      "walk_elements (i + 1) vs path k1 = Inr k'" by (auto simp: and_then_Inr_iff)
    from step_cost [of k k1 "asks_value v (child_path path (show_nat i)) k" "depth v" k' "asks_elements (i + 1) vs path k1" "elements_depth vs"]
      "8.IH"(1) [OF False _ False k1(1)] "8.IH"(2) [OF False k1(1) _ k1(2)] "8.prems"(1) False k1(1)
    show ?thesis by simp
  qed (use "8.prems" in simp)
qed (auto simp: push_progress split: if_splits option.splits)

section \<open>Records that share what they hold\<close>

text \<open>The record a crafted file holds: a value under so many levels of two keys.\<close>

fun shared_tree :: "nat \<Rightarrow> mmdb_value \<Rightarrow> mmdb_value" where
  "shared_tree 0 v = v"
| "shared_tree (Suc n) v = shared_tree n (MMap [(''a'', v), (''b'', v)] None)"

lemma shared_tree_wraps:
  "shared_tree n (MMap [(''a'', v), (''b'', v)] None) = MMap [(''a'', shared_tree n v), (''b'', shared_tree n v)] None"
  by (induction n arbitrary: v) simp_all

lemma shared_tree_Suc:
  "shared_tree (Suc n) v = MMap [(''a'', shared_tree n v), (''b'', shared_tree n v)] None"
  by (simp add: shared_tree_wraps)

lemma shared_tree_props:
  "sound (shared_tree n (MStr leaf))" "populated (shared_tree n (MStr leaf))" "depth (shared_tree n (MStr leaf)) = n"
  "length (all_leaves (shared_tree n (MStr leaf)) path) = 2 ^ n"
  by (induction n arbitrary: path) (simp_all add: shared_tree_Suc del: shared_tree.simps(2))

lemma low_byte: "(t :: nat) AND 0xFF = t mod 256"
proof -
  have "t mod 256 = t AND mask 8" by (simp add: take_bit_eq_mask [symmetric] take_bit_eq_mod)
  then show ?thesis by (simp add: mask_eq_exp_minus_1)
qed

lemma pointer_leads:
  assumes "wire_pointer target = Some bs" and "at d off bs"
  shows "pointer_at d off = Some (target, off + 2) \<and> length bs = 2"
proof -
  from assms(1) have t: "target < 2048" "bs = [control POINTER (target div 256), char_of (target mod 256)]"
    by (auto simp: wire_pointer_def POINTER_LIMIT_def drop_bit_eq_div low_byte
        split: if_splits)
  note ats = at_Cons [THEN iffD1, OF assms(2) [unfolded t(2)]]
  have "target div 256 < 8" using t(1) by simp
  have "kind_at d off = Some (POINTER, target div 256, off + 1)"
    using kind_at_control [OF ats [THEN conjunct1]] \<open>target div 256 < 8\<close> by (simp add: POINTER_def)
  moreover have "slice d (off + 1) 1 = Some [char_of (target mod 256)]"
    using at_one [OF ats [THEN conjunct2]] by simp
  ultimately show ?thesis
    using t by (simp add: pointer_at_def POINTER_def div_mult_mod_eq)
qed

lemma pointer_length: "wire_pointer target = Some bs \<Longrightarrow> length bs = 2"
  by (auto simp: wire_pointer_def split: if_splits)

lemma level_bytes:
  assumes "wire_pointer below = Some branch" and "at d off ([control MAP 2] @ ak @ branch @ bk @ branch)"
    and "wire_string ''a'' = Some ak" and "wire_string ''b'' = Some bk" and "stored d below v n"
  shows "stored d off (MMap [(''a'', v), (''b'', v)] None) (off + 9)"
proof -
  have len: "length ak = 2" "length bk = 2" "length branch = 2"
    using assms(3,4) pointer_length [OF assms(1)] by (auto simp: wire_string_def header_def)
  have "at d off [control MAP 2]" "at d (off + 1) (ak @ branch @ bk @ branch)"
    using assms(2) unfolding at_append [of d off "[control MAP 2]"] by simp_all
  then have ats: "at d (off + 1) ak" "at d (off + 3) branch" "at d (off + 5) bk" "at d (off + 7) branch"
    unfolding at_append len by (simp_all add: eval_nat_numeral)
  have branch: "stored d pos v (pos + 2)" if "at d pos branch" for pos
    using stored_pointer [OF _ assms(5)] pointer_leads [OF assms(1) that] by blast
  have a: "stored d (off + 1) (MStr ''a'') (off + 3)" and b: "stored d (off + 5) (MStr ''b'') (off + 7)"
    using string_stored [OF assms(3) ats(1)] string_stored [OF assms(4) ats(3)] len by (simp_all add: eval_nat_numeral)
  have v: "stored d (off + 3) v (off + 5)" "stored d (off + 7) v (off + 9)"
    using branch [OF ats(2)] branch [OF ats(4)] by (simp_all add: eval_nat_numeral)
  have "stored_pairs d (Suc 1) (off + 1) [(''a'', v), (''b'', v)] (off + 9)"
    by (rule more_pairs [OF a v(1)], simp, rule more_pairs [OF b v(2) no_pairs])
  moreover have "control_at d off = Some (MAP, Suc 1, off + 1)"
    using control_at_header [of MAP 2 "[control MAP 2]" d off] \<open>at d off [control MAP 2]\<close>
    by (simp add: header_def MAP_def)
  ultimately show ?thesis using stored_map by blast
qed

lemma bomb_level:
  assumes "bomb_levels (Suc n) (data, below) = Some end"
  obtains branch ak bk where "wire_pointer below = Some branch" "wire_string ''a'' = Some ak" "wire_string ''b'' = Some bk"
    "bomb_levels n (data @ [control MAP 2] @ ak @ branch @ bk @ branch, length data) = Some end"
    "length ([control MAP 2] @ ak @ branch @ bk @ branch) = 9"
  using assms pointer_length by (fastforce simp: bind_eq_Some_conv header_def wire_string_def)

lemma bomb_levels_grow:
  "bomb_levels n (data, below) = Some (data', below') \<Longrightarrow> \<exists>more. data' = data @ more \<and> length more = 9 * n"
proof (induction n arbitrary: data below)
  case (Suc n)
  from Suc.prems obtain branch ak bk where len: "length ([control MAP 2] @ ak @ branch @ bk @ branch) = 9"
    and rest: "bomb_levels n (data @ [control MAP 2] @ ak @ branch @ bk @ branch, length data) = Some (data', below')"
    by (rule bomb_level)
  from Suc.IH [OF rest] len show ?case by auto
qed simp

lemma bomb_levels_stored:
  "bomb_levels n (data, below) = Some (data', below') \<Longrightarrow> at d 0 data' \<Longrightarrow> stored d below v m \<Longrightarrow>
     \<exists>m'. stored d below' (shared_tree n v) m'"
proof (induction n arbitrary: data below v m)
  case (Suc n)
  from Suc.prems(1) obtain branch ak bk where branch: "wire_pointer below = Some branch"
    and keys: "wire_string ''a'' = Some ak" "wire_string ''b'' = Some bk"
    and rest: "bomb_levels n (data @ [control MAP 2] @ ak @ branch @ bk @ branch, length data) = Some (data', below')"
    by (rule bomb_level)
  from bomb_levels_grow [OF rest] obtain more
    where "data' = data @ ([control MAP 2] @ ak @ branch @ bk @ branch) @ more" by auto
  with Suc.prems(2) have "at d 0 (data @ ([control MAP 2] @ ak @ branch @ bk @ branch) @ more)" by simp
  then have "at d (length data) ([control MAP 2] @ ak @ branch @ bk @ branch)"
    unfolding at_append [of d _ data] at_append [of d _ _ more] by simp
  from level_bytes [OF branch this keys Suc.prems(3)] have "stored d (length data) (MMap [(''a'', v), (''b'', v)] None) (length data + 9)" .
  from Suc.IH [OF rest Suc.prems(2) this] show ?case by simp
qed auto

text \<open>The levels are crafted as long as every offset pointed to is within reach of the two-byte form.\<close>

lemma bomb_levels_crafted:
  "below < 2048 \<Longrightarrow> length data + 9 * n \<le> 2057 \<Longrightarrow> bomb_levels n (data, below) \<noteq> None"
proof (induction n arbitrary: data below)
  case (Suc n)
  have "length data < 2048 \<or> n = 0" using Suc.prems(2) by auto
  then have "\<exists>r. bomb_levels n (data @ more, length data) = Some r" if "length more = 9" for more
    using Suc.IH [of "length data" "data @ more"] Suc.prems(2) that by auto
  with Suc.prems(1) show ?case
    by (auto simp: wire_pointer_def wire_string_def header_def POINTER_LIMIT_def)
qed simp

lemma trimmed_short: "length (trimmed v) \<le> 8"
  using unsigned_less [where w = v and ?'a = nat] by (intro trimmed_length) simp

lemma uints_made:
  "\<exists>u16 u32 u64. (\<forall>a. wire_uint16 a = Some (u16 a) \<and> length (u16 a) \<le> 10)
     \<and> (\<forall>b. wire_uint32 b = Some (u32 b) \<and> length (u32 b) \<le> 10)
     \<and> (\<forall>c. wire_uint64 c = Some (u64 c) \<and> length (u64 c) \<le> 10)"
proof -
  have short: "length (trimmed v) \<le> 28" for v by (rule order_trans [OF trimmed_short]) simp
  have "\<exists>bs. wire_uint16 a = Some bs \<and> length bs \<le> 10" "\<exists>bs. wire_uint32 b = Some bs \<and> length bs \<le> 10"
    "\<exists>bs. wire_uint64 c = Some bs \<and> length bs \<le> 10" for a b c
    using short [of "ucast a"] short [of "ucast b"] short [of c] trimmed_short [of "ucast a"] trimmed_short [of "ucast b"]
      trimmed_short [of c]
    by (simp_all add: wire_uint16_def wire_uint32_def wire_uint64_def header_def extended_def SPILL_ONE_def Let_def)
  then show ?thesis by metis
qed

lemma metadata_made:
  assumes "length ty \<le> 28"
  shows "\<exists>meta. metadata ty ip = Some meta \<and> length meta \<le> 400"
proof -
  obtain u16 u32 u64 where u: "\<And>a. wire_uint16 a = Some (u16 a)" "\<And>b. wire_uint32 b = Some (u32 b)"
    "\<And>c. wire_uint64 c = Some (u64 c)" "\<And>a. length (u16 a) \<le> 10" "\<And>b. length (u32 b) \<le> 10" "\<And>c. length (u64 c) \<le> 10"
    using uints_made by blast
  from assms u(4) [of 2] u(4) [of 0] u(4) [of ip] u(4) [of "of_nat RECORD_SIZE"] u(5) [of "of_nat NODE_COUNT"] u(6) [of 0] show ?thesis
    by (simp add: metadata_def wire_map_def wire_array_def wire_string_def header_def extended_def SPILL_ONE_def u(1-3))
qed

lemma database_made:
  assumes "length ty \<le> 28" and "root < 1000000"
  obtains f where "database_file d root ty ip = Some f"
    and "\<And>d' root' f'. database_file d' root' ty ip = Some f' \<Longrightarrow> length f' + length d = length f + length d'"
proof -
  from metadata_made [OF assms(1), of ip] obtain meta where meta: "metadata ty ip = Some meta" by blast
  show ?thesis
    by (rule that [of "let p = tl (be_bytes 4 (NODE_COUNT + length SEPARATOR + root)) in p @ p @ SEPARATOR @ d @ WIRE_MARKER @ meta"])
      (use assms(2) meta in \<open>auto simp: database_file_def Let_def NODE_COUNT_def SEPARATOR_def split: if_splits\<close>)
qed

lemma bomb_levels_reach:
  "bomb_levels n (data, below) = Some (data', below') \<Longrightarrow> below \<le> length data \<Longrightarrow> below' \<le> length data'"
proof (induction n arbitrary: data below)
  case (Suc n)
  from Suc.prems(1) obtain branch ak bk
    where "bomb_levels n (data @ [control MAP 2] @ ak @ branch @ bk @ branch, length data) = Some (data', below')"
    by (rule bomb_level)
  from Suc.IH [OF this] show ?case by simp
qed simp

lemma crafted_record:
  assumes "length data + 9 * n \<le> 2057" and "\<And>post. \<exists>m. stored (data @ post) 0 v m"
  shows "\<exists>f f0. Option.bind (bomb_levels n (data, 0)) (\<lambda>(data, below). database_file data below DATABASE_TYPE ip) = Some f
    \<and> database_file data 0 DATABASE_TYPE ip = Some f0 \<and> length f = length f0 + 9 * n
    \<and> record_stored f (shared_tree n v)"
proof -
  from bomb_levels_crafted [of 0 data n] assms(1) obtain data' below' where
    levels: "bomb_levels n (data, 0) = Some (data', below')" by auto
  from bomb_levels_grow [OF levels] obtain more where more: "data' = data @ more" "length more = 9 * n" by blast
  have near: "below' < 1000000" using bomb_levels_reach [OF levels] more assms(1) by simp
  have ty: "length DATABASE_TYPE \<le> 28" by (simp add: DATABASE_TYPE_def)
  obtain f0 where f0: "database_file data 0 DATABASE_TYPE ip = Some f0"
    "\<And>d' root' f'. database_file d' root' DATABASE_TYPE ip = Some f' \<Longrightarrow> length f' + length data = length f0 + length d'"
    by (rule database_made [OF ty, of 0 data ip]) auto
  obtain f where f: "database_file data' below' DATABASE_TYPE ip = Some f"
    by (rule database_made [OF ty near, of data' ip])
  have "\<exists>m. stored (data' @ post) below' (shared_tree n v) m" for post
  proof -
    from assms(2) [of "more @ post"] obtain m where "stored (data' @ post) 0 v m" by (auto simp: more(1))
    moreover have "at (data' @ post) 0 data'" using at_concat [of "[]" data' post] by simp
    ultimately show ?thesis using bomb_levels_stored [OF levels] by blast
  qed
  then have "record_stored f (shared_tree n v)" using database_record [OF f] near by simp
  with f0 f levels more show ?thesis by fastforce
qed

text \<open>A record whose containers all hold something is walked within its depth for each leaf kept.\<close>

theorem populated_record_is_walked_in_bounds:
  assumes "sound v" and "populated v"
  shows "\<exists>k. leaves_of v = Inr k \<and> length (kp_fields k) \<le> MAX_EXTRA_FIELDS
    \<and> asks_value v [] kept_new \<le> depth v * (MAX_EXTRA_FIELDS + 1)"
proof -
  have new: "\<not> kp_full kept_new" "progress kept_new = 0" by (simp_all add: kept_new_def progress_def)
  obtain k where k: "walk_value v [] kept_new = Inr k" using walk_feeds(1) [OF assms(1) new(1)] by blast
  have "kept_ok k" using leaves_of_ok k by (simp add: leaves_of_def)
  then have kept: "length (kp_fields k) \<le> MAX_EXTRA_FIELDS" by (simp add: kept_ok_def)
  then have "progress k \<le> MAX_EXTRA_FIELDS + 1" by (simp add: progress_def)
  then have "depth v * progress k \<le> depth v * (MAX_EXTRA_FIELDS + 1)" by (rule mult_le_mono2)
  with asks_bounded(1) [OF assms(2) new(1) k] new(2) kept k show ?thesis
    by (auto simp: leaves_of_def)
qed

text \<open>C31: the record the bounds were written against: a file that grows by nine bytes a level holds a
  record of twice the leaves a level, and the walk over it keeps no more fields than the bound and asks
  the reader for no more than a value a level for each of them and one more, however many leaves there are.\<close>

theorem pointer_bomb_is_walked_within_bounds:
  assumes "length leaf \<le> 200" and "levels \<le> 200"
  shows "\<exists>f f0 v k. pointer_bomb levels leaf = Some f \<and> pointer_bomb 0 leaf = Some f0
    \<and> length f = length f0 + 9 * levels \<and> record_stored f v \<and> length (all_leaves v []) = 2 ^ levels
    \<and> leaves_of v = Inr k \<and> length (kp_fields k) \<le> MAX_EXTRA_FIELDS
    \<and> asks_value v [] kept_new \<le> levels * (MAX_EXTRA_FIELDS + 1)"
proof -
  have "\<exists>data. wire_string leaf = Some data \<and> length data \<le> length leaf + 2"
    using assms(1) by (simp add: wire_string_def header_def)
  then obtain data where data: "wire_string leaf = Some data" "length data \<le> length leaf + 2" by blast
  have "\<exists>m. stored (data @ post) 0 (MStr leaf) m" for post
    using string_stored [OF data(1)] at_concat [of "[]" data post] by auto
  from crafted_record [OF _ this, of levels "of_nat IPV4"] data(2) assms obtain f f0 where
    "pointer_bomb levels leaf = Some f" "pointer_bomb 0 leaf = Some f0" "length f = length f0 + 9 * levels"
    "record_stored f (shared_tree levels (MStr leaf))"
    by (auto simp: pointer_bomb_def data(1))
  with populated_record_is_walked_in_bounds [of "shared_tree levels (MStr leaf)"] shared_tree_props show ?thesis
    by metis
qed

theorem pointer_bomb_is_walked_within_bounds_witness:
  "\<exists>f v k. pointer_bomb 45 (replicate 200 CHR ''x'') = Some f \<and> record_stored f v
     \<and> length (all_leaves v []) = 35184372088832 \<and> leaves_of v = Inr k \<and> asks_value v [] kept_new \<le> 23085"
  using pointer_bomb_is_walked_within_bounds [of "replicate 200 CHR ''x''" 45] by (auto simp: MAX_EXTRA_FIELDS_def)

section \<open>The fixtures and the checks in front of the rename\<close>

text \<open>The string a record holds at a path of keys.\<close>

fun string_at :: "mmdb_value \<Rightarrow> str list \<Rightarrow> str option" where
  "string_at (MStr s) [] = Some s"
| "string_at (MMap es broken) (key # path) = (case map_of es key of None \<Rightarrow> None | Some v \<Rightarrow> string_at v path)"
| "string_at v path = None"

text \<open>What the reader is documented to do with such a file: it opens it, and answers every address from
  the record stored in it.\<close>

definition answers_from_record :: "('p, 'm, 'b) platform \<Rightarrow> str \<Rightarrow> bool" where
  "answers_from_record E f \<longleftrightarrow>
     (\<exists>r. pf_open_mmdb E f = Some r
        \<and> (\<forall>v a path. record_stored f v \<longrightarrow> pf_decode_path E r a path = string_at v path))"

text \<open>The databases built for a kind around the text of its field.\<close>

fun built_for :: "kind \<Rightarrow> 32 word \<Rightarrow> str \<Rightarrow> str option list" where
  "built_for Asn number t = [asn_mmdb number t, asn_mmdb_v6 number t]"
| "built_for City number t = [city_mmdb t, city_mmdb_v6 t, flat_city_mmdb t]"

lemma encoded_database:
  assumes "encoded w = Some bs" and "database_file bs 0 ty ip = Some f"
  shows "record_stored f (read_back w)"
proof (rule database_record [OF assms(2)])
  show "\<exists>n. stored (bs @ post) 0 (read_back w) n" for post
    using encoded_stored [OF assms(1)] at_concat [of "[]" bs post] by auto
qed simp

lemma fixture_record:
  assumes "Some f \<in> set (built_for k number t)"
  shows "record_stored f
    (case k of
       Asn \<Rightarrow> MMap [(''autonomous_system_number'', MU64 (unat number)), (''autonomous_system_organization'', MStr t)] None
     | City \<Rightarrow> MMap [(''country'', MMap [(''iso_code'', MStr t)] None)] None)
   \<or> k = City \<and> record_stored f (MMap [(''country_code'', MStr t), (''continent_code'', MStr ''OC'')] None)"
proof (cases k)
  case Asn
  let ?w = "PutMap [(''autonomous_system_number'', Put32 number), (''autonomous_system_organization'', PutString t)]"
  from assms Asn obtain bs ip where "encoded ?w = Some bs" "database_file bs 0 ''GeoLite2-ASN'' ip = Some f"
    by (auto simp: asn_mmdb_def asn_mmdb_v6_def asn_record_def bind_eq_Some_conv simp del: of_nat_numeral dest!: sym [of "Some f"])
  from encoded_database [OF this] show ?thesis by (simp add: Asn)
next
  case City
  let ?w = "PutMap [(''country'', PutMap [(''iso_code'', PutString t)])]"
  let ?flat = "PutMap [(''country_code'', PutString t), (''continent_code'', PutString ''OC'')]"
  from assms City have "(\<exists>bs ty ip. encoded ?w = Some bs \<and> database_file bs 0 ty ip = Some f)
      \<or> (\<exists>bs ty ip. encoded ?flat = Some bs \<and> database_file bs 0 ty ip = Some f)"
    by (simp add: city_mmdb_def city_mmdb_v6_def flat_city_mmdb_def city_record_def bind_eq_Some_conv eq_commute [of "Some f"])
      blast
  with encoded_database [of ?w] encoded_database [of ?flat] show ?thesis by (auto simp: City)
qed

lemma contains_within: "contains pat (xs @ pat @ ys)"
proof (induction xs)
  case Nil
  show ?case by (cases "pat @ ys") (simp_all, metis starts_with_append)
qed simp

lemma built_database:
  assumes "Some f \<in> set (built_for k number t)"
  shows "\<exists>front meta. f = front @ MMDB_MARKER @ meta \<and> length meta \<le> 400"
proof -
  have "\<exists>front meta. f = front @ MMDB_MARKER @ meta \<and> length meta \<le> 400"
    if "database_file d root ty ip = Some f" and "length ty \<le> 28" for d root ty ip
  proof -
    have same: "WIRE_MARKER = MMDB_MARKER" by (simp add: WIRE_MARKER_def MMDB_MARKER_def)
    from metadata_made [OF that(2), of ip] obtain meta where meta: "metadata ty ip = Some meta" "length meta \<le> 400" by blast
    let ?tree = "tl (be_bytes 4 (NODE_COUNT + length SEPARATOR + root))"
    from that(1) meta(1) have "f = (?tree @ ?tree @ SEPARATOR @ d) @ MMDB_MARKER @ meta"
      by (auto simp: database_file_def Let_def same split: if_splits)
    with meta(2) show ?thesis by blast
  qed
  then show ?thesis
    using assms by (cases k) (auto simp: asn_mmdb_def asn_mmdb_v6_def city_mmdb_def city_mmdb_v6_def flat_city_mmdb_def
        bind_eq_Some_conv eq_commute [of "Some f"])
qed

lemma built_marked:
  assumes "Some f \<in> set (built_for k number t)"
  shows "database_bytes MmdbFormat f"
proof -
  from built_database [OF assms] obtain front meta where f: "f = front @ MMDB_MARKER @ meta" "length meta \<le> 400" by blast
  have "length f - METADATA_TAIL_BYTES \<le> length front"
    using f by (simp add: METADATA_TAIL_BYTES_def MMDB_MARKER_def)
  then have "drop (length f - METADATA_TAIL_BYTES) f = drop (length f - METADATA_TAIL_BYTES) front @ MMDB_MARKER @ meta"
    by (simp add: f)
  then show ?thesis by (simp add: database_bytes_def contains_within del: append_assoc)
qed

text \<open>The databases built for the checks are what the checks are about: each has the marker in its tail,
  and where the reader answers from the record stored in it, the guard admits it for the kind it was built
  for exactly when the text of that kind's field is not blank, and never for the other kind.\<close>

theorem fixture_is_admitted_for_its_field:
  assumes "Some f \<in> set (built_for k number t)" and "answers_from_record E f"
    and "read_content F w staged = Inr f" and "check_size F w (guard_new k' auto) staged dest = Inr ()"
    and "ad_verify_content auto"
  shows "database_bytes MmdbFormat f
    \<and> (admit E F w (guard_new k' auto) staged dest MmdbFormat = Inr () \<longleftrightarrow> k' = k \<and> trim t \<noteq> [])"
proof
  show "database_bytes MmdbFormat f" by (rule built_marked [OF assms(1)])
  from assms(2) obtain r where r: "pf_open_mmdb E f = Some r"
    and reads: "\<And>v a path. record_stored f v \<Longrightarrow> pf_decode_path E r a path = string_at v path"
    by (auto simp: answers_from_record_def)
  have "answers_probe E r a k' \<longleftrightarrow> k' = k \<and> trim t \<noteq> []" for a
    using fixture_record [OF assms(1)]
    by (cases k; cases k')
      (auto simp: answers_probe_def reads COUNTRY_PATHS_def ORGANISATION_PATHS_def)
  then show "admit E F w (guard_new k' auto) staged dest MmdbFormat = Inr () \<longleftrightarrow> k' = k \<and> trim t \<noteq> []"
    using assms(3-5) r by (auto simp: admit_def guard_new_def probe_mmdb_def PROBE_ADDRESSES_def)
qed

definition answering_from :: "mmdb_value \<Rightarrow> (net, net_map, str) platform" where
  "answering_from v = demo_platform\<lparr> pf_decode_path := (\<lambda>r a path. string_at v path) \<rparr>"

lemma answering_law: "record_stored f v \<Longrightarrow> answers_from_record (answering_from v) f"
  by (auto simp: answers_from_record_def answering_from_def demo_platform_def dest: record_stored_once)

theorem fixture_is_admitted_for_its_field_witness:
  "\<exists>f v. city_mmdb ''AU'' = Some f
     \<and> admit (answering_from v) no_faults (one_file ''new'' f) (guard_new City demo_settings) ''new'' ''db'' MmdbFormat = Inr ()
     \<and> admit (answering_from v) no_faults (one_file ''new'' f) (guard_new Asn demo_settings) ''new'' ''db'' MmdbFormat \<noteq> Inr ()"
proof -
  obtain r where r: "city_record ''AU'' = Some r" by (simp add: city_record_def wire_map_def wire_string_def header_def)
  obtain f where "database_file r 0 ''GeoLite2-City'' (of_nat IPV4) = Some f"
    by (rule database_made [of "''GeoLite2-City''" 0 r "of_nat IPV4"]) auto
  then have f: "city_mmdb ''AU'' = Some f" by (simp add: city_mmdb_def r)
  then have built: "Some f \<in> set (built_for City 0 ''AU'')" by simp
  from fixture_record [OF this] obtain v where v: "record_stored f v" by auto
  have read: "read_content no_faults (one_file ''new'' f) ''new'' = Inr f"
    by (simp add: read_content_def no_faults_def one_file_def)
  have room: "check_size no_faults (one_file ''new'' f) (guard_new k' demo_settings) ''new'' ''db'' = Inr ()" for k'
    by (simp add: check_size_def file_length_def no_faults_def one_file_def)
  have on: "ad_verify_content demo_settings" by (simp add: demo_settings_def auto_download_default_def)
  note admitted = fixture_is_admitted_for_its_field [OF built answering_law [OF v] read room on]
  from admitted [of City] admitted [of Asn] f show ?thesis by (auto simp: trim_AU)
qed

text \<open>The honest shape of a rich record: every leaf under its own key, in the order written.\<close>

lemma wide_fields_stored:
  assumes "wide_fields i n value = Some fs" and "at d off fs"
  shows "stored_pairs d n off (map (\<lambda>i. (''f'' @ show_nat i, MStr value)) [i..<i + n]) (off + length fs)"
  using assms
proof (induction n arbitrary: i fs off)
  case (Suc n)
  from Suc.prems(1) obtain k v rest where fs: "fs = k @ v @ rest" and k: "wire_string (''f'' @ show_nat i) = Some k"
    and v: "wire_string value = Some v" and rest: "wide_fields (i + 1) n value = Some rest"
    by (auto simp: bind_eq_Some_conv)
  from Suc.prems(2) have ats: "at d off k" "at d (off + length k) v" "at d (off + length k + length v) rest"
    unfolding fs at_append by simp_all
  have "[i..<i + Suc n] = i # [i + 1..<i + 1 + n]" by (simp add: upt_conv_Cons del: upt_Suc)
  with more_pairs [OF string_stored [OF k ats(1)] string_stored [OF v ats(2)] Suc.IH [OF rest ats(3)]]
  show ?case by (simp add: fs add.assoc del: upt_Suc)
qed (auto intro: no_pairs)

theorem wide_record_holds_its_fields:
  assumes "wide_record n value = Some f"
  shows "record_stored f (MMap (map (\<lambda>i. (''f'' @ show_nat i, MStr value)) [0..<n]) None)"
proof -
  from assms obtain h fs where h: "header MAP n = Some h" and fs: "wide_fields 0 n value = Some fs"
    and f: "database_file (h @ fs) 0 DATABASE_TYPE (of_nat IPV4) = Some f"
    by (auto simp: wide_record_def bind_eq_Some_conv)
  have "\<exists>m. stored ((h @ fs) @ post) 0 (MMap (map (\<lambda>i. (''f'' @ show_nat i, MStr value)) [0..<n]) None) m" for post
  proof -
    have ats: "at ((h @ fs) @ post) 0 h" "at ((h @ fs) @ post) (length h) fs"
      using at_concat [of "[]" h "fs @ post"] at_concat [of h fs post] by simp_all
    have "control_at ((h @ fs) @ post) 0 = Some (MAP, n, length h)"
      using control_at_header [OF h ats(1)] by (simp add: MAP_def)
    from stored_map [OF this wide_fields_stored [OF fs ats(2)]] show ?thesis by auto
  qed
  from database_record [OF f _ this] show ?thesis by simp
qed

theorem wide_record_holds_its_fields_witness:
  "\<exists>f. wide_record 2 ''x'' = Some f
     \<and> record_stored f (MMap (map (\<lambda>i. (''f'' @ show_nat i, MStr ''x'')) [0..<2]) None)"
proof -
  have short: "length (show_nat i) = 1" if "i < 10" for i using that by (simp add: show_nat.simps)
  have "\<exists>fs. wide_fields 0 (Suc (Suc 0)) ''x'' = Some fs"
    using short [of 0] short [of 1] by (simp add: wire_string_def header_def)
  then obtain fs where fs: "wide_fields 0 2 ''x'' = Some fs" by (auto simp: numeral_2_eq_2)
  obtain f where "database_file (control MAP 2 # fs) 0 DATABASE_TYPE (of_nat IPV4) = Some f"
    by (rule database_made [of DATABASE_TYPE 0 "control MAP 2 # fs" "of_nat IPV4"]) (auto simp: DATABASE_TYPE_def)
  then have "wide_record 2 ''x'' = Some f" by (simp add: wide_record_def header_def fs)
  with wide_record_holds_its_fields show ?thesis by blast
qed

end
