(* ===== verification/Cooldown.thy ===== *)
theory Cooldown
  imports World
begin

text \<open>
  \<open>src/geoip/download/cooldown.rs\<close>: how long a provider is left alone after it refused. A refusal
  or a rate limit is a stamp on disk, a permanent failure an entry in memory against the
  fingerprint of the configuration it failed under. The lemmas show that a wait is as long as the
  refusal asked and never past the ceiling while the clock runs forward, that a restart forgets
  only what memory held, and what a clock that has gone backwards does.
\<close>

section \<open>Stamps and suppressions\<close>

definition FLOOR_SECS :: nat where "FLOOR_SECS = 60 * 60"
definition CEILING_SECS :: nat where "CEILING_SECS = 24 * 60 * 60"
definition STAMP_EXT :: str where "STAMP_EXT = ''retry''"

definition stamp_path :: "str \<Rightarrow> str" where
  "stamp_path dest = with_extension dest STAMP_EXT"

text \<open>
  Time left on a permanent failure under the same configuration; one made under another, or passed,
  is dropped.
\<close>

definition suppressed :: "world \<Rightarrow> str \<Rightarrow> nat \<Rightarrow> nat option \<times> world" where
  "suppressed w dest fingerprint =
     (case suppressions w dest of
        None \<Rightarrow> (None, w)
      | Some e \<Rightarrow>
          let remaining = sup_until e - clock w in
          if sup_fingerprint e \<noteq> fingerprint \<or> remaining = 0
          then (None, w\<lparr> suppressions := (suppressions w)(dest := None) \<rparr>)
          else (Some remaining,
                w\<lparr> suppressions := (suppressions w)(dest \<mapsto> e\<lparr> sup_announced := True \<rparr>) \<rparr>))"

text \<open>The stamp's own time, when the file can be read as text and holds one.\<close>

definition stamped_until :: "io_faults \<Rightarrow> world \<Rightarrow> str \<Rightarrow> nat option" where
  "stamped_until F w dest =
     (case read_content F w (stamp_path dest) of
        Inl _ \<Rightarrow> None
      | Inr s \<Rightarrow> if utf8_ok s then parse_uint u64_max (trim s) else None)"

definition wait_for :: "io_faults \<Rightarrow> world \<Rightarrow> str \<Rightarrow> nat \<Rightarrow> nat option \<times> world" where
  "wait_for F w dest fingerprint =
     (case suppressed w dest fingerprint of
        (Some wait, w') \<Rightarrow> (Some wait, w')
      | (None, w') \<Rightarrow>
          (case stamped_until F w' dest of
             None \<Rightarrow> (None, w')
           | Some stamp \<Rightarrow>
               let now = clock w';
                   until = min stamp (now + CEILING_SECS);
                   remaining = until - now
               in if remaining = 0 then (None, w')
                  else (Some remaining,
                        if (stamp_path dest, until) \<in> set (announced w') then w'
                        else w'\<lparr> announced := (stamp_path dest, until) # announced w' \<rparr>)))"

text \<open>How long an error asks for, when it is one a stamp is written for.\<close>

definition wait_of :: "download_error \<Rightarrow> nat option" where
  "wait_of e =
     (case e of
        RateLimited _ retry_after_secs \<Rightarrow>
          Some (case retry_after_secs of None \<Rightarrow> FLOOR_SECS | Some s \<Rightarrow> s)
      | _ \<Rightarrow> if outcome e = ''refused'' then Some FLOOR_SECS else None)"

definition begin_cooldown :: "io_faults \<Rightarrow> world \<Rightarrow> str \<Rightarrow> download_error \<Rightarrow> nat \<Rightarrow> world" where
  "begin_cooldown F w dest e fingerprint =
     (if is_permanent e
      then w\<lparr> suppressions := (suppressions w)(dest \<mapsto>
             \<lparr> sup_fingerprint = fingerprint, sup_until = clock w + CEILING_SECS,
               sup_reason = error_text e, sup_announced = False \<rparr>) \<rparr>
      else case wait_of e of
        None \<Rightarrow> w
      | Some wait \<Rightarrow>
          if F (WriteFile (stamp_path dest)) \<noteq> None then w
          else put_file w (stamp_path dest) (show_nat (clock w + min wait CEILING_SECS)))"

text \<open>Forget any cool-down after a download that passed.\<close>

definition clear_cooldown :: "io_faults \<Rightarrow> world \<Rightarrow> str \<Rightarrow> world" where
  "clear_cooldown F w dest =
     (let w' = try_remove F w (stamp_path dest)
      in w'\<lparr> suppressions := (suppressions w')(dest := None) \<rparr>)"

section \<open>What a refusal costs\<close>

lemma show_nat_ascii: "is_ascii (show_nat n)"
  using show_nat_digits [of n] unfolding is_ascii_def
  by (rule list.pred_mono_strong) (auto simp: is_digit_def between_def)

lemma stamped_until_show:
  assumes "n \<le> u64_max" and "read_content F w (stamp_path dest) = Inr (show_nat n)"
  shows "stamped_until F w dest = Some n"
proof -
  have "trim (show_nat n) = show_nat n"
    by (rule trim_digits) (simp_all add: show_nat_digits)
  with assms show ?thesis
    by (simp add: stamped_until_def utf8_ok_ascii show_nat_ascii parse_uint_show)
qed

text \<open>A refusal or a rate limit keeps the file from being asked for until the wait it asked for,
  an hour where it named none and a day at most, has passed, and no longer.\<close>

theorem refusal_waits_as_long_as_asked:
  assumes "wait_of e = Some wait" and "\<not> is_permanent e"
    and "F (WriteFile (stamp_path dest)) = None" and "F (ReadFile (stamp_path dest)) = None"
    and "suppressions w dest = None" and "clock w + CEILING_SECS \<le> u64_max" and "clock w \<le> t"
  shows "fst (wait_for F ((begin_cooldown F w dest e fp)\<lparr> clock := t \<rparr>) dest fp') =
    (let left = clock w + min wait CEILING_SECS - t in if left = 0 then None else Some left)"
proof -
  let ?w = "(begin_cooldown F w dest e fp)\<lparr> clock := t \<rparr>"
  let ?until = "clock w + min wait CEILING_SECS"
  have w: "?w = (put_file w (stamp_path dest) (show_nat ?until))\<lparr> clock := t \<rparr>"
    using assms(1-3) by (simp add: begin_cooldown_def)
  have "read_content F ?w (stamp_path dest) = Inr (show_nat ?until)"
    using assms(4) by (simp add: read_content_def w)
  moreover have "?until \<le> u64_max" using assms(6) by simp
  ultimately have "stamped_until F ?w dest = Some ?until" by (intro stamped_until_show)
  moreover have "suppressed ?w dest fp' = (None, ?w)"
    using assms(5) by (simp add: suppressed_def w)
  ultimately show ?thesis
    using assms(7) by (auto simp: wait_for_def Let_def w min_def)
qed

theorem refusal_waits_as_long_as_asked_witness:
  "fst (wait_for no_faults ((begin_cooldown no_faults \<lparr> files = (\<lambda>_. None), clock = 1000,
      suppressions = (\<lambda>_. None), announced = [] \<rparr> ''db'' (RateLimited ''u'' (Some 90)) 7)\<lparr> clock := 1030 \<rparr>) ''db'' 7)
   = Some 60"
  using refusal_waits_as_long_as_asked [of "RateLimited ''u'' (Some 90)" 90 no_faults "''db''"
      "\<lparr> files = (\<lambda>_. None), clock = 1000, suppressions = (\<lambda>_. None), announced = [] \<rparr>" 1030 7 7]
  by (simp add: wait_of_def no_faults_def CEILING_SECS_def u64_max_def Let_def)

section \<open>Permanent failures\<close>

text \<open>A permanent failure holds back its own configuration for a day and no longer, and no other
  configuration at all.\<close>

theorem permanent_failure_holds_its_configuration:
  assumes "is_permanent e" and "files w (stamp_path dest) = None" and "clock w \<le> t"
  shows "fst (wait_for F ((begin_cooldown F w dest e fp)\<lparr> clock := t \<rparr>) dest fp') =
    (if fp' = fp \<and> t < clock w + CEILING_SECS then Some (clock w + CEILING_SECS - t) else None)"
  using assms
  by (auto simp: wait_for_def begin_cooldown_def suppressed_def Let_def stamped_until_def read_content_def
      split: option.splits)

theorem permanent_failure_holds_its_configuration_witness:
  "let w = begin_cooldown no_faults \<lparr> files = (\<lambda>_. None), clock = 1000, suppressions = (\<lambda>_. None),
      announced = [] \<rparr> ''db'' (NotEntitled ''u'') 7 in
   fst (wait_for no_faults (w\<lparr> clock := 1000 \<rparr>) ''db'' 7) = Some CEILING_SECS
   \<and> fst (wait_for no_faults (w\<lparr> clock := 1000 \<rparr>) ''db'' 8) = None"
  using permanent_failure_holds_its_configuration [of "NotEntitled ''u''"
      "\<lparr> files = (\<lambda>_. None), clock = 1000, suppressions = (\<lambda>_. None), announced = [] \<rparr>" "''db''" 1000 no_faults 7]
  by (simp add: Let_def CEILING_SECS_def)

section \<open>Every state a process can be in\<close>

text \<open>
  One process sharing its data directory with nobody: the clock moves, attempts start cool-downs,
  ask for them and clear them, and the process restarts with its memory empty. The data directory
  may hold any files but stamps to begin with, and any file but a stamp may be written meanwhile.
\<close>

definition is_stamp :: "str \<Rightarrow> bool" where
  "is_stamp p \<longleftrightarrow> (\<exists>dest. p = stamp_path dest)"

definition restart :: "world \<Rightarrow> world" where
  "restart w = w\<lparr> suppressions := (\<lambda>_. None), announced := [] \<rparr>"

inductive cooldown_step :: "io_faults \<Rightarrow> (nat \<Rightarrow> nat \<Rightarrow> bool) \<Rightarrow> world \<Rightarrow> world \<Rightarrow> bool"
  for F :: io_faults and tick :: "nat \<Rightarrow> nat \<Rightarrow> bool" where
  time: "tick (clock w) t \<Longrightarrow> t + CEILING_SECS \<le> u64_max \<Longrightarrow> cooldown_step F tick w (w\<lparr> clock := t \<rparr>)"
| ask: "cooldown_step F tick w (snd (wait_for F w dest fp))"
| refuse: "cooldown_step F tick w (begin_cooldown F w dest e fp)"
| pass: "cooldown_step F tick w (clear_cooldown F w dest)"
| reboot: "cooldown_step F tick w (restart w)"
| other: "\<not> is_stamp p \<Longrightarrow> cooldown_step F tick w (w\<lparr> files := (files w)(p := f) \<rparr>)"

inductive_cases cooldown_stepE: "cooldown_step F tick w w'"

definition cooldown_start :: "world \<Rightarrow> bool" where
  "cooldown_start w \<longleftrightarrow>
     clock w + CEILING_SECS \<le> u64_max \<and> suppressions w = (\<lambda>_. None) \<and> (\<forall>p. is_stamp p \<longrightarrow> files w p = None)"

inductive cooldown_reachable :: "io_faults \<Rightarrow> (nat \<Rightarrow> nat \<Rightarrow> bool) \<Rightarrow> world \<Rightarrow> bool"
  for F :: io_faults and tick :: "nat \<Rightarrow> nat \<Rightarrow> bool" where
  start: "cooldown_start w \<Longrightarrow> cooldown_reachable F tick w"
| step: "cooldown_reachable F tick w \<Longrightarrow> cooldown_step F tick w w' \<Longrightarrow> cooldown_reachable F tick w'"

text \<open>While the clock runs forward, nothing recorded lies more than the ceiling ahead.\<close>

definition within_ceiling :: "world \<Rightarrow> bool" where
  "within_ceiling w \<longleftrightarrow>
     clock w + CEILING_SECS \<le> u64_max
     \<and> (\<forall>p f. is_stamp p \<longrightarrow> files w p = Some f \<longrightarrow>
          (\<exists>n \<le> clock w + CEILING_SECS. content f = show_nat n))
     \<and> (\<forall>dest e. suppressions w dest = Some e \<longrightarrow> sup_until e \<le> clock w + CEILING_SECS)"

lemma is_stamp_path [simp]: "is_stamp (stamp_path dest)"
  by (auto simp: is_stamp_def)

lemma wait_for_files: "files (snd (wait_for F w dest fp)) = files w \<and> clock (snd (wait_for F w dest fp)) = clock w"
  by (simp add: wait_for_def suppressed_def Let_def split: option.split prod.split)

lemma wait_for_suppressions:
  "suppressions (snd (wait_for F w dest fp)) d = Some e \<Longrightarrow> \<exists>e'. suppressions w d = Some e' \<and> sup_until e = sup_until e'"
  by (auto simp: wait_for_def suppressed_def Let_def split: option.splits if_splits prod.splits)

lemma cooldown_step_within:
  assumes "cooldown_step F (\<le>) w w'" and "within_ceiling w"
  shows "within_ceiling w'"
  using assms(1)
proof (cases rule: cooldown_step.cases)
  case (time t)
  with assms(2) show ?thesis
    unfolding within_ceiling_def by simp (meson add_le_mono1 le_trans)
next
  case (ask dest fp)
  with assms(2) wait_for_files [of F w dest fp] wait_for_suppressions [of F w dest fp] show ?thesis
    unfolding within_ceiling_def by (metis)
next
  case (refuse dest e fp)
  with assms(2) show ?thesis
    by (auto simp: within_ceiling_def begin_cooldown_def intro!: exI [of _ "clock w + min _ CEILING_SECS"]
        split: option.splits)
next
  case (pass dest)
  with assms(2) show ?thesis
    by (auto simp: within_ceiling_def clear_cooldown_def Let_def)
next
  case reboot
  with assms(2) show ?thesis by (simp add: within_ceiling_def restart_def)
next
  case (other p f)
  with assms(2) show ?thesis by (auto simp: within_ceiling_def)
qed

lemma reachable_within_ceiling: "cooldown_reachable F (\<le>) w \<Longrightarrow> within_ceiling w"
proof (induction rule: cooldown_reachable.induct)
  case (start w)
  then show ?case by (auto simp: cooldown_start_def within_ceiling_def)
qed (rule cooldown_step_within)

text \<open>C39: while the clock runs forward, no wait a process is ever told is longer than a day, whatever
  the provider asked for, across refusals, permanent failures and restarts.\<close>

theorem wait_never_past_the_ceiling:
  assumes "cooldown_reachable F (\<le>) w" and "fst (wait_for F w dest fp) = Some wait"
  shows "0 < wait \<and> wait \<le> CEILING_SECS"
  using assms(2) reachable_within_ceiling [OF assms(1)]
  by (fastforce simp: wait_for_def suppressed_def Let_def within_ceiling_def split: option.splits if_splits)

definition quiet_world :: "nat \<Rightarrow> world" where
  "quiet_world t = \<lparr> files = (\<lambda>_. None), clock = t, suppressions = (\<lambda>_. None), announced = [] \<rparr>"

theorem wait_never_past_the_ceiling_witness:
  "fst (wait_for no_faults (begin_cooldown no_faults (quiet_world 1000) ''db'' (RateLimited ''u'' (Some 999999)) 7)
      ''db'' 7) = Some 86400 \<and> (86400 :: nat) \<le> CEILING_SECS"
proof -
  let ?w = "begin_cooldown no_faults (quiet_world 1000) ''db'' (RateLimited ''u'' (Some 999999)) 7"
  have reach: "cooldown_reachable no_faults (\<le>) ?w"
    by (rule cooldown_reachable.step [OF cooldown_reachable.start cooldown_step.refuse])
      (simp add: cooldown_start_def quiet_world_def CEILING_SECS_def u64_max_def)
  have "stamped_until no_faults ?w ''db'' = Some 87400"
    by (rule stamped_until_show)
      (simp_all add: u64_max_def read_content_def no_faults_def begin_cooldown_def wait_of_def quiet_world_def
        CEILING_SECS_def)
  then have "fst (wait_for no_faults ?w ''db'' 7) = Some 86400"
    by (simp add: wait_for_def suppressed_def begin_cooldown_def wait_of_def quiet_world_def no_faults_def
        CEILING_SECS_def Let_def)
  with wait_never_past_the_ceiling [OF reach this] show ?thesis by simp
qed

text \<open>A restart forgets what memory held and nothing else: without a permanent failure pending, the
  wait told after it is the wait told before, and a download that passed leaves none.\<close>

theorem restart_keeps_the_stamp:
  assumes "suppressions w dest = None"
  shows "fst (wait_for F (restart w) dest fp) = fst (wait_for F w dest fp)
    \<and> (F (Remove (stamp_path dest)) = None \<longrightarrow> fst (wait_for F (clear_cooldown F w dest) dest fp) = None)"
  using assms
  by (auto simp: wait_for_def suppressed_def restart_def stamped_until_def read_content_def clear_cooldown_def
      Let_def split: option.splits sum.splits)

theorem restart_keeps_the_stamp_witness:
  "let w = put_file (quiet_world 1000) (stamp_path ''db'') (show_nat 1500) in
   fst (wait_for no_faults (restart w) ''db'' 7) = Some 500
   \<and> fst (wait_for no_faults (clear_cooldown no_faults w ''db'') ''db'' 7) = None"
proof -
  let ?w = "put_file (quiet_world 1000) (stamp_path ''db'') (show_nat 1500)"
  have "stamped_until no_faults ?w ''db'' = Some 1500"
    by (rule stamped_until_show) (simp_all add: u64_max_def read_content_def no_faults_def quiet_world_def)
  then have "fst (wait_for no_faults ?w ''db'' 7) = Some 500"
    by (simp add: wait_for_def suppressed_def quiet_world_def CEILING_SECS_def Let_def)
  with restart_keeps_the_stamp [of ?w "''db''" no_faults 7] show ?thesis
    by (simp add: Let_def quiet_world_def no_faults_def)
qed

section \<open>A clock that has gone backwards\<close>

text \<open>A stamp that lies ahead of the clock is waited for until the clock reaches the stamp itself:
  the day's bound moves with the clock, so it shortens the wait that is told and never the lock-out.\<close>

theorem far_stamp_locks_out_until_it_passes:
  assumes "content f = show_nat stamp" and "files w (stamp_path dest) = Some f" and "stamp \<le> u64_max"
    and "F (ReadFile (stamp_path dest)) = None" and "suppressions w dest = None" and "t < stamp"
  shows "fst (wait_for F (w\<lparr> clock := t \<rparr>) dest fp) = Some (min (stamp - t) CEILING_SECS)"
proof -
  have "stamped_until F (w\<lparr> clock := t \<rparr>) dest = Some stamp"
    using assms(1-4) by (intro stamped_until_show) (simp_all add: read_content_def)
  with assms(5,6) show ?thesis
    by (auto simp: wait_for_def suppressed_def Let_def CEILING_SECS_def min_def)
qed

theorem far_stamp_locks_out_until_it_passes_witness:
  "fst (wait_for no_faults ((put_file (quiet_world 0) (stamp_path ''db'') (show_nat 9000000))\<lparr> clock := 8900000 \<rparr>)
     ''db'' 7) = Some CEILING_SECS"
  using far_stamp_locks_out_until_it_passes [of "\<lparr> content = show_nat 9000000, mtime = 0 \<rparr>" 9000000
      "put_file (quiet_world 0) (stamp_path ''db'') (show_nat 9000000)" "''db''" no_faults 8900000 7]
  by (simp add: no_faults_def quiet_world_def u64_max_def CEILING_SECS_def)

end
