(* ===== verification/Download.thy ===== *)
theory Download
  imports Fetch Cooldown
begin

text \<open>
  \<open>src/geoip/download/mod.rs\<close> and the acquiring half of \<open>src/table/mod.rs\<close>: which transfers a
  database needs, when one is made, and what is served when it fails. One attempt asks the cool-down
  first, runs the fetch, and records how it ended; resolving a database and ensuring a table are the
  two callers. The lemmas show that a copy on disk is never given up, that a refusal keeps the next
  attempt from asking, and that a configuration the load check passed has no fault left to find.
\<close>

section \<open>What a download runs against\<close>

text \<open>
  What the transfers of one call see of the outside: the platform, the faults, the servers, the locks
  by destination, the calendar, \<open>std\<close>'s default hasher, and whether a client can be built.
\<close>

datatype hash_item = HashText str | HashOption "str option" | HashByte nat

record ('p, 'm, 'b) env =
  env_platform :: "('p, 'm, 'b) platform"
  env_faults :: io_faults
  env_net :: server
  env_lock :: "str \<Rightarrow> lock_reply"
  env_calendar :: calendar
  env_hash :: "hash_item list \<Rightarrow> nat"
  env_client :: "(str, unit) result"

section \<open>Fingerprints\<close>

fun credential_identify :: "credential \<Rightarrow> hash_item list" where
  "credential_identify Anonymous = [HashByte 0]"
| "credential_identify (Basic u p _) = [HashByte 1, HashText (expose u), HashText (expose p)]"
| "credential_identify (QueryToken name v _) = [HashByte 2, HashText name, HashText (expose v)]"

definition transfer_identify :: "transfer \<Rightarrow> hash_item list" where
  "transfer_identify t =
     [HashText (tr_url t), HashOption (tr_fallback_url t), HashOption (tr_checksum_url t), HashText (tr_dest t)]
     @ credential_identify (tr_credential t)"

definition fingerprint :: "(hash_item list \<Rightarrow> nat) \<Rightarrow> transfer list \<Rightarrow> nat" where
  "fingerprint H ts = H (concat (map transfer_identify ts))"

section \<open>Settings and plans\<close>

definition check_settings :: "auto_download \<Rightarrow> bool \<Rightarrow> (download_error, unit) result" where
  "check_settings auto injected_client =
     (if \<not> injected_client \<and> ad_connect_timeout_secs auto = 0
      then Inl (InvalidSetting ''auto_download.connect_timeout_secs'' ''must be above zero'')
      else if \<not> injected_client \<and> ad_read_timeout_secs auto = 0
      then Inl (InvalidSetting ''auto_download.read_timeout_secs'' ''must be above zero'')
      else if 100 < ad_min_size_percent auto
      then Inl (InvalidSetting ''auto_download.min_size_percent'' ''must be 100 or below'')
      else Inr ())"

definition plan :: "calendar \<Rightarrow> kind \<Rightarrow> geoip_config \<Rightarrow> (download_error, transfer list) result" where
  "plan cal k c =
     (let ch = kind_choice k (gc_provider c) in
      and_then (select_source ch k) (\<lambda>s. case s of
        None \<Rightarrow> Inl (NoDatabases (provider_label (ch_provider ch)) (kind_label k))
      | Some source \<Rightarrow> and_then (source_transfer cal source (gc_auto_download c)) (\<lambda>t. Inr [t])))"

fun validate_kinds :: "calendar \<Rightarrow> geoip_config \<Rightarrow> kind list \<Rightarrow> (download_error, unit) result" where
  "validate_kinds cal c [] = Inr ()"
| "validate_kinds cal c (k # ks) =
     (if explicit_path k c \<noteq> None then validate_kinds cal c ks
      else case plan cal k c of
        Inr _ \<Rightarrow> validate_kinds cal c ks
      | Inl (NoDatabases _ _) \<Rightarrow> validate_kinds cal c ks
      | Inl e \<Rightarrow> Inl e)"

definition validate_config :: "calendar \<Rightarrow> geoip_config \<Rightarrow> (download_error, unit) result" where
  "validate_config cal c =
     (if \<not> gc_enabled c \<or> \<not> ad_enabled (gc_auto_download c) then Inr ()
      else and_then (check_settings (gc_auto_download c) (gc_http_client c \<noteq> None)) (\<lambda>_.
        validate_kinds cal c [City, Asn]))"

section \<open>Freshness and attempts\<close>

definition is_fresh :: "io_faults \<Rightarrow> world \<Rightarrow> str \<Rightarrow> nat \<Rightarrow> bool" where
  "is_fresh F w p max_age_secs \<longleftrightarrow>
     (case (F (Metadata p), files w p) of
        (None, Some f) \<Rightarrow> mtime f \<le> clock w \<and> clock w - mtime f < max_age_secs
      | _ \<Rightarrow> False)"

text \<open>\<open>Path::exists\<close>: a file whose metadata cannot be read does not exist.\<close>

definition exists_file :: "io_faults \<Rightarrow> world \<Rightarrow> str \<Rightarrow> bool" where
  "exists_file F w p \<longleftrightarrow> F (Metadata p) = None \<and> file_exists w p"

datatype 'a attempt = Waiting nat | Ran "(download_error, 'a) result"

type_synonym 'a fetcher = "world \<Rightarrow> (download_error, 'a) result \<times> world"

definition settle_attempt :: "io_faults \<Rightarrow> str \<Rightarrow> nat \<Rightarrow> (download_error, 'a) result \<Rightarrow> world \<Rightarrow> world" where
  "settle_attempt F dest fp result w =
     (case result of Inr _ \<Rightarrow> clear_cooldown F w dest | Inl e \<Rightarrow> begin_cooldown F w dest e fp)"

definition attempt_fetch :: "io_faults \<Rightarrow> str option \<Rightarrow> nat \<Rightarrow> 'a fetcher \<Rightarrow> world \<Rightarrow> 'a attempt \<times> world" where
  "attempt_fetch F stamp fp fetch w =
     (case stamp of
        None \<Rightarrow> let (result, w') = fetch w in (Ran result, w')
      | Some dest \<Rightarrow>
          (case wait_for F w dest fp of
             (Some wait, w') \<Rightarrow> (Waiting wait, w')
           | (None, w') \<Rightarrow>
               let (result, w'') = fetch w' in (Ran result, settle_attempt F dest fp result w'')))"

section \<open>Resolving a database\<close>

text \<open>The client a transfer uses: the injected one, or one built here, which can fail.\<close>

definition client_for :: "('p, 'm, 'b) env \<Rightarrow> nat option \<Rightarrow> (download_error, unit) result" where
  "client_for V injected = (if injected \<noteq> None then Inr () else map_err Http (env_client V))"

definition run_transfer ::
    "('p, 'm, 'b) env \<Rightarrow> transfer \<Rightarrow> guard \<Rightarrow> world \<Rightarrow> (download_error, str) result \<times> world" where
  "run_transfer V t g w =
     run_guarded (env_platform V) (env_faults V) (env_net V) (env_lock V (tr_dest t)) t g w"

fun run_transfers ::
    "('p, 'm, 'b) env \<Rightarrow> guard \<Rightarrow> transfer list \<Rightarrow> world \<Rightarrow> (download_error, str list) result \<times> world" where
  "run_transfers V g [] w = (Inr [], w)"
| "run_transfers V g (t # ts) w =
     (case run_transfer V t g w of
        (Inl e, w') \<Rightarrow> (Inl e, w')
      | (Inr p, w') \<Rightarrow>
          (case run_transfers V g ts w' of
             (Inl e, w'') \<Rightarrow> (Inl e, w'')
           | (Inr ps, w'') \<Rightarrow> (Inr (p # ps), w'')))"

definition download_kind ::
    "('p, 'm, 'b) env \<Rightarrow> kind \<Rightarrow> geoip_config \<Rightarrow> world \<Rightarrow> (download_error, str list) result \<times> world" where
  "download_kind V k c w =
     (case and_then (check_settings (gc_auto_download c) (gc_http_client c \<noteq> None)) (\<lambda>_.
           and_then (plan (env_calendar V) k c) (\<lambda>ts.
           and_then (client_for V (gc_http_client c)) (\<lambda>_. Inr ts))) of
        Inl e \<Rightarrow> (Inl e, w)
      | Inr ts \<Rightarrow> run_transfers V (guard_new k (gc_auto_download c)) ts w)"

text \<open>The files of a database not at hand: an attempt, then whatever copy there is.\<close>

definition asked_of :: "('p, 'm, 'b) env \<Rightarrow> kind \<Rightarrow> geoip_config \<Rightarrow> nat" where
  "asked_of V k c =
     (case plan (env_calendar V) k c of Inl _ \<Rightarrow> 0 | Inr ts \<Rightarrow> fingerprint (env_hash V) ts)"

definition first_file :: "database \<Rightarrow> str option" where
  "first_file d = (case db_files d of [] \<Rightarrow> None | p # _ \<Rightarrow> Some p)"

definition acquire ::
    "('p, 'm, 'b) env \<Rightarrow> kind \<Rightarrow> geoip_config \<Rightarrow> database \<Rightarrow> world \<Rightarrow> database option \<times> world" where
  "acquire V k c d w =
     (let (tried, w') = attempt_fetch (env_faults V) (first_file d) (asked_of V k c) (download_kind V k c) w;
          stale = (if list_all (exists_file (env_faults V) w') (db_files d) then Some d else None)
      in case tried of
           Ran (Inr ps) \<Rightarrow> (Some \<lparr> db_format = db_format d, db_files = ps \<rparr>, w')
         | Ran (Inl e) \<Rightarrow> (stale, w')
         | Waiting _ \<Rightarrow> (stale, w'))"

definition resolve_database ::
    "('p, 'm, 'b) env \<Rightarrow> kind \<Rightarrow> geoip_config \<Rightarrow> world \<Rightarrow> database option \<times> world" where
  "resolve_database V k c w =
     (case explicit_path k c of
        Some p \<Rightarrow> (Some \<lparr> db_format = MmdbFormat, db_files = [p] \<rparr>, w)
      | None \<Rightarrow>
          (case select_source (kind_choice k (gc_provider c)) k of
             Inl e \<Rightarrow> (None, w)
           | Inr None \<Rightarrow> (None, w)
           | Inr (Some source) \<Rightarrow>
               let auto = gc_auto_download c;
                   d = database_at (source_database source) (ad_data_dir auto)
               in if \<not> ad_enabled auto
                  then (if list_all (exists_file (env_faults V) w) (db_files d) then Some d else None, w)
                  else if list_all (\<lambda>p. is_fresh (env_faults V) w p (staleness_window source auto)) (db_files d)
                  then (Some d, w)
                  else acquire V k c d w))"

record databases =
  dbs_city :: "database option"
  dbs_asn :: "database option"

definition ensure_databases ::
    "('p, 'm, 'b) env \<Rightarrow> geoip_config \<Rightarrow> world \<Rightarrow> (download_error, databases) result \<times> world" where
  "ensure_databases V c w =
     (if \<not> gc_enabled c then (Inr \<lparr> dbs_city = None, dbs_asn = None \<rparr>, w)
      else let (city, w1) = resolve_database V City c w; (asn, w2) = resolve_database V Asn c w1
           in (Inr \<lparr> dbs_city = city, dbs_asn = asn \<rparr>, w2))"

section \<open>Ensuring a table\<close>

text \<open>\<open>Path::file_name\<close> on a Unix path: the last component, where it names something.\<close>

definition path_file_name :: "str \<Rightarrow> str option" where
  "path_file_name p =
     (case filter (\<lambda>c. c \<noteq> [] \<and> c \<noteq> ''.'') (split_at_char CHR ''/'' p) of
        [] \<Rightarrow> None
      | cs \<Rightarrow> if last cs = ''..'' then None else Some (last cs))"

definition validate_source :: "('p, 'm, 'b) platform \<Rightarrow> table_source \<Rightarrow> (table_error, unit) result" where
  "validate_source E s =
     (case pf_parse_url E (src_url s) of
        Inl detail \<Rightarrow> Inl (BadUrl (loggable E (src_url s)) detail)
      | Inr _ \<Rightarrow>
          if path_file_name (src_file s) \<noteq> Some (src_file s) then Inl (UnsafeFileName (src_file s))
          else case (src_format s, src_schema s) of
            (Csv False, Auto) \<Rightarrow> Inl NamesRequired
          | (_, Named named) \<Rightarrow> if named = [] then Inl NoNames else Inr ()
          | _ \<Rightarrow> Inr ())"

definition table_transfer :: "table_source \<Rightarrow> str \<Rightarrow> transfer" where
  "table_transfer s dest =
     \<lparr> tr_url = src_url s, tr_fallback_url = None, tr_checksum_url = src_checksum_url s, tr_dest = dest,
       tr_archive = (case src_archive s of Raw \<Rightarrow> RawBody | Gzip \<Rightarrow> GzipBody),
       tr_format = (case src_format s of Csv _ \<Rightarrow> CsvFormat | Json \<Rightarrow> JsonFormat),
       tr_credential = Anonymous \<rparr>"

text \<open>Bring the table's file up to date, or decide that the copy there serves.\<close>

definition refresh_table ::
    "('p, 'm, 'b) env \<Rightarrow> table_source \<Rightarrow> auto_download \<Rightarrow> str \<Rightarrow> world \<Rightarrow> (table_error, unit) result \<times> world" where
  "refresh_table V s auto dest w =
     (case and_then (check_settings auto (src_http_client s \<noteq> None)) (\<lambda>_. client_for V (src_http_client s)) of
        Inl e \<Rightarrow> (Inl (table_error.Fetch e), w)
      | Inr _ \<Rightarrow>
          let t = table_transfer s dest;
              g = guard_for_table (src_format s) (src_schema s) (src_index s) auto;
              (tried, w') = attempt_fetch (env_faults V) (Some dest) (fingerprint (env_hash V) [t])
                              (run_transfer V t g) w;
              served = exists_file (env_faults V) w' dest
          in case tried of
               Ran (Inr _) \<Rightarrow> (Inr (), w')
             | Ran (Inl e) \<Rightarrow> (if served then Inr () else Inl (table_error.Fetch e), w')
             | Waiting wait \<Rightarrow> (if served then Inr () else Inl (table_error.Fetch (CoolingDown dest wait)), w'))"

definition ensure_table ::
    "('p, 'm, 'b) env \<Rightarrow> table_source \<Rightarrow> auto_download \<Rightarrow> world \<Rightarrow> (table_error, 'm table) result \<times> world" where
  "ensure_table V s auto w =
     (case validate_source (env_platform V) s of
        Inl e \<Rightarrow> (Inl e, w)
      | Inr _ \<Rightarrow>
          let dest = join_path (ad_data_dir auto) (src_file s);
              E = env_platform V;
              (ready, w') = (if \<not> ad_enabled auto then (Inr (), w)
                             else if is_fresh (env_faults V) w dest (ad_max_age_days auto * SECS_PER_DAY)
                             then (Inr (), w)
                             else refresh_table V s auto dest w)
          in case ready of
               Inl e \<Rightarrow> (Inl e, w')
             | Inr _ \<Rightarrow>
                 (read_file (pf_prefixes E) (pf_alloc E) (pf_document E) (pf_json_text E)
                    (opened_reader (env_faults V) w' dest) (src_format s) (src_schema s) (src_index s)
                    (ad_resident_max_bytes auto), w'))"

section \<open>What an attempt leaves alone\<close>

lemma with_extension_eq_iff: "with_extension p e = with_extension q e \<longleftrightarrow> p = q"
  by (auto simp: with_extension_def)

lemma settle_attempt_file:
  "p \<noteq> stamp_path dest \<Longrightarrow> files (settle_attempt F dest fp r w) p = files w p"
  by (auto simp: settle_attempt_def clear_cooldown_def begin_cooldown_def Let_def split: sum.split option.split)

lemma wait_for_file: "files (snd (wait_for F w dest fp)) = files w"
  using wait_for_files by blast

lemma stamp_path_neq [simp]: "stamp_path dest \<noteq> dest" "dest \<noteq> stamp_path dest"
  by (simp_all add: stamp_path_def)

text \<open>A fetcher that fails leaves a file alone, and one that succeeds leaves a file there.\<close>

definition keeps_copy :: "str \<Rightarrow> 'a fetcher \<Rightarrow> bool" where
  "keeps_copy dest fetch \<longleftrightarrow>
     (\<forall>w r w'. fetch w = (r, w') \<longrightarrow>
        (case r of Inl _ \<Rightarrow> files w' dest = files w dest | Inr _ \<Rightarrow> files w' dest \<noteq> None))"

lemma attempt_keeps_copy:
  assumes "keeps_copy dest fetch" and "attempt_fetch F (Some dest) fp fetch w = (tried, w')"
  shows "case tried of
      Waiting _ \<Rightarrow> files w' dest = files w dest
    | Ran (Inl _) \<Rightarrow> files w' dest = files w dest
    | Ran (Inr _) \<Rightarrow> files w' dest \<noteq> None"
proof -
  obtain wait w1 where wt: "wait_for F w dest fp = (wait, w1)" by fastforce
  then have w1: "files w1 = files w" using wait_for_file [of F w dest fp] by simp
  show ?thesis
  proof (cases wait)
    case None
    obtain r w2 where f: "fetch w1 = (r, w2)" by fastforce
    from assms(1) f have "case r of Inl _ \<Rightarrow> files w2 dest = files w1 dest | Inr _ \<Rightarrow> files w2 dest \<noteq> None"
      unfolding keeps_copy_def by blast
    with assms(2) None wt f w1 show ?thesis
      by (auto simp: attempt_fetch_def settle_attempt_file split: sum.splits)
  next
    case (Some s)
    with assms(2) wt w1 show ?thesis by (auto simp: attempt_fetch_def)
  qed
qed

lemma run_transfer_copy:
  assumes "run_transfer V t g w = (r, w')"
  shows "case r of Inl _ \<Rightarrow> files w' (tr_dest t) = files w (tr_dest t)
    | Inr p \<Rightarrow> p = tr_dest t \<and> files w' (tr_dest t) \<noteq> None"
proof -
  from assms have "fetch_transfer (env_platform V) (env_faults V) (env_net V) (env_lock V (tr_dest t)) t g
      MAX_BODY_BYTES w = (r, w')"
    by (simp add: run_transfer_def run_guarded_def)
  then show ?thesis
  proof (cases rule: fetch_transfer_cases)
    case (late n w1 w2 x)
    then show ?thesis
      using finish_transfer_frame [OF late(4)] finish_transfer_ok [of "env_platform V" "env_faults V" t g w2 _ w']
      by (auto simp: only_changes_def split: sum.split)
  qed (auto intro: only_changes_file)
qed

lemma run_transfer_keeps_copy: "keeps_copy (tr_dest t) (run_transfer V t g)"
  using run_transfer_copy by (fastforce simp: keeps_copy_def split: sum.splits)

section \<open>Resolving keeps what is there\<close>

lemma plan_dest:
  assumes "plan cal k c = Inr ts"
  shows "\<exists>s t. select_source (kind_choice k (gc_provider c)) k = Inr (Some s) \<and> ts = [t]
    \<and> source_transfer cal s (gc_auto_download c) = Inr t
    \<and> tr_dest t = join_path (ad_data_dir (gc_auto_download c)) (ss_file s)"
  using assms by (auto simp: plan_def Let_def and_then_Inr_iff source_transfer_def split: option.splits)

lemma database_at_source: "db_files (database_at (source_database s) dir) = [join_path dir (ss_file s)]"
  by (simp add: database_at_def source_database_def)

lemma download_kind_copy:
  assumes "select_source (kind_choice k (gc_provider c)) k = Inr (Some s)"
    and "download_kind V k c w = (r, w')"
  shows "case r of
      Inl _ \<Rightarrow> files w' (join_path (ad_data_dir (gc_auto_download c)) (ss_file s)) =
        files w (join_path (ad_data_dir (gc_auto_download c)) (ss_file s))
    | Inr ps \<Rightarrow> ps = [join_path (ad_data_dir (gc_auto_download c)) (ss_file s)]
        \<and> files w' (join_path (ad_data_dir (gc_auto_download c)) (ss_file s)) \<noteq> None"
proof -
  let ?planned = "and_then (check_settings (gc_auto_download c) (gc_http_client c \<noteq> None)) (\<lambda>_.
      and_then (plan (env_calendar V) k c) (\<lambda>ts. and_then (client_for V (gc_http_client c)) (\<lambda>_. Inr ts)))"
  show ?thesis
  proof (cases ?planned)
    case (Inl e)
    with assms(2) show ?thesis by (auto simp: download_kind_def)
  next
    case (Inr ts)
    then have "plan (env_calendar V) k c = Inr ts" by (auto simp: and_then_Inr_iff)
    from plan_dest [OF this] assms(1) obtain t where ts: "ts = [t]"
      and dest: "tr_dest t = join_path (ad_data_dir (gc_auto_download c)) (ss_file s)" by auto
    obtain x w1 where "run_transfer V t (guard_new k (gc_auto_download c)) w = (x, w1)" by fastforce
    with run_transfer_copy [OF this] assms(2) Inr ts dest show ?thesis
      by (auto simp: download_kind_def split: sum.splits)
  qed
qed

lemma download_kind_keeps_copy:
  assumes "select_source (kind_choice k (gc_provider c)) k = Inr (Some s)"
  shows "keeps_copy (join_path (ad_data_dir (gc_auto_download c)) (ss_file s)) (download_kind V k c)"
  using download_kind_copy [OF assms] by (fastforce simp: keeps_copy_def split: sum.splits)

text \<open>The file a source's database is, and what is served of it after an attempt.\<close>

definition source_path :: "geoip_config \<Rightarrow> source_spec \<Rightarrow> str" where
  "source_path c s = join_path (ad_data_dir (gc_auto_download c)) (ss_file s)"

lemma attempt_success:
  assumes "attempt_fetch F (Some dest) fp fetch w = (Ran (Inr x), w')"
  shows "\<exists>w1 w2. fetch w1 = (Inr x, w2)"
  using assms by (auto simp: attempt_fetch_def split: option.splits prod.splits)

lemma acquire_serves:
  assumes "select_source (kind_choice k (gc_provider c)) k = Inr (Some s)"
    and "acquire V k c (database_at (source_database s) (ad_data_dir (gc_auto_download c))) w = (answer, w')"
    and "env_faults V (Metadata (source_path c s)) = None"
  shows "(files w (source_path c s) \<noteq> None \<longrightarrow> answer \<noteq> None)
    \<and> (\<forall>d. answer = Some d \<longrightarrow> d = database_at (source_database s) (ad_data_dir (gc_auto_download c))
          \<and> files w' (source_path c s) \<noteq> None)"
proof -
  let ?d = "database_at (source_database s) (ad_data_dir (gc_auto_download c))"
  have first: "first_file ?d = Some (source_path c s)" "db_files ?d = [source_path c s]"
    by (simp_all add: first_file_def database_at_source source_path_def)
  obtain tried w1 where at: "attempt_fetch (env_faults V) (Some (source_path c s)) (asked_of V k c)
      (download_kind V k c) w = (tried, w1)" by fastforce
  note kept = attempt_keeps_copy [OF download_kind_keeps_copy [OF assms(1), of V, folded source_path_def] at]
  have placed: "ps = [source_path c s]" if "tried = Ran (Inr ps)" for ps
    using attempt_success [of "env_faults V" "source_path c s" _ "download_kind V k c" w ps w1] at that
      download_kind_copy [OF assms(1)] by (fastforce simp: source_path_def)
  have "db_format ?d = ss_format s" by (simp add: database_at_def source_database_def)
  with assms(2,3) at first kept placed show ?thesis
    by (cases tried; cases "case tried of Ran r \<Rightarrow> r | Waiting _ \<Rightarrow> Inl (Io [])")
      (auto simp: acquire_def exists_file_def file_exists_def split: if_splits)
qed

section \<open>What callers can rely on\<close>

text \<open>C16: a database whose file is on disk is resolved, whatever the servers, the transfers and the
  cool-downs do, and a database that is resolved from the provider has its file on disk.\<close>

theorem copy_on_disk_is_never_given_up:
  assumes "explicit_path k c = None" and "select_source (kind_choice k (gc_provider c)) k = Inr (Some s)"
    and "env_faults V (Metadata (source_path c s)) = None" and "resolve_database V k c w = (answer, w')"
  shows "(files w (source_path c s) \<noteq> None \<longrightarrow> answer \<noteq> None)
    \<and> (\<forall>d. answer = Some d \<longrightarrow> d = database_at (source_database s) (ad_data_dir (gc_auto_download c))
          \<and> files w' (source_path c s) \<noteq> None)"
proof -
  let ?auto = "gc_auto_download c" and ?F = "env_faults V"
  let ?d = "database_at (source_database s) (ad_data_dir ?auto)"
  have one: "db_files ?d = [source_path c s]" by (simp add: database_at_source source_path_def)
  consider (off) "\<not> ad_enabled ?auto" | (fresh) "ad_enabled ?auto" "is_fresh ?F w (source_path c s) (staleness_window s ?auto)"
    | (ask) "ad_enabled ?auto" "\<not> is_fresh ?F w (source_path c s) (staleness_window s ?auto)" by blast
  then show ?thesis
  proof cases
    case off
    with assms one show ?thesis
      by (auto simp: resolve_database_def Let_def exists_file_def file_exists_def split: if_splits)
  next
    case fresh
    then have "files w (source_path c s) \<noteq> None" by (auto simp: is_fresh_def split: option.splits)
    with fresh assms one show ?thesis by (auto simp: resolve_database_def Let_def)
  next
    case ask
    with assms one have "acquire V k c ?d w = (answer, w')"
      by (simp add: resolve_database_def Let_def)
    from acquire_serves [OF assms(2) this assms(3)] show ?thesis .
  qed
qed

lemma validate_kinds_Inr:
  "validate_kinds cal c ks = Inr x \<Longrightarrow> k \<in> set ks \<Longrightarrow> explicit_path k c = None \<Longrightarrow>
     (\<exists>ts. plan cal k c = Inr ts) \<or> (\<exists>p l. plan cal k c = Inl (NoDatabases p l))"
  by (induction ks) (auto split: if_splits sum.splits download_error.splits)

lemma validate_kinds_Inl:
  "validate_kinds cal c ks = Inl e \<Longrightarrow> \<exists>k \<in> set ks. explicit_path k c = None \<and> plan cal k c = Inl e"
  by (induction ks) (auto split: if_splits sum.splits download_error.splits)

lemma require_slot_fault: "require_slot sl p auto = Inl e \<Longrightarrow> is_permanent e"
  by (auto simp: require_slot_def split: option.splits if_splits)

lemma credential_fault: "resolve_credential kc p auto = Inl e \<Longrightarrow> is_permanent e"
  by (cases kc) (auto simp: and_then_Inl_iff dest: require_slot_fault)

lemma select_fault: "select_source ch k = Inl e \<Longrightarrow> is_permanent e"
  by (auto simp: select_source_def split: option.splits if_splits)

lemma plan_fault_permanent: "plan cal k c = Inl e \<Longrightarrow> is_permanent e"
  by (auto simp: plan_def Let_def and_then_Inl_iff source_transfer_def dest: select_fault credential_fault
      split: option.splits)

lemma validate_config_Inl:
  assumes "validate_config cal c = Inl e"
  shows "check_settings (gc_auto_download c) (gc_http_client c \<noteq> None) = Inl e
    \<or> (check_settings (gc_auto_download c) (gc_http_client c \<noteq> None) = Inr ()
       \<and> (\<exists>k. plan cal k c = Inl e))"
proof -
  from assms have "check_settings (gc_auto_download c) (gc_http_client c \<noteq> None) = Inl e
    \<or> (check_settings (gc_auto_download c) (gc_http_client c \<noteq> None) = Inr ()
       \<and> validate_kinds cal c [City, Asn] = Inl e)"
    by (auto simp: validate_config_def and_then_Inl_iff simp del: validate_kinds.simps split: if_splits)
  with validate_kinds_Inl [of cal c "[City, Asn]" e] show ?thesis by blast
qed

text \<open>C23: the check a configuration is loaded under is exact: one it passes leaves no download without
  its settings, its provider's row or its credential, and the fault it reports is permanent and is
  the one a download of some kind ends with before it asks or writes anything.\<close>

theorem load_check_is_exact:
  assumes "gc_enabled c" and "ad_enabled (gc_auto_download c)"
  shows "(validate_config cal c = Inr () \<longrightarrow>
      check_settings (gc_auto_download c) (gc_http_client c \<noteq> None) = Inr ()
      \<and> (\<forall>k. explicit_path k c = None \<longrightarrow>
            (\<exists>ts. plan cal k c = Inr ts) \<or> (\<exists>p l. plan cal k c = Inl (NoDatabases p l))))
    \<and> (\<forall>e. validate_config cal c = Inl e \<longrightarrow> is_permanent e \<and>
        (\<exists>k. \<forall>(V :: ('p, 'm, 'b) env) w. env_calendar V = cal \<longrightarrow> download_kind V k c w = (Inl e, w)))"
proof (intro conjI impI allI)
  have kinds: "k \<in> set [City, Asn]" for k by (cases k) auto
  assume ok: "validate_config cal c = Inr ()"
  with assms show "check_settings (gc_auto_download c) (gc_http_client c \<noteq> None) = Inr ()"
    by (auto simp: validate_config_def and_then_Inr_iff)
  from ok assms have "validate_kinds cal c [City, Asn] = Inr ()"
    by (auto simp: validate_config_def and_then_Inr_iff)
  from validate_kinds_Inr [OF this kinds]
  show "(\<exists>ts. plan cal k c = Inr ts) \<or> (\<exists>p l. plan cal k c = Inl (NoDatabases p l))"
    if "explicit_path k c = None" for k using that by blast
next
  fix e
  assume "validate_config cal c = Inl e"
  then consider (settings) "check_settings (gc_auto_download c) (gc_http_client c \<noteq> None) = Inl e"
    | (kind) k where "check_settings (gc_auto_download c) (gc_http_client c \<noteq> None) = Inr ()" "plan cal k c = Inl e"
    using validate_config_Inl by blast
  note cases = this
  show "is_permanent e"
    using cases
  proof cases
    case settings
    then show ?thesis by (auto simp: check_settings_def split: if_splits)
  next
    case kind
    then show ?thesis by (blast intro: plan_fault_permanent)
  qed
  show "\<exists>k. \<forall>(V :: ('p, 'm, 'b) env) w. env_calendar V = cal \<longrightarrow> download_kind V k c w = (Inl e, w)"
    using cases
  proof cases
    case settings
    then show ?thesis by (simp add: download_kind_def)
  next
    case (kind k)
    then show ?thesis by (intro exI [of _ k]) (simp add: download_kind_def)
  qed
qed

text \<open>The file a table source is kept in, and the load of it.\<close>

definition table_path :: "table_source \<Rightarrow> auto_download \<Rightarrow> str" where
  "table_path s auto = join_path (ad_data_dir auto) (src_file s)"

definition load_here ::
    "('p, 'm, 'b) env \<Rightarrow> table_source \<Rightarrow> auto_download \<Rightarrow> world \<Rightarrow> (table_error, 'm table) result" where
  "load_here V s auto w =
     read_file (pf_prefixes (env_platform V)) (pf_alloc (env_platform V)) (pf_document (env_platform V))
       (pf_json_text (env_platform V)) (opened_reader (env_faults V) w (table_path s auto))
       (src_format s) (src_schema s) (src_index s) (ad_resident_max_bytes auto)"

lemma ensure_table_load:
  "ensure_table V s auto w =
     (case validate_source (env_platform V) s of
        Inl e \<Rightarrow> (Inl e, w)
      | Inr _ \<Rightarrow>
          (case (if \<not> ad_enabled auto then (Inr (), w)
                 else if is_fresh (env_faults V) w (table_path s auto) (ad_max_age_days auto * SECS_PER_DAY)
                 then (Inr (), w) else refresh_table V s auto (table_path s auto) w) of
             (Inl e, w') \<Rightarrow> (Inl e, w')
           | (Inr _, w') \<Rightarrow> (load_here V s auto w', w')))"
  by (simp add: ensure_table_def Let_def load_here_def table_path_def split: sum.split prod.split)

lemma table_transfer_dest [simp]: "tr_dest (table_transfer s dest) = dest"
  by (simp add: table_transfer_def)

text \<open>C25: a table whose file is on disk is answered by the load of that file whatever the download does:
  an error of the fetch is reported only where there is no copy, and a fetch that fails leaves the
  copy it found.\<close>

theorem failing_source_reads_the_copy:
  assumes "validate_source (env_platform V) s = Inr ()"
    and "check_settings auto (src_http_client s \<noteq> None) = Inr ()" and "client_for V (src_http_client s) = Inr ()"
    and "env_faults V (Metadata (table_path s auto)) = None" and "files w (table_path s auto) \<noteq> None"
  shows "\<exists>w'. ensure_table V s auto w = (load_here V s auto w', w') \<and> files w' (table_path s auto) \<noteq> None"
proof -
  let ?dest = "table_path s auto" and ?t = "table_transfer s (table_path s auto)"
  let ?g = "guard_for_table (src_format s) (src_schema s) (src_index s) auto"
  obtain tried w1 where at: "attempt_fetch (env_faults V) (Some ?dest) (fingerprint (env_hash V) [?t])
      (run_transfer V ?t ?g) w = (tried, w1)" by fastforce
  have keeps: "keeps_copy ?dest (run_transfer V ?t ?g)"
    using run_transfer_keeps_copy [of ?t V ?g] by simp
  have there: "files w1 ?dest \<noteq> None"
    using attempt_keeps_copy [OF keeps at] assms(5) by (cases tried) (auto split: sum.splits)
  then have "refresh_table V s auto ?dest w = (Inr (), w1)"
    using assms(2-4) at
    by (auto simp: refresh_table_def Let_def exists_file_def file_exists_def split: attempt.split sum.split)
  with assms(1,5) there show ?thesis
    by (auto simp: ensure_table_load)
qed


section \<open>A refusal and the attempts after it\<close>

lemma wait_of_not_permanent: "wait_of e = Some wait \<Longrightarrow> \<not> is_permanent e"
  by (cases e) (auto simp: wait_of_def split: if_splits)

lemma wait_for_None:
  assumes "wait_for F w dest fp = (None, w')"
  shows "suppressions w' dest = None \<and> clock w' = clock w \<and> files w' = files w"
  using assms wait_for_files [of F w dest fp]
  by (auto simp: wait_for_def suppressed_def Let_def split: option.splits if_splits prod.splits)

lemma run_transfer_keeps_time:
  assumes "run_transfer V t g w = (r, w')"
  shows "clock w' = clock w \<and> suppressions w' = suppressions w
    \<and> (\<forall>q. q \<notin> insert (tr_dest t) (transfer_paths t) \<longrightarrow> files w' q = files w q)"
proof -
  from assms have "fetch_transfer (env_platform V) (env_faults V) (env_net V) (env_lock V (tr_dest t)) t g
      MAX_BODY_BYTES w = (r, w')"
    by (simp add: run_transfer_def run_guarded_def)
  then have "only_changes (insert (tr_dest t) (transfer_paths t)) w w'"
  proof (cases rule: fetch_transfer_cases)
    case (late n w1 w2 x)
    then show ?thesis
      using finish_transfer_frame [OF late(4)] by (blast intro: only_changes_trans only_changes_mono)
  qed (blast intro: only_changes_mono)
  then show ?thesis by (simp add: only_changes_def)
qed

lemma stamp_not_touched: "stamp_path (tr_dest t) \<notin> insert (tr_dest t) (transfer_paths t)"
  by (simp add: transfer_paths_def stamp_path_def STAMP_EXT_def PART_EXT_def STAGE_EXT_def LOCK_EXT_def)

text \<open>
  What may happen in a process before a time: attempts on the file under any of some configurations,
  each with a fetch of its own, the clock moving on, and other files written.
\<close>

inductive attempts_before ::
    "io_faults \<Rightarrow> str \<Rightarrow> nat set \<Rightarrow> (nat \<Rightarrow> 'a fetcher) \<Rightarrow> nat \<Rightarrow> world \<Rightarrow> world \<Rightarrow> bool"
  for F :: io_faults and dest :: str and fps :: "nat set" and fetch :: "nat \<Rightarrow> 'a fetcher" and until :: nat and w :: world where
  begins: "clock w < until \<Longrightarrow> attempts_before F dest fps fetch until w w"
| tries: "attempts_before F dest fps fetch until w v \<Longrightarrow> fp \<in> fps \<Longrightarrow>
    attempts_before F dest fps fetch until w (snd (attempt_fetch F (Some dest) fp (fetch fp) v))"
| ticks: "attempts_before F dest fps fetch until w v \<Longrightarrow> clock v \<le> t \<Longrightarrow> t < until \<Longrightarrow>
    attempts_before F dest fps fetch until w (v\<lparr> clock := t \<rparr>)"
| writes: "attempts_before F dest fps fetch until w v \<Longrightarrow> p \<noteq> stamp_path dest \<Longrightarrow>
    attempts_before F dest fps fetch until w (v\<lparr> files := (files v)(p := f) \<rparr>)"

text \<open>An attempt that is told to wait asks nothing and leaves what it was told from.\<close>

lemma attempt_waits:
  assumes "wait_for F v dest fp = (Some wait, v')"
  shows "attempt_fetch F (Some dest) fp fetch v = (Waiting wait, v')"
  using assms by (simp add: attempt_fetch_def)

definition stamped_for :: "str \<Rightarrow> nat \<Rightarrow> world \<Rightarrow> bool" where
  "stamped_for dest until v \<longleftrightarrow>
     (\<exists>f. files v (stamp_path dest) = Some f \<and> content f = show_nat until) \<and> suppressions v dest = None
     \<and> clock v < until \<and> until \<le> clock v + CEILING_SECS"

lemma stamped_wait:
  assumes "stamped_for dest until v" and "until \<le> u64_max" and "F (ReadFile (stamp_path dest)) = None"
  shows "\<exists>v'. wait_for F v dest fp = (Some (until - clock v), v') \<and> stamped_for dest until v'"
proof -
  have "stamped_until F v dest = Some until"
    using assms by (intro stamped_until_show) (auto simp: stamped_for_def read_content_def)
  with assms(1) show ?thesis
    by (auto simp: wait_for_def suppressed_def stamped_for_def Let_def)
qed

lemma refusal_outlasts_attempts:
  assumes "attempts_before F dest fps fetch until w v" and "stamped_for dest until w" and "until \<le> u64_max"
    and "F (ReadFile (stamp_path dest)) = None"
  shows "stamped_for dest until v"
  using assms(1)
proof induction
  case (tries v fp)
  from stamped_wait [where F = F and fp = fp, OF tries.IH assms(3,4)] obtain v' where
    "wait_for F v dest fp = (Some (until - clock v), v')" "stamped_for dest until v'" by blast
  then show ?case by (simp add: attempt_waits)
qed (use assms(2) in \<open>auto simp: stamped_for_def\<close>)

definition suppressed_for :: "str \<Rightarrow> nat \<Rightarrow> nat \<Rightarrow> world \<Rightarrow> bool" where
  "suppressed_for dest fp until v \<longleftrightarrow>
     (\<exists>s. suppressions v dest = Some s \<and> sup_fingerprint s = fp \<and> sup_until s = until) \<and> clock v < until"

lemma suppressed_wait:
  "suppressed_for dest fp until v \<Longrightarrow> \<exists>v'. wait_for F v dest fp = (Some (until - clock v), v') \<and> suppressed_for dest fp until v'"
  by (auto simp: wait_for_def suppressed_def suppressed_for_def Let_def)

lemma suppression_outlasts_attempts:
  assumes "attempts_before F dest {fp} fetch until w v" and "suppressed_for dest fp until w"
  shows "suppressed_for dest fp until v"
  using assms(1)
proof induction
  case (tries v fp')
  from suppressed_wait [where F = F, OF tries.IH] obtain v' where
    "wait_for F v dest fp = (Some (until - clock v), v')" "suppressed_for dest fp until v'" by blast
  with tries.hyps(2) show ?case by (simp add: attempt_waits)
qed (use assms(2) in \<open>auto simp: suppressed_for_def\<close>)

text \<open>C18: after a transfer the provider refused or rate limited, no attempt of the process on the file asks
  anything, under whatever configuration and however many came before it, until the wait it was given
  has passed; after a permanent fault none does for a day while it is tried under that configuration
  alone. Until then each answers how long is left.\<close>

theorem refused_transfer_is_not_asked_again:
  assumes "attempt_fetch (env_faults V) (Some (tr_dest t)) fp (run_transfer V t g) w = (Ran (Inl e), w')"
    and "env_faults V (WriteFile (stamp_path (tr_dest t))) = None"
    and "env_faults V (ReadFile (stamp_path (tr_dest t))) = None"
    and "clock w + CEILING_SECS \<le> u64_max"
  shows "(\<forall>wait v fp'. let until = clock w + min wait CEILING_SECS in
      wait_of e = Some wait \<longrightarrow> attempts_before (env_faults V) (tr_dest t) UNIV fetch until w' v \<longrightarrow>
      fst (attempt_fetch (env_faults V) (Some (tr_dest t)) fp' (fetch fp') v) = Waiting (until - clock v))
    \<and> (\<forall>v. let until = clock w + CEILING_SECS in
      is_permanent e \<longrightarrow> attempts_before (env_faults V) (tr_dest t) {fp} fetch until w' v \<longrightarrow>
      fst (attempt_fetch (env_faults V) (Some (tr_dest t)) fp (fetch fp) v) = Waiting (until - clock v))"
proof -
  let ?F = "env_faults V" and ?dest = "tr_dest t"
  obtain w1 w2 where wt: "wait_for ?F w ?dest fp = (None, w1)" and run: "run_transfer V t g w1 = (Inl e, w2)"
    and w': "w' = begin_cooldown ?F w2 ?dest e fp"
    using assms(1) by (auto simp: attempt_fetch_def settle_attempt_def split: option.splits prod.splits)
  have quiet: "suppressions w2 ?dest = None" "clock w2 = clock w"
    using wait_for_None [OF wt] run_transfer_keeps_time [OF run] by simp_all
  have begun: "clock w' < until" if "attempts_before ?F ?dest fps fetch until w' v" for fps until v
    using that by (induction) auto
  have "fst (attempt_fetch ?F (Some ?dest) fp' (fetch fp') v) = Waiting (clock w + min wait CEILING_SECS - clock v)"
    if e: "wait_of e = Some wait" and v: "attempts_before ?F ?dest UNIV fetch (clock w + min wait CEILING_SECS) w' v" for wait v fp'
  proof -
    have "stamped_for ?dest (clock w + min wait CEILING_SECS) w'"
      using e quiet assms(2) wait_of_not_permanent [OF e] begun [OF v]
      by (simp add: w' begin_cooldown_def stamped_for_def)
    moreover have bound: "clock w + min wait CEILING_SECS \<le> u64_max" using assms(4) by simp
    ultimately have "stamped_for ?dest (clock w + min wait CEILING_SECS) v"
      by (intro refusal_outlasts_attempts [where F = ?F, OF v _ _ assms(3)])
    from stamped_wait [where F = ?F and fp = fp', OF this bound assms(3)]
    show ?thesis by (auto simp: attempt_waits)
  qed
  moreover have "fst (attempt_fetch ?F (Some ?dest) fp (fetch fp) v) = Waiting (clock w + CEILING_SECS - clock v)"
    if e: "is_permanent e" and v: "attempts_before ?F ?dest {fp} fetch (clock w + CEILING_SECS) w' v" for v
  proof -
    have "suppressed_for ?dest fp (clock w + CEILING_SECS) w'"
      using e quiet by (simp add: w' begin_cooldown_def suppressed_for_def CEILING_SECS_def)
    from suppressed_wait [where F = ?F, OF suppression_outlasts_attempts [OF v this]] show ?thesis by (auto simp: attempt_waits)
  qed
  ultimately show ?thesis by (simp add: Let_def)
qed

section \<open>Environments the properties apply to\<close>

definition plain_url :: "str \<Rightarrow> (str, url) result" where
  "plain_url text =
     Inr \<lparr> ul_base = text, ul_takes_user = True, ul_username = [], ul_password = None, ul_query = None, ul_fragment = None \<rparr>"

lemma plain_url_parsed [simp]:
  "plain_url text =
     Inr \<lparr> ul_base = text, ul_takes_user = True, ul_username = [], ul_password = None, ul_query = None, ul_fragment = None \<rparr>"
  by (simp add: plain_url_def)

definition demo_env :: "server \<Rightarrow> (net, net_map, str) env" where
  "demo_env N =
     \<lparr> env_platform = demo_platform\<lparr> pf_parse_url := plain_url \<rparr>, env_faults = no_faults, env_net = N,
       env_lock = (\<lambda>_. Acquired), env_calendar = \<lparr> this_month = ''2026-07'', last_month = Some ''2026-06'' \<rparr>,
       env_hash = length, env_client = Inr () \<rparr>"

definition city_source :: source_spec where
  "city_source = SOURCES ! 0"

lemma city_selected:
  "select_source (kind_choice City (gc_provider geoip_config_default)) City = Inr (Some city_source)"
  by (simp add: select_source_def find_source_def answers_choice_def SOURCES_def db_ip_source_def city_source_def
      geoip_config_default_def selection_default_def choice_of_provider_def)

theorem copy_on_disk_is_never_given_up_witness:
  "fst (resolve_database (demo_env (\<lambda>_. Inl ''connection refused'')) City geoip_config_default
      ((one_file (source_path geoip_config_default city_source) ''old'')\<lparr> clock := 99999999 \<rparr>)) \<noteq> None"
proof -
  let ?w = "(one_file (source_path geoip_config_default city_source) ''old'')\<lparr> clock := 99999999 \<rparr>"
  obtain a w' where r: "resolve_database (demo_env (\<lambda>_. Inl ''connection refused'')) City geoip_config_default ?w = (a, w')"
    by fastforce
  from copy_on_disk_is_never_given_up [OF _ city_selected _ r] r show ?thesis
    by (simp add: geoip_config_default_def demo_env_def no_faults_def one_file_def)
qed

definition keyless_config :: geoip_config where
  "keyless_config = geoip_config_default\<lparr> gc_provider := selection_of_provider IpInfo \<rparr>"

theorem load_check_is_exact_witness:
  "\<exists>k. download_kind (demo_env (\<lambda>_. Inl ''connection refused'')) k keyless_config (one_file ''x'' []) =
     (Inl (MissingCredential ''IpInfo'' ''auto_download.ipinfo_token''), one_file ''x'' [])"
proof -
  let ?cal = "\<lparr> this_month = ''2026-07'', last_month = Some ''2026-06'' \<rparr>"
  have "validate_config ?cal keyless_config = Inl (MissingCredential ''IpInfo'' ''auto_download.ipinfo_token'')"
    by (simp add: validate_config_def keyless_config_def geoip_config_default_def auto_download_default_def
        check_settings_def plan_def select_source_def find_source_def answers_choice_def SOURCES_def db_ip_source_def
        maxmind_source_def sapics_source_def selection_of_provider_def selection_of_choice_def choice_of_provider_def
        source_transfer_def require_slot_def)
  moreover have "gc_enabled keyless_config" "ad_enabled (gc_auto_download keyless_config)"
    by (simp_all add: keyless_config_def geoip_config_default_def auto_download_default_def)
  moreover have "env_calendar (demo_env (\<lambda>_. Inl ''connection refused'')) = ?cal" by (simp add: demo_env_def)
  ultimately show ?thesis
    using load_check_is_exact [of keyless_config ?cal, where ?'p = Table_Index.net and ?'m = net_map and ?'b = str]
    by metis
qed

definition rows_source :: table_source where
  "rows_source = table_source_new ''https://db.example/rows'' ''rows.json'' Json (Column ''a'')"

definition rows_settings :: auto_download where
  "rows_settings = demo_settings\<lparr> ad_data_dir := ''d'' \<rparr>"

lemma rows_source_ready:
  "validate_source (env_platform (demo_env N)) rows_source = Inr ()"
  "check_settings rows_settings (src_http_client rows_source \<noteq> None) = Inr ()"
  "client_for (demo_env N) (src_http_client rows_source) = Inr ()"
  "table_path rows_source rows_settings = ''d/rows.json''"
  by (simp_all add: validate_source_def demo_env_def rows_source_def table_source_new_def path_file_name_def
      check_settings_def rows_settings_def demo_settings_def auto_download_default_def client_for_def
      table_path_def join_path_def)

lemma no_faults_env: "env_faults (demo_env N) x = None"
  by (simp add: demo_env_def no_faults_def)

theorem failing_source_reads_the_copy_witness:
  "\<exists>w' t. ensure_table (demo_env (\<lambda>_. Inl ''connection refused'')) rows_source rows_settings
      ((one_file ''d/rows.json'' ''[..]'')\<lparr> clock := 99999999 \<rparr>) = (Inr t, w')"
proof -
  let ?V = "demo_env (\<lambda>_. Inl ''connection refused'')"
  let ?w = "(one_file ''d/rows.json'' ''[..]'')\<lparr> clock := 99999999 \<rparr>"
  have "\<exists>w'. ensure_table ?V rows_source rows_settings ?w = (load_here ?V rows_source rows_settings w', w')
      \<and> files w' (table_path rows_source rows_settings) \<noteq> None"
    by (rule failing_source_reads_the_copy)
      (simp_all add: rows_source_ready(1) rows_source_ready(2) [simplified] rows_source_ready(3,4) one_file_def no_faults_env)
  then obtain w' f where w': "ensure_table ?V rows_source rows_settings ?w = (load_here ?V rows_source rows_settings w', w')"
    and f: "files w' ''d/rows.json'' = Some f" by (auto simp: rows_source_ready)
  have "\<exists>t. load_here ?V rows_source rows_settings w' = Inr t"
    using f by (simp add: load_here_def table_path_def join_path_def auto_download_default_def opened_reader_def read_content_def demo_env_def
        no_faults_def read_file_def read_table_def rows_source_def table_source_new_def demo_platform_def
        rows_settings_def demo_settings_def ragged_document_reads build_eval)
  with w' show ?thesis by metis
qed


definition limited :: server where
  "limited = (\<lambda>_. Inr \<lparr> rs_status = 429, rs_retry_after = Some ''90'', rs_content_length = None, rs_body = [] \<rparr>)"

lemma limited_run:
  "fst (run_transfer (demo_env limited) rows_transfer (guard_new City demo_settings) (quiet_world 1000)) =
     Inl (RateLimited ''https://db.example/rows'' (parse_uint u64_max (trim ''90'')))"
  by (simp add: run_transfer_def transfer_eval quiet_world_def limited_def demo_env_def demo_platform_def loggable_def
      set_query_def set_fragment_def set_username_def set_password_def)

theorem refused_transfer_is_not_asked_again_witness:
  "let w = snd (attempt_fetch (env_faults (demo_env limited)) (Some ''db'') 7
        (run_transfer (demo_env limited) rows_transfer (guard_new City demo_settings)) (quiet_world 1000));
     v = snd (attempt_fetch (env_faults (demo_env limited)) (Some ''db'') 8 (\<lambda>v. (Inr (), v)) w)
   in fst (attempt_fetch (env_faults (demo_env limited)) (Some ''db'') 9 (\<lambda>v. (Inr (), v)) (v\<lparr> clock := clock v + 30 \<rparr>)) = Waiting 60"
proof -
  let ?V = "demo_env limited" and ?g = "guard_new City demo_settings" and ?fetch = "\<lambda>_ v. (Inr (), v)"
  let ?a = "attempt_fetch (env_faults ?V) (Some ''db'') 7 (run_transfer ?V rows_transfer ?g) (quiet_world 1000)"
  let ?v = "snd (attempt_fetch (env_faults ?V) (Some ''db'') 8 (?fetch 8) (snd ?a))"
  obtain w2 where run: "run_transfer ?V rows_transfer ?g (quiet_world 1000) =
      (Inl (RateLimited ''https://db.example/rows'' (Some 90)), w2)"
    using limited_run trim_digits [of "''90''"]
    by (cases "run_transfer ?V rows_transfer ?g (quiet_world 1000)")
      (simp add: is_digit_def between_def parse_uint_def strip_prefix_def starts_with_def digits_value_def
        digit_value_def u64_max_def)
  have "wait_for (env_faults ?V) (quiet_world 1000) ''db'' 7 = (None, quiet_world 1000)"
    by (simp add: wait_for_def suppressed_def stamped_until_def read_content_def quiet_world_def no_faults_env)
  with run have at: "?a = (Ran (Inl (RateLimited ''https://db.example/rows'' (Some 90))), snd ?a)"
    and "snd ?a = begin_cooldown (env_faults ?V) w2 ''db'' (RateLimited ''https://db.example/rows'' (Some 90)) 7"
    by (simp_all add: attempt_fetch_def settle_attempt_def)
  then have left: "stamped_for ''db'' 1090 (snd ?a)" and "clock (snd ?a) = 1000"
    using run_transfer_keeps_time [OF run]
    by (simp_all add: begin_cooldown_def wait_of_def no_faults_env stamped_for_def CEILING_SECS_def quiet_world_def)
  from stamped_wait [where F = "env_faults ?V" and fp = 8, OF left] have "clock ?v = 1000"
    using \<open>clock (snd ?a) = 1000\<close> wait_for_files [of "env_faults ?V" "snd ?a" "''db''" 8]
    by (auto simp: attempt_waits u64_max_def no_faults_env)
  have "attempts_before (env_faults ?V) ''db'' UNIV ?fetch 1090 (snd ?a) (?v\<lparr> clock := clock ?v + 30 \<rparr>)"
    by (rule attempts_before.ticks [OF attempts_before.tries [OF attempts_before.begins]])
      (simp_all add: \<open>clock (snd ?a) = 1000\<close> \<open>clock ?v = 1000\<close>)
  moreover have dest: "tr_dest rows_transfer = ''db''" by (simp add: rows_transfer_def)
  ultimately show ?thesis
    using refused_transfer_is_not_asked_again [of ?V rows_transfer 7 ?g "quiet_world 1000"
        "RateLimited ''https://db.example/rows'' (Some 90)" "snd ?a" ?fetch, THEN conjunct1, unfolded Let_def, rule_format,
        of 90 "?v\<lparr> clock := clock ?v + 30 \<rparr>" 9] at \<open>clock ?v = 1000\<close>
    by (simp add: no_faults_env quiet_world_def CEILING_SECS_def u64_max_def wait_of_def Let_def)
qed

end
