(* ===== verification/Attempts.thy ===== *)
theory Attempts
  imports Download
begin

text \<open>
  Attempts on one file side by side: \<open>attempt\<close> of \<open>src/geoip/download/mod.rs\<close> cut at its await, for any
  number of attempts in any number of processes that share a data directory. The stamp of a refusal
  is on the disk they share, the suppressions and the announcements of
  \<open>src/geoip/download/cooldown.rs\<close> are in the memory of each. The lemmas show that a refusal is heeded
  by every process until its wait has passed, as long as no attempt that was already under way ends
  first, and what one that ends with a file in place does.
\<close>

section \<open>Processes and their attempts\<close>

datatype attempt_state = Idle | Asking | Over

record fleet =
  fl_disk :: "str \<Rightarrow> file_state option"
  fl_now :: nat
  fl_memory :: "nat \<Rightarrow> (str \<Rightarrow> suppression option) \<times> (str \<times> nat) list"
  fl_attempt :: "nat \<Rightarrow> attempt_state"

text \<open>The world a process sees, and what it leaves of it to the others.\<close>

definition seen_by :: "nat \<Rightarrow> fleet \<Rightarrow> world" where
  "seen_by p s =
     \<lparr> files = fl_disk s, clock = fl_now s, suppressions = fst (fl_memory s p), announced = snd (fl_memory s p) \<rparr>"

definition left_by :: "nat \<Rightarrow> world \<Rightarrow> fleet \<Rightarrow> fleet" where
  "left_by p w s =
     s\<lparr> fl_disk := files w, fl_memory := (fl_memory s)(p := (suppressions w, announced w)) \<rparr>"

text \<open>
  An attempt \<open>i\<close> is made in the process \<open>P i\<close> under the configuration \<open>fp i\<close>: up to the await, where it is
  told to wait or its request is out, and from there to its end.
\<close>

definition asked :: "io_faults \<Rightarrow> str \<Rightarrow> (nat \<Rightarrow> nat) \<Rightarrow> (nat \<Rightarrow> nat) \<Rightarrow> nat \<Rightarrow> fleet \<Rightarrow> fleet" where
  "asked F dest P fp i s =
     (let (wait, w) = wait_for F (seen_by (P i) s) dest (fp i)
      in (left_by (P i) w s)\<lparr> fl_attempt := (fl_attempt s)(i := if wait = None then Asking else Over) \<rparr>)"

definition ended ::
    "io_faults \<Rightarrow> str \<Rightarrow> (nat \<Rightarrow> nat) \<Rightarrow> (nat \<Rightarrow> nat) \<Rightarrow> nat \<Rightarrow> (download_error, unit) result \<Rightarrow> fleet \<Rightarrow> fleet" where
  "ended F dest P fp i result s =
     (left_by (P i) (settle_attempt F dest (fp i) result (seen_by (P i) s)) s)
       \<lparr> fl_attempt := (fl_attempt s)(i := Over) \<rparr>"

definition rebooted :: "(nat \<Rightarrow> nat) \<Rightarrow> nat \<Rightarrow> fleet \<Rightarrow> fleet" where
  "rebooted P p s =
     s\<lparr> fl_memory := (fl_memory s)(p := (\<lambda>_. None, [])),
        fl_attempt := (\<lambda>i. if P i = p then Over else fl_attempt s i) \<rparr>"

text \<open>What may happen next, the attempts \<open>pending\<close> not ending.\<close>

inductive fleet_step :: "io_faults \<Rightarrow> str \<Rightarrow> (nat \<Rightarrow> nat) \<Rightarrow> (nat \<Rightarrow> nat) \<Rightarrow> nat set \<Rightarrow> fleet \<Rightarrow> fleet \<Rightarrow> bool"
  for F :: io_faults and dest :: str and P :: "nat \<Rightarrow> nat" and fp :: "nat \<Rightarrow> nat" and pending :: "nat set" where
  asks: "fl_attempt s i = Idle \<Longrightarrow> fleet_step F dest P fp pending s (asked F dest P fp i s)"
| ends: "fl_attempt s i = Asking \<Longrightarrow> i \<notin> pending \<Longrightarrow> fleet_step F dest P fp pending s (ended F dest P fp i result s)"
| writes: "p \<noteq> stamp_path dest \<Longrightarrow> fleet_step F dest P fp pending s (s\<lparr> fl_disk := (fl_disk s)(p := f) \<rparr>)"
| ticks: "fleet_step F dest P fp pending s (s\<lparr> fl_now := fl_now s + n \<rparr>)"
| reboots: "fleet_step F dest P fp pending s (rebooted P p s)"

inductive fleet_runs :: "io_faults \<Rightarrow> str \<Rightarrow> (nat \<Rightarrow> nat) \<Rightarrow> (nat \<Rightarrow> nat) \<Rightarrow> nat set \<Rightarrow> fleet \<Rightarrow> fleet \<Rightarrow> bool"
  for F :: io_faults and dest :: str and P :: "nat \<Rightarrow> nat" and fp :: "nat \<Rightarrow> nat" and pending :: "nat set" and s :: fleet where
  still: "fleet_runs F dest P fp pending s s"
| goes: "fleet_runs F dest P fp pending s s' \<Longrightarrow> fleet_step F dest P fp pending s' s'' \<Longrightarrow> fleet_runs F dest P fp pending s s''"

section \<open>A stamp on the disk they share\<close>

definition stamped :: "str \<Rightarrow> nat \<Rightarrow> fleet \<Rightarrow> bool" where
  "stamped dest until s \<longleftrightarrow> (\<exists>f. fl_disk s (stamp_path dest) = Some f \<and> content f = show_nat until)"

lemma stamped_waits:
  assumes "stamped dest until s" and "F (ReadFile (stamp_path dest)) = None" and "until \<le> u64_max" and "fl_now s < until"
  shows "fst (wait_for F (seen_by p s) dest n) \<noteq> None"
proof -
  obtain left w where asks: "suppressed (seen_by p s) dest n = (left, w)" by fastforce
  have same: "files w = fl_disk s" "clock w = fl_now s"
    using asks by (auto simp: suppressed_def seen_by_def Let_def split: option.splits if_splits)
  have "stamped_until F w dest = Some until"
    using assms(1-3) same by (intro stamped_until_show) (auto simp: read_content_def stamped_def)
  with asks same assms(4) show ?thesis
    by (cases left) (simp_all add: wait_for_def Let_def CEILING_SECS_def)
qed

lemma asked_stamped:
  assumes "stamped dest until s" and "F (ReadFile (stamp_path dest)) = None" and "until \<le> u64_max" and "fl_now s < until"
  shows "stamped dest until (asked F dest P fp i s) \<and> fl_attempt (asked F dest P fp i s) i = Over
    \<and> (\<forall>k. k \<noteq> i \<longrightarrow> fl_attempt (asked F dest P fp i s) k = fl_attempt s k)"
  using stamped_waits [where F = F and dest = dest and p = "P i" and n = "fp i", OF assms] wait_for_files [of F "seen_by (P i) s" dest "fp i"] assms(1)
  by (auto simp: asked_def left_by_def stamped_def seen_by_def split: prod.split)

lemma step_forward: "fleet_step F dest P fp pending s s' \<Longrightarrow> fl_now s \<le> fl_now s'"
  by (induction rule: fleet_step.induct) (auto simp: asked_def ended_def left_by_def rebooted_def split: prod.split)

text \<open>While the stamp is ahead of the clock and only pending attempts are under way, both stay so.\<close>

lemma heeded_step:
  assumes "fleet_step F dest P fp pending s s'" and "stamped dest until s" and "\<forall>k. fl_attempt s k = Asking \<longrightarrow> k \<in> pending"
    and "F (ReadFile (stamp_path dest)) = None" and "until \<le> u64_max" and "fl_now s < until"
  shows "stamped dest until s' \<and> (\<forall>k. fl_attempt s' k = Asking \<longrightarrow> k \<in> pending)"
  using assms(1)
proof (cases rule: fleet_step.cases)
  case (asks i)
  with asked_stamped [where F = F and dest = dest and P = P and fp = fp and i = i, OF assms(2,4-6)] assms(3) show ?thesis by (metis attempt_state.distinct(5))
qed (use assms(2,3) in \<open>auto simp: stamped_def rebooted_def\<close>)

lemma heeded_run:
  assumes "fleet_runs F dest P fp pending s s'" and "stamped dest until s" and "\<forall>k. fl_attempt s k = Asking \<longrightarrow> k \<in> pending"
    and "F (ReadFile (stamp_path dest)) = None" and "until \<le> u64_max" and "fl_now s' < until"
  shows "stamped dest until s' \<and> (\<forall>k. fl_attempt s' k = Asking \<longrightarrow> k \<in> pending)"
  using assms(1,6)
proof (induction rule: fleet_runs.induct)
  case still
  with assms(2,3) show ?case by simp
next
  case (goes s' s'')
  from step_forward [OF goes.hyps(2)] goes.prems have now: "fl_now s' < until" by simp
  with goes.IH heeded_step [OF goes.hyps(2) _ _ assms(4,5) now] show ?case by blast
qed

section \<open>What a refusal means to the others\<close>

text \<open>C19: a refusal is heeded by every process that shares the data directory: once an attempt has ended
  with one, and as long as none of the attempts that were under way with it has ended, no attempt asks
  anything before its wait has passed, whichever process makes it, whatever restarts in between.\<close>

theorem refusal_is_heeded_by_every_process:
  assumes "wait_of e = Some wait" and "\<not> is_permanent e"
    and "F (WriteFile (stamp_path dest)) = None" and "F (ReadFile (stamp_path dest)) = None"
    and "fl_now s + CEILING_SECS \<le> u64_max"
    and "fleet_runs F dest P fp {k. fl_attempt (ended F dest P fp i (Inl e) s) k = Asking} (ended F dest P fp i (Inl e) s) s'"
    and "fl_now s' < fl_now s + min wait CEILING_SECS"
  shows "(\<forall>k. fl_attempt s' k = Asking \<longrightarrow> k \<noteq> i \<and> fl_attempt s k = Asking)
    \<and> (\<forall>k. fl_attempt (asked F dest P fp k s') k = Over)"
proof -
  let ?s = "ended F dest P fp i (Inl e) s" and ?until = "fl_now s + min wait CEILING_SECS"
  have stamped: "stamped dest ?until ?s"
    using assms(1-3) by (simp add: stamped_def ended_def left_by_def settle_attempt_def begin_cooldown_def seen_by_def)
  have until: "?until \<le> u64_max" using assms(5) by simp
  from heeded_run [OF assms(6) stamped _ assms(4) until assms(7)]
  have heeded: "stamped dest ?until s'" "\<forall>k. fl_attempt s' k = Asking \<longrightarrow> fl_attempt ?s k = Asking" by auto
  moreover have "fl_attempt (asked F dest P fp k s') k = Over" for k
    using asked_stamped [where F = F and dest = dest and P = P and fp = fp and i = k, OF heeded(1) assms(4) until assms(7)] by blast
  ultimately show ?thesis by (auto simp: ended_def left_by_def split: if_splits)
qed

text \<open>An attempt that was under way when the other was refused, and then ends with the file in place, takes
  the stamp away: the next attempt asks at once.\<close>

theorem success_under_way_lifts_the_wait:
  assumes "F (Remove (stamp_path dest)) = None" and "P j \<noteq> P k" and "suppressions (seen_by (P j) s) dest = None"
  shows "fl_attempt (asked F dest P fp j (ended F dest P fp k (Inr u) s)) j = Asking"
  using assms
  by (auto simp: asked_def ended_def left_by_def seen_by_def settle_attempt_def clear_cooldown_def wait_for_def
      suppressed_def stamped_until_def read_content_def Let_def split: option.splits sum.splits)

text \<open>Two processes: the first is refused for ninety seconds, the second restarts a minute later, and an
  attempt it makes then is still told to wait.\<close>

definition quiet_fleet :: fleet where
  "quiet_fleet = \<lparr> fl_disk = (\<lambda>_. None), fl_now = 1000, fl_memory = (\<lambda>_. (\<lambda>_. None, [])),
     fl_attempt = (\<lambda>i. if i = 0 then Asking else Idle) \<rparr>"

theorem refusal_is_heeded_by_every_process_witness:
  "let s = ended no_faults ''db'' id id 0 (Inl (RateLimited ''u'' (Some 90))) quiet_fleet;
       s' = rebooted id 1 (s\<lparr> fl_now := fl_now s + 60 \<rparr>)
   in fl_attempt (asked no_faults ''db'' id id 1 s') 1 = Over"
proof -
  let ?e = "RateLimited ''u'' (Some 90)" and ?s = "ended no_faults ''db'' id id 0 (Inl (RateLimited ''u'' (Some 90))) quiet_fleet"
  let ?s' = "rebooted id 1 (?s\<lparr> fl_now := fl_now ?s + 60 \<rparr>)"
  have run: "fleet_runs no_faults ''db'' id id X ?s ?s'" for X
    by (rule fleet_runs.goes [OF fleet_runs.goes [OF fleet_runs.still fleet_step.ticks] fleet_step.reboots])
  have "(\<forall>k. fl_attempt ?s' k = Asking \<longrightarrow> k \<noteq> 0 \<and> fl_attempt quiet_fleet k = Asking)
      \<and> (\<forall>k. fl_attempt (asked no_faults ''db'' id id k ?s') k = Over)"
    by (rule refusal_is_heeded_by_every_process [where e = ?e and wait = 90 and F = no_faults, OF _ _ _ _ _ run])
      (simp_all add: wait_of_def no_faults_def CEILING_SECS_def u64_max_def quiet_fleet_def rebooted_def ended_def left_by_def)
  then show ?thesis by (simp add: Let_def)
qed

end
