(* ===== verification/Table_Rows.thy ===== *)
theory Table_Rows
  imports Table_Query
begin

text \<open>
  The three iterators of the table half as state machines: \<open>Rows\<close> of \<open>src/table/mod.rs\<close>, \<open>Matches\<close> and
  \<open>Fields\<close> of \<open>src/table/query.rs\<close>, with what a \<open>Table\<close> and a \<open>Row\<close> tell of themselves. Each
  implements \<open>Iterator\<close>: \<open>next\<close>, and a \<open>size_hint\<close> a caller sizes its buffers by. The contract of the
  trait is a locale, and the three are its instances; the lemmas show that every iteration ends, and
  within the bounds it reported before it began.
\<close>

section \<open>What a table and a row tell of themselves\<close>

definition table_columns :: "'m table \<Rightarrow> str list" where
  "table_columns t = tab_columns t"

definition table_key_column :: "'m table \<Rightarrow> str" where
  "table_key_column t = tab_columns t ! tab_key_column t"

definition table_len :: "'m table \<Rightarrow> nat" where
  "table_len t = length (tab_rows t)"

definition table_is_empty :: "'m table \<Rightarrow> bool" where
  "table_is_empty t \<longleftrightarrow> tab_rows t = []"

definition row_cell :: "row \<Rightarrow> nat \<Rightarrow> str option" where
  "row_cell r column = cell r column"

text \<open>\<open>Debug\<close> prints a row's own cells under the table's names.\<close>

definition row_debug :: "'m table \<Rightarrow> row \<Rightarrow> (str \<times> str option) list" where
  "row_debug t r = zip (tab_columns t) r"

section \<open>Rows\<close>

datatype positions = FiledPositions "nat list" | AllPositions nat nat

fun next_position :: "positions \<Rightarrow> (nat \<times> positions) option" where
  "next_position (FiledPositions []) = None"
| "next_position (FiledPositions (at # rest)) = Some (at, FiledPositions rest)"
| "next_position (AllPositions i n) = (if i < n then Some (i, AllPositions (i + 1) n) else None)"

definition next_row :: "'m table \<Rightarrow> positions \<Rightarrow> (row \<times> positions) option" where
  "next_row t ps = map_option (\<lambda>(at, rest). (row_at t at, rest)) (next_position ps)"

fun positions_left :: "positions \<Rightarrow> nat" where
  "positions_left (FiledPositions l) = length l"
| "positions_left (AllPositions i n) = n - i"

definition rows_size_hint :: "positions \<Rightarrow> nat \<times> nat option" where
  "rows_size_hint ps = (positions_left ps, Some (positions_left ps))"

definition rows_of_table :: "'m table \<Rightarrow> positions" where
  "rows_of_table t = AllPositions 0 (length (tab_rows t))"

definition rows_under :: "'m table \<Rightarrow> str \<Rightarrow> positions" where
  "rows_under t key = FiledPositions (positions_of t key)"

definition rows_around :: "('p, 'm) prefix_lib \<Rightarrow> 'm table \<Rightarrow> ip_addr \<Rightarrow> positions" where
  "rows_around L t address = FiledPositions (positions_at L t address)"

lemma next_position_left: "next_position ps = Some (at, rest) \<Longrightarrow> positions_left ps = Suc (positions_left rest)"
  by (cases ps rule: next_position.cases) (auto split: if_splits)

text \<open>Everything a row iterator hands back.\<close>

function collect_rows :: "'m table \<Rightarrow> positions \<Rightarrow> row list" where
  "collect_rows t ps = (case next_row t ps of None \<Rightarrow> [] | Some (r, rest) \<Rightarrow> r # collect_rows t rest)"
  by pat_completeness auto
termination
  by (relation "measure (\<lambda>(t, ps). positions_left ps)") (auto simp: next_row_def dest: next_position_left)

declare collect_rows.simps [simp del]

lemma collect_filed: "collect_rows t (FiledPositions l) = map (row_at t) l"
  by (induction l) (subst collect_rows.simps, simp add: next_row_def)+

lemma collect_all: "collect_rows t (AllPositions i n) = map (row_at t) [i..<n]"
proof (induction "n - i" arbitrary: i)
  case 0
  then show ?case by (subst collect_rows.simps) (simp add: next_row_def)
next
  case (Suc k)
  then have "i < n" "collect_rows t (AllPositions (Suc i) n) = map (row_at t) [Suc i..<n]" by auto
  then show ?case by (subst collect_rows.simps) (simp add: next_row_def upt_conv_Cons)
qed

section \<open>The columns of a match, sized\<close>

fun fields_size_hint :: "field_walk \<Rightarrow> nat \<times> nat option" where
  "fields_size_hint (AllFields i n) = (n - i, Some (n - i))"
| "fields_size_hint (NamedFields names) = (0, Some (length names))"

section \<open>The contract of an iterator\<close>

primrec after_next :: "('s \<Rightarrow> ('a \<times> 's) option) \<Rightarrow> nat \<Rightarrow> 's \<Rightarrow> 's option" where
  "after_next step 0 s = Some s"
| "after_next step (Suc n) s = (case step s of None \<Rightarrow> None | Some (_, s') \<Rightarrow> after_next step n s')"

lemma after_next_more: "after_next step m s = None \<Longrightarrow> after_next step (m + d) s = None"
  by (induction m arbitrary: s) (auto split: option.splits)

text \<open>
  What a caller may rely on: the items handed back are as many as the hint says, and by one call more
  than its upper bound \<open>next\<close> has answered the end.
\<close>

definition keeps_its_hint :: "('s \<Rightarrow> ('a \<times> 's) option) \<Rightarrow> ('s \<Rightarrow> nat \<times> nat option) \<Rightarrow> ('s \<Rightarrow> 'a list) \<Rightarrow> 's \<Rightarrow> bool" where
  "keeps_its_hint step hint items s \<longleftrightarrow>
     (\<exists>n. snd (hint s) = Some n \<and> fst (hint s) \<le> length (items s) \<and> length (items s) \<le> n
        \<and> after_next step (Suc n) s = None)"

text \<open>
  One step of the contract: the lower bound falls by at most one with each item and is zero at the
  end, the upper bound falls by at least one.
\<close>

locale sized_iterator =
  fixes step :: "'s \<Rightarrow> ('a \<times> 's) option" and hint :: "'s \<Rightarrow> nat \<times> nat option" and items :: "'s \<Rightarrow> 'a list"
  assumes items_step: "items s = (case step s of None \<Rightarrow> [] | Some (x, s') \<Rightarrow> x # items s')"
    and bounded: "\<exists>n. snd (hint s) = Some n"
    and upper_falls: "step s = Some (x, s') \<Longrightarrow> snd (hint s) = Some n \<Longrightarrow> snd (hint s') = Some n' \<Longrightarrow> n' < n"
    and lower_falls: "step s = Some (x, s') \<Longrightarrow> fst (hint s) \<le> Suc (fst (hint s'))"
    and lower_ends: "step s = None \<Longrightarrow> fst (hint s) = 0"
begin

lemma hint_holds: "keeps_its_hint step hint items s"
proof -
  obtain n where "snd (hint s) = Some n" using bounded by blast
  moreover from this have "fst (hint s) \<le> length (items s) \<and> length (items s) \<le> n \<and> after_next step (Suc n) s = None"
  proof (induction n arbitrary: s rule: less_induct)
    case (less n)
    show ?case
    proof (cases "step s")
      case None
      then show ?thesis using lower_ends [OF None] items_step [of s] by simp
    next
      case (Some xs)
      obtain x s' where xs: "step s = Some (x, s')" using Some by (cases xs) auto
      obtain n' where n': "snd (hint s') = Some n'" using bounded by blast
      from upper_falls [OF xs less.prems n'] obtain d where n: "n = Suc (n' + d)"
        by (auto simp: less_iff_Suc_add)
      have IH: "fst (hint s') \<le> length (items s') \<and> length (items s') \<le> n' \<and> after_next step (Suc n') s' = None"
        using less.IH [of n' s'] n n' by simp
      then have "after_next step (Suc n' + d) s' = None" by (blast intro: after_next_more)
      then have "after_next step (Suc n) s = None" by (simp add: xs n)
      moreover have "items s = x # items s'" using items_step [of s] by (simp add: xs)
      ultimately show ?thesis using lower_falls [OF xs] IH n by auto
    qed
  qed
  ultimately show ?thesis by (auto simp: keeps_its_hint_def)
qed

end

interpretation row_items: sized_iterator "next_row t" rows_size_hint "collect_rows t" for t
proof
  show "collect_rows t ps = (case next_row t ps of None \<Rightarrow> [] | Some (x, s') \<Rightarrow> x # collect_rows t s')" for ps
    by (subst collect_rows.simps) simp
qed (auto simp: next_row_def rows_size_hint_def dest: next_position_left
       elim!: next_position.elims split: if_splits)

interpretation match_items: sized_iterator "next_match X t" size_hint "collect_matches X t" for X t
proof
  show "collect_matches X t m = (case next_match X t m of None \<Rightarrow> [] | Some (x, s') \<Rightarrow> x # collect_matches X t s')" for m
    by (subst collect_matches.simps) simp
qed (auto simp: size_hint_def dest: next_match_remaining)

lemma fields_hint_left: "snd (fields_size_hint w) = Some (field_steps w)"
  by (cases w) simp_all

interpretation field_items: sized_iterator "next_field t r" fields_size_hint "collect_fields t r" for t r
proof
  show "collect_fields t r w = (case next_field t r w of None \<Rightarrow> [] | Some (x, s') \<Rightarrow> x # collect_fields t r s')" for w
    by (subst collect_fields.simps) simp
  show "next_field t r w = Some (x, w') \<Longrightarrow> fst (fields_size_hint w) \<le> Suc (fst (fields_size_hint w'))" for w x w'
    by (cases w) (auto split: if_splits)
  show "next_field t r w = None \<Longrightarrow> fst (fields_size_hint w) = 0" for w
    by (cases w) (auto split: if_splits)
qed (auto simp: fields_hint_left dest: next_field_steps)

text \<open>C26: the iterators over rows, matches and columns end, and within what they report beforehand:
  the items are no fewer than the lower bound and no more than the upper one, and one call more than
  that has answered the end. An iteration over rows hands back exactly the rows the lookup is of, in
  file order, and its length is known exactly.\<close>

theorem iterations_end_within_their_hints:
  "keeps_its_hint (next_row t) rows_size_hint (collect_rows t) ps
   \<and> keeps_its_hint (next_match X t) size_hint (collect_matches X t) m
   \<and> keeps_its_hint (next_field t r) fields_size_hint (collect_fields t r) w
   \<and> rows_size_hint ps = (length (collect_rows t ps), Some (length (collect_rows t ps)))
   \<and> collect_rows t (rows_of_table t) = tab_rows t
   \<and> collect_rows t (rows_under t key) = table_all t key
   \<and> collect_rows t (rows_around L t a) = all_by_address L t a"
proof (intro conjI)
  show "rows_size_hint ps = (length (collect_rows t ps), Some (length (collect_rows t ps)))"
    by (cases ps) (simp_all add: rows_size_hint_def collect_filed collect_all)
  show "collect_rows t (rows_of_table t) = tab_rows t"
    by (simp add: rows_of_table_def collect_all row_at_def [abs_def] map_nth)
qed (simp_all add: row_items.hint_holds match_items.hint_holds field_items.hint_holds
       rows_under_def rows_around_def collect_filed table_all_def all_by_address_def)

end
