(* ===== verification/Requests.thy ===== *)
theory Requests
  imports Download
begin

text \<open>
  What goes over the wire: the requests of \<open>src/geoip/download/fetch.rs\<close> as its HTTP client builds
  them, with the credential of the source attached by \<open>Credential::apply\<close>. Theory \<open>Fetch\<close> lets a
  server answer a URL, a credential and an offset; here the server sees the request those become. The
  lemmas show that a transfer asks the URLs it states and no others, and that a credential reaches
  the request alone: what is returned, logged in an error or written to disk is the same for any two
  credentials the servers answer alike.
\<close>

section \<open>Requests as they are sent\<close>

record http_request =
  hr_url :: str
  hr_auth :: "(str \<times> str) option"
  hr_query :: "(str \<times> str) list"
  hr_range :: "str option"

definition get_request :: "str \<Rightarrow> http_request" where
  "get_request url = \<lparr> hr_url = url, hr_auth = None, hr_query = [], hr_range = None \<rparr>"

text \<open>The token is a parameter of the request and no part of the URL it is logged by.\<close>

fun credential_apply :: "credential \<Rightarrow> http_request \<Rightarrow> http_request" where
  "credential_apply Anonymous r = r"
| "credential_apply (Basic username password _) r = r\<lparr> hr_auth := Some (expose username, expose password) \<rparr>"
| "credential_apply (QueryToken name v _) r = r\<lparr> hr_query := hr_query r @ [(name, expose v)] \<rparr>"

definition range_header :: "nat \<Rightarrow> str" where
  "range_header resume_from = ''bytes='' @ show_nat resume_from @ ''-''"

definition request_sent :: "request \<Rightarrow> http_request" where
  "request_sent rq =
     (let r = credential_apply (rq_credential rq) (get_request (rq_url rq)) in
      case rq_range rq of None \<Rightarrow> r | Some n \<Rightarrow> r\<lparr> hr_range := Some (range_header n) \<rparr>)"

definition http_server :: "(http_request \<Rightarrow> (str, response) result) \<Rightarrow> server" where
  "http_server H rq = H (request_sent rq)"

text \<open>The URLs a transfer names.\<close>

definition stated_urls :: "transfer \<Rightarrow> str set" where
  "stated_urls t = {tr_url t} \<union> set_option (tr_fallback_url t) \<union> set_option (tr_checksum_url t)"

text \<open>Two servers that answer a transfer alike, each under the credential it is shown.\<close>

definition answers_alike :: "server \<Rightarrow> server \<Rightarrow> transfer \<Rightarrow> credential \<Rightarrow> bool" where
  "answers_alike N N' t cred \<longleftrightarrow>
     (\<forall>url \<in> stated_urls t. \<forall>offset.
        N \<lparr> rq_url = url, rq_credential = tr_credential t, rq_range = offset \<rparr> =
        N' \<lparr> rq_url = url, rq_credential = cred, rq_range = offset \<rparr>)"

lemma answers_alikeD:
  "answers_alike N N' t cred \<Longrightarrow> url \<in> stated_urls t \<Longrightarrow>
   N \<lparr> rq_url = url, rq_credential = tr_credential t, rq_range = offset \<rparr> =
   N' \<lparr> rq_url = url, rq_credential = cred, rq_range = offset \<rparr>"
  by (simp add: answers_alike_def)

section \<open>A credential reaches the request alone\<close>

lemma refused_status_fields:
  "credential_fields cred = credential_fields cred' \<Longrightarrow>
   refused_status E url status after cred = refused_status E url status after cred'"
  by (simp add: refused_status_def)

lemma credential_shown:
  "tr_credential (t\<lparr> tr_credential := cred \<rparr>) = cred" "tr_archive (t\<lparr> tr_credential := cred \<rparr>) = tr_archive t"
  "tr_checksum_url (t\<lparr> tr_credential := cred \<rparr>) = tr_checksum_url t"
  "tr_dest (t\<lparr> tr_credential := cred \<rparr>) = tr_dest t"
  "tr_format (t\<lparr> tr_credential := cred \<rparr>) = tr_format t"
  by simp_all

lemma finish_alike: "finish_transfer E F (t\<lparr> tr_credential := cred \<rparr>) g w = finish_transfer E F t g w"
  by (simp only: finish_transfer_def credential_shown)

lemma stream_from_alike:
  assumes "answers_alike N N' t cred" and "credential_fields (tr_credential t) = credential_fields cred"
    and "url \<in> stated_urls t"
  shows "stream_from E F N t url part n limit w = stream_from E F N' (t\<lparr> tr_credential := cred \<rparr>) url part n limit w"
  by (simp only: stream_from_def answers_alikeD [OF assms(1,3)] refused_status_fields [OF assms(2)] credential_shown)

lemma stream_to_alike:
  assumes "answers_alike N N' t cred" and "credential_fields (tr_credential t) = credential_fields cred"
    and "url \<in> stated_urls t"
  shows "stream_to E F N t url part limit w = stream_to E F N' (t\<lparr> tr_credential := cred \<rparr>) url part limit w"
  by (simp only: stream_to_def stream_from_alike [OF assms] credential_shown)

lemma stream_with_fallback_alike:
  assumes "answers_alike N N' t cred" and "credential_fields (tr_credential t) = credential_fields cred"
  shows "stream_with_fallback E F N t part limit w =
    stream_with_fallback E F N' (t\<lparr> tr_credential := cred \<rparr>) part limit w"
  by (simp add: stream_with_fallback_def stream_to_alike [OF assms] stated_urls_def split: option.split prod.split)

lemma check_digest_alike:
  assumes "answers_alike N N' t cred"
  shows "check_digest E F N t part w = check_digest E F N' (t\<lparr> tr_credential := cred \<rparr>) part w"
  by (simp add: check_digest_def fetch_checksum_def answers_alikeD [OF assms] stated_urls_def split: option.split)

lemma fetch_transfer_alike:
  assumes "answers_alike N N' t cred" and "credential_fields (tr_credential t) = credential_fields cred"
  shows "fetch_transfer E F N lock t g limit w = fetch_transfer E F N' lock (t\<lparr> tr_credential := cred \<rparr>) g limit w"
  by (simp only: fetch_transfer_def stream_with_fallback_alike [OF assms] check_digest_alike [OF assms(1)]
      finish_alike credential_shown)

text \<open>The previous month's URL is asked for once the current one has answered 404, and not before.\<close>

lemma body_is_no_refusal: "\<not> has_status n (fst (stream_body E F url part limit w pw written chunks))"
  by (induction E F url part limit w pw written chunks rule: stream_body.induct)
    (auto simp: Let_def split: sum.split prod.split)

lemma refusal_is_the_reply:
  assumes "has_status n (fst (stream_from E F N t url part from_byte limit w))"
  shows "\<exists>rs. N \<lparr> rq_url = url, rq_credential = tr_credential t,
      rq_range = (if 0 < from_byte then Some from_byte else None) \<rparr> = Inr rs \<and> rs_status rs = n"
proof (cases "N \<lparr> rq_url = url, rq_credential = tr_credential t,
      rq_range = (if 0 < from_byte then Some from_byte else None) \<rparr>")
  case (Inl e)
  with assms show ?thesis by (simp add: stream_from_def)
next
  case (Inr rs)
  have "rs_status rs = n"
  proof (cases "is_success (rs_status rs)")
    case False
    with assms Inr show ?thesis
      by (auto simp: stream_from_def refused_status_def split: if_splits option.splits)
  next
    case True
    with assms Inr body_is_no_refusal [of n E F url part limit] show ?thesis
      by (auto simp: stream_from_def Let_def split: if_splits sum.splits option.splits prod.splits)
        (metis fst_conv)+
  qed
  with Inr show ?thesis by blast
qed

lemma fallback_needs_a_404:
  assumes "\<And>offset rs. N \<lparr> rq_url = tr_url t, rq_credential = tr_credential t, rq_range = offset \<rparr> = Inr rs \<Longrightarrow>
      rs_status rs \<noteq> 404"
  shows "stream_with_fallback E F N t part limit w = stream_to E F N t (tr_url t) part limit w"
proof -
  have "\<not> has_status 404 (fst (stream_from E F N t (tr_url t) part n limit w'))" for n w'
    using refusal_is_the_reply [of 404 E F N t "tr_url t" part n limit w'] assms by blast
  then have "\<not> has_status 404 (fst (stream_to E F N t (tr_url t) part limit w))"
    by (auto simp: stream_to_def Let_def split: prod.split) (metis fst_conv)+
  then show ?thesis
    by (cases "stream_to E F N t (tr_url t) part limit w") (simp add: stream_with_fallback_def split: option.split)
qed

section \<open>Downloads of two configurations\<close>

lemma same_credentials_parts:
  assumes "same_but_credentials a b"
  shows "check_settings a x = check_settings b x" and "guard_new k a = guard_new k b"
    and "ad_data_dir a = ad_data_dir b"
  using assms by (cases a; cases b; simp add: same_but_credentials_def check_settings_def guard_new_def)+

lemma resolved_shape:
  assumes "resolve_credential k p a = Inr x" and "resolve_credential k p b = Inr y"
  shows "credential_fields x = credential_fields y"
  using assms by (cases k) (auto simp: and_then_Inr_iff)

lemma planned_alike:
  assumes "plan cal k c = Inr ts" and "plan cal k (c\<lparr> gc_auto_download := b \<rparr>) = Inr ts'"
    and "same_but_credentials (gc_auto_download c) b"
  obtains t cred where "ts = [t]" and "ts' = [t\<lparr> tr_credential := cred \<rparr>]"
    and "credential_fields (tr_credential t) = credential_fields cred"
proof -
  let ?ch = "kind_choice k (gc_provider c)"
  have ch: "kind_choice k (gc_provider (c\<lparr> gc_auto_download := b \<rparr>)) = ?ch" by simp
  from assms(1) obtain s where s: "select_source ?ch k = Inr (Some s)"
    by (auto simp: plan_def Let_def and_then_Inr_iff split: option.splits)
  with assms(1,2) obtain t t' where t: "source_transfer cal s (gc_auto_download c) = Inr t" "ts = [t]"
    and t': "source_transfer cal s b = Inr t'" "ts' = [t']"
    by (auto simp: plan_def Let_def and_then_Inr_iff split: option.splits)
  from t(1) obtain x where x: "resolve_credential (ss_credential s) (provider_label (ss_provider s)) (gc_auto_download c) = Inr x"
    "tr_credential t = x" by (auto simp: source_transfer_def and_then_Inr_iff)
  from t'(1) obtain y where y: "resolve_credential (ss_credential s) (provider_label (ss_provider s)) b = Inr y"
    by (auto simp: source_transfer_def and_then_Inr_iff)
  have "t' = t\<lparr> tr_credential := y \<rparr>"
    using t(1) t'(1) x(1) y same_credentials_parts(3) [OF assms(3)] by (auto simp: source_transfer_def)
  with that t t' x resolved_shape [OF x(1) y] show ?thesis by simp
qed

text \<open>C13: a transfer asks the URLs it states and no others, and a credential reaches its requests alone.
  For two configurations that differ in their credentials, where both have those the source needs,
  and for servers that answer the one's requests to the stated URLs as they answer the other's, a
  download comes to the same: the same result, the same error texts and the same files.\<close>

theorem secrets_reach_the_request_alone:
  assumes "same_but_credentials (gc_auto_download c) b"
    and "plan (env_calendar V) k c = Inr [t]"
    and "plan (env_calendar V) k (c\<lparr> gc_auto_download := b \<rparr>) = Inr [t']"
    and "\<forall>url \<in> stated_urls t. \<forall>offset.
        H (request_sent \<lparr> rq_url = url, rq_credential = tr_credential t, rq_range = offset \<rparr>) =
        H' (request_sent \<lparr> rq_url = url, rq_credential = tr_credential t', rq_range = offset \<rparr>)"
  shows "stated_urls t' = stated_urls t
    \<and> download_kind (V\<lparr> env_net := http_server H \<rparr>) k c w =
      download_kind (V\<lparr> env_net := http_server H' \<rparr>) k (c\<lparr> gc_auto_download := b \<rparr>) w"
proof -
  from planned_alike [OF assms(2,3,1)] obtain cred where t': "t' = t\<lparr> tr_credential := cred \<rparr>"
    and shape: "credential_fields (tr_credential t) = credential_fields cred" by auto
  have alike: "answers_alike (http_server H) (http_server H') t cred"
    using assms(4) by (simp add: answers_alike_def http_server_def t')
  note same = same_credentials_parts [OF assms(1)]
  have "run_transfers (V\<lparr> env_net := http_server H \<rparr>) g [t] w =
      run_transfers (V\<lparr> env_net := http_server H' \<rparr>) g [t'] w" for g
    by (simp add: run_transfer_def run_guarded_def fetch_transfer_alike [OF alike shape] t' split: prod.split sum.split)
  note transfers = this
  have "stated_urls t' = stated_urls t" by (simp add: stated_urls_def t')
  moreover have "download_kind (V\<lparr> env_net := http_server H \<rparr>) k c w =
      download_kind (V\<lparr> env_net := http_server H' \<rparr>) k (c\<lparr> gc_auto_download := b \<rparr>) w"
  proof (cases "check_settings b (gc_http_client c \<noteq> None)")
    case (Inr u)
    then show ?thesis
      by (cases "gc_http_client c"; cases "env_client V")
        (simp_all add: download_kind_def assms(2,3) same transfers client_for_def del: run_transfers.simps)
  qed (simp add: download_kind_def same)
  ultimately show ?thesis by blast
qed

definition ipinfo_config :: "str \<Rightarrow> geoip_config" where
  "ipinfo_config token =
     geoip_config_default\<lparr> gc_provider := selection_of_provider IpInfo, gc_auto_download := ipinfo_settings token \<rparr>"

text \<open>A server that asks for one token.\<close>

definition asks_for :: "str \<Rightarrow> http_request \<Rightarrow> (str, response) result" where
  "asks_for token r =
     (if hr_query r = [(''token'', token)]
      then Inr \<lparr> rs_status = 503, rs_retry_after = None, rs_content_length = None, rs_body = [] \<rparr> else Inl ''closed'')"

lemma ipinfo_selected: "select_source (choice_of_provider IpInfo) City = Inr (Some ipinfo_source)"
  by (simp add: select_source_def find_source_def answers_choice_def choice_of_provider_def ipinfo_source_def
      SOURCES_def db_ip_source_def maxmind_source_def numeral_eq_Suc)

lemma ipinfo_plan:
  assumes "token \<noteq> []"
  shows "\<exists>t. plan cal City (ipinfo_config token) = Inr [t]
     \<and> tr_credential t = QueryToken ''token'' (Secret token) ''auto_download.ipinfo_token''"
proof -
  have "kind_choice City (gc_provider (ipinfo_config token)) = choice_of_provider IpInfo"
    by (simp add: ipinfo_config_def selection_of_provider_def selection_of_choice_def)
  moreover have "\<exists>t. source_transfer cal ipinfo_source (ipinfo_settings token) = Inr t
      \<and> tr_credential t = QueryToken ''token'' (Secret token) ''auto_download.ipinfo_token''"
    using assms by (simp add: source_transfer_def ipinfo_source_def SOURCES_def require_slot_def secret_is_empty_def
        ipinfo_settings_def numeral_eq_Suc)
  ultimately show ?thesis by (auto simp: plan_def ipinfo_selected ipinfo_config_def)
qed

definition quiet_env :: "(http_request \<Rightarrow> (str, response) result) \<Rightarrow> (net, net_map, str) env" where
  "quiet_env H = (demo_env (answering 200 []))\<lparr> env_net := http_server H \<rparr>"

theorem secrets_reach_the_request_alone_witness:
  "download_kind (quiet_env (asks_for ''one'')) City (ipinfo_config ''one'') (one_file ''db'' ''1'') =
   download_kind (quiet_env (asks_for ''two'')) City (ipinfo_config ''two'') (one_file ''db'' ''1'')"
proof -
  let ?V = "demo_env (answering 200 [])" and ?w = "one_file ''db'' ''1''"
  have two: "ipinfo_config ''two'' = (ipinfo_config ''one'')\<lparr> gc_auto_download := ipinfo_settings ''two'' \<rparr>"
    by (simp add: ipinfo_config_def)
  obtain t t' where t: "plan (env_calendar ?V) City (ipinfo_config ''one'') = Inr [t]"
      "tr_credential t = QueryToken ''token'' (Secret ''one'') ''auto_download.ipinfo_token''"
    and t': "plan (env_calendar ?V) City (ipinfo_config ''two'') = Inr [t']"
      "tr_credential t' = QueryToken ''token'' (Secret ''two'') ''auto_download.ipinfo_token''"
    using ipinfo_plan [of "''one''" "env_calendar ?V"] ipinfo_plan [of "''two''" "env_calendar ?V"] by auto
  have "same_but_credentials (gc_auto_download (ipinfo_config ''one'')) (ipinfo_settings ''two'')"
    by (simp add: same_but_credentials_def ipinfo_config_def ipinfo_settings_def)
  from secrets_reach_the_request_alone [OF this t(1) t'(1) [unfolded two], of "asks_for ''one''" "asks_for ''two''" ?w]
  show ?thesis
    by (simp add: quiet_env_def two asks_for_def request_sent_def get_request_def t t' Let_def split: option.split)
qed

end
