(* ===== verification/Config_Wire.thy ===== *)
theory Config_Wire
  imports Config Table_Types
begin

text \<open>
  The whole of a configuration as it is written and read: \<open>GeoIpConfig\<close> and \<open>AutoDownloadConfig\<close> of
  \<open>src/geoip/config.rs\<close> and \<open>TableSource\<close> with its parts of \<open>src/table/config.rs\<close>, through the derived
  serde implementations, on the values of theory \<open>Config\<close>. The lemmas show that what is written is
  read back, but for the credentials, which are written redacted, and the HTTP client, which is not
  written; that what is written says nothing of either; and that a field left out is its default.
\<close>

section \<open>Values\<close>

fun read_bool :: "wire \<Rightarrow> bool option" where
  "read_bool (WBool b) = Some b"
| "read_bool _ = None"

fun read_text :: "wire \<Rightarrow> str option" where
  "read_text (WStr s) = Some s"
| "read_text _ = None"

fun read_uint :: "nat \<Rightarrow> wire \<Rightarrow> nat option" where
  "read_uint largest (WNum n) = (if 0 \<le> n \<and> n \<le> int largest then Some (nat n) else None)"
| "read_uint largest _ = None"

fun read_list :: "(wire \<Rightarrow> 'a option) \<Rightarrow> wire list \<Rightarrow> 'a list option" where
  "read_list rd [] = Some []"
| "read_list rd (w # ws) = Option.bind (rd w) (\<lambda>x. map_option (\<lambda>xs. x # xs) (read_list rd ws))"

definition write_option :: "('a \<Rightarrow> wire) \<Rightarrow> 'a option \<Rightarrow> wire" where
  "write_option wr v = (case v of None \<Rightarrow> WNull | Some x \<Rightarrow> wr x)"

definition u8_max :: nat where "u8_max = 255"
definition u32_max :: nat where "u32_max = 4294967295"

lemma read_uint_written [simp]: "n \<le> largest \<Longrightarrow> read_uint largest (WNum (int n)) = Some n"
  by simp

lemma read_option_written [simp]:
  "(\<And>x. wr x \<noteq> WNull) \<Longrightarrow> read_option rd (write_option wr v) = (case v of None \<Rightarrow> Some None | Some x \<Rightarrow> map_option Some (rd (wr x)))"
  by (simp add: read_option_def write_option_def split: option.split)

lemma read_list_texts [simp]: "read_list read_text (map WStr xs) = Some xs"
  by (induction xs) simp_all

section \<open>Secrets and settings\<close>

text \<open>A secret is read as the text it is, and written as the redaction.\<close>

definition read_secret :: "wire \<Rightarrow> secret option" where
  "read_secret w = map_option Secret (read_text w)"

definition write_secret :: "secret \<Rightarrow> wire" where
  "write_secret s = WStr (secret_serialize s)"

definition AUTO_DOWNLOAD_KEYS :: "str list" where
  "AUTO_DOWNLOAD_KEYS =
     [''enabled'', ''data_dir'', ''maxmind_account_id'', ''maxmind_license_key'', ''ipinfo_token'',
      ''max_age_days'', ''connect_timeout_secs'', ''read_timeout_secs'', ''verify_content'',
      ''min_size_percent'', ''age_from_source'', ''resident_max_bytes'']"

definition serialize_auto_download :: "auto_download \<Rightarrow> wire" where
  "serialize_auto_download a =
     WMap [(''enabled'', WBool (ad_enabled a)), (''data_dir'', WStr (ad_data_dir a)),
           (''maxmind_account_id'', write_option write_secret (ad_maxmind_account_id a)),
           (''maxmind_license_key'', write_option write_secret (ad_maxmind_license_key a)),
           (''ipinfo_token'', write_option write_secret (ad_ipinfo_token a)),
           (''max_age_days'', WNum (int (ad_max_age_days a))),
           (''connect_timeout_secs'', WNum (int (ad_connect_timeout_secs a))),
           (''read_timeout_secs'', WNum (int (ad_read_timeout_secs a))),
           (''verify_content'', WBool (ad_verify_content a)),
           (''min_size_percent'', WNum (int (ad_min_size_percent a))),
           (''age_from_source'', WBool (ad_age_from_source a)),
           (''resident_max_bytes'', WNum (int (ad_resident_max_bytes a)))]"

definition deserialize_auto_download :: "wire \<Rightarrow> auto_download option" where
  "deserialize_auto_download v =
     (let d = auto_download_default in
      Option.bind (struct_fields AUTO_DOWNLOAD_KEYS v) (\<lambda>m.
      Option.bind (read_or (ad_enabled d) read_bool (m ''enabled'')) (\<lambda>enabled.
      Option.bind (read_or (ad_data_dir d) read_text (m ''data_dir'')) (\<lambda>data_dir.
      Option.bind (read_or (ad_maxmind_account_id d) (read_option read_secret) (m ''maxmind_account_id'')) (\<lambda>account.
      Option.bind (read_or (ad_maxmind_license_key d) (read_option read_secret) (m ''maxmind_license_key'')) (\<lambda>key.
      Option.bind (read_or (ad_ipinfo_token d) (read_option read_secret) (m ''ipinfo_token'')) (\<lambda>token.
      Option.bind (read_or (ad_max_age_days d) (read_uint u32_max) (m ''max_age_days'')) (\<lambda>max_age.
      Option.bind (read_or (ad_connect_timeout_secs d) (read_uint u64_max) (m ''connect_timeout_secs'')) (\<lambda>connect.
      Option.bind (read_or (ad_read_timeout_secs d) (read_uint u64_max) (m ''read_timeout_secs'')) (\<lambda>read_timeout.
      Option.bind (read_or (ad_verify_content d) read_bool (m ''verify_content'')) (\<lambda>verify.
      Option.bind (read_or (ad_min_size_percent d) (read_uint u8_max) (m ''min_size_percent'')) (\<lambda>percent.
      Option.bind (read_or (ad_age_from_source d) read_bool (m ''age_from_source'')) (\<lambda>from_source.
      Option.bind (read_or (ad_resident_max_bytes d) (read_uint u64_max) (m ''resident_max_bytes'')) (\<lambda>resident.
        Some \<lparr> ad_enabled = enabled, ad_data_dir = data_dir, ad_maxmind_account_id = account,
               ad_maxmind_license_key = key, ad_ipinfo_token = token, ad_max_age_days = max_age,
               ad_connect_timeout_secs = connect, ad_read_timeout_secs = read_timeout,
               ad_verify_content = verify, ad_min_size_percent = percent, ad_age_from_source = from_source,
               ad_resident_max_bytes = resident \<rparr>))))))))))))))"

definition GEOIP_CONFIG_KEYS :: "str list" where
  "GEOIP_CONFIG_KEYS = [''enabled'', ''provider'', ''city_db_path'', ''asn_db_path'', ''auto_download'']"

definition serialize_config :: "geoip_config \<Rightarrow> wire" where
  "serialize_config c =
     WMap [(''enabled'', WBool (gc_enabled c)), (''provider'', serialize_selection (gc_provider c)),
           (''city_db_path'', write_option WStr (gc_city_db_path c)),
           (''asn_db_path'', write_option WStr (gc_asn_db_path c)),
           (''auto_download'', serialize_auto_download (gc_auto_download c))]"

definition deserialize_config :: "wire \<Rightarrow> geoip_config option" where
  "deserialize_config v =
     (let d = geoip_config_default in
      Option.bind (struct_fields GEOIP_CONFIG_KEYS v) (\<lambda>m.
      Option.bind (read_or (gc_enabled d) read_bool (m ''enabled'')) (\<lambda>enabled.
      Option.bind (read_or (gc_provider d) deserialize_selection (m ''provider'')) (\<lambda>provider.
      Option.bind (read_or (gc_city_db_path d) (read_option read_text) (m ''city_db_path'')) (\<lambda>city.
      Option.bind (read_or (gc_asn_db_path d) (read_option read_text) (m ''asn_db_path'')) (\<lambda>asn.
      Option.bind (read_or (gc_auto_download d) deserialize_auto_download (m ''auto_download'')) (\<lambda>auto.
        Some \<lparr> gc_enabled = enabled, gc_provider = provider, gc_city_db_path = city, gc_asn_db_path = asn,
               gc_auto_download = auto, gc_http_client = None \<rparr>)))))))"

section \<open>Table sources\<close>

text \<open>A unit variant is its name; a newtype variant is a map of its name to what it holds.\<close>

definition read_archive :: "wire \<Rightarrow> source_archive option" where
  "read_archive v = Option.bind (unit_name v)
     (\<lambda>s. if s = ''raw'' then Some Raw else if s = ''gzip'' then Some Gzip else None)"

fun write_archive :: "source_archive \<Rightarrow> wire" where
  "write_archive Raw = WStr ''raw''"
| "write_archive Gzip = WStr ''gzip''"

fun read_schema :: "wire \<Rightarrow> schema option" where
  "read_schema (WMap [(k, WSeq ws)]) = (if k = ''named'' then map_option Named (read_list read_text ws) else None)"
| "read_schema v = Option.bind (unit_name v) (\<lambda>s. if s = ''auto'' then Some Auto else None)"

fun write_schema :: "schema \<Rightarrow> wire" where
  "write_schema Auto = WStr ''auto''"
| "write_schema (Named names) = WMap [(''named'', WSeq (map WStr names))]"

fun read_index :: "wire \<Rightarrow> index option" where
  "read_index (WMap [(k, WStr name)]) = (if k = ''column'' then Some (Column name) else None)"
| "read_index v = Option.bind (unit_name v) (\<lambda>s. if s = ''ip'' then Some Ip else if s = ''prefix'' then Some Prefix else None)"

fun write_index :: "index \<Rightarrow> wire" where
  "write_index Ip = WStr ''ip''"
| "write_index Prefix = WStr ''prefix''"
| "write_index (Column name) = WMap [(''column'', WStr name)]"

text \<open>\<open>FormatWire\<close>, untagged: a bare tag first, then a tag with options.\<close>

definition read_bare_format :: "wire \<Rightarrow> bare_format option" where
  "read_bare_format v = Option.bind (unit_name v)
     (\<lambda>s. if s = ''csv'' then Some BareCsv else if s = ''json'' then Some BareJson else None)"

fun read_full_format :: "wire \<Rightarrow> full_format option" where
  "read_full_format (WMap [(k, v)]) =
     (if k = ''csv''
      then Option.bind (struct_fields [''header''] v) (\<lambda>m.
             map_option (\<lambda>header. FullCsv (CsvOptions header)) (read_or header_default read_bool (m ''header'')))
      else None)"
| "read_full_format _ = None"

definition read_format_wire :: "wire \<Rightarrow> format_wire option" where
  "read_format_wire v =
     (case read_bare_format v of
        Some f \<Rightarrow> Some (Bare f)
      | None \<Rightarrow> map_option Full (read_full_format v))"

fun write_format_wire :: "format_wire \<Rightarrow> wire" where
  "write_format_wire (Bare BareCsv) = WStr ''csv''"
| "write_format_wire (Bare BareJson) = WStr ''json''"
| "write_format_wire (Full (FullCsv (CsvOptions header))) = WMap [(''csv'', WMap [(''header'', WBool header)])]"

definition TABLE_SOURCE_KEYS :: "str list" where
  "TABLE_SOURCE_KEYS =
     [''url'', ''checksum_url'', ''archive'', ''file'', ''format'', ''schema'', ''index'']"

definition serialize_source :: "table_source \<Rightarrow> wire" where
  "serialize_source s =
     WMap [(''url'', WStr (src_url s)), (''checksum_url'', write_option WStr (src_checksum_url s)),
           (''archive'', write_archive (src_archive s)), (''file'', WStr (src_file s)),
           (''format'', write_format_wire (serialize_format (src_format s))),
           (''schema'', write_schema (src_schema s)), (''index'', write_index (src_index s))]"

definition deserialize_source :: "wire \<Rightarrow> table_source option" where
  "deserialize_source v =
     Option.bind (struct_fields TABLE_SOURCE_KEYS v) (\<lambda>m.
     Option.bind (Option.bind (m ''url'') read_text) (\<lambda>url.
     Option.bind (read_or None (read_option read_text) (m ''checksum_url'')) (\<lambda>checksum_url.
     Option.bind (read_or Raw read_archive (m ''archive'')) (\<lambda>archive.
     Option.bind (Option.bind (m ''file'') read_text) (\<lambda>file.
     Option.bind (Option.bind (m ''format'') read_format_wire) (\<lambda>fmt.
     Option.bind (read_or Auto read_schema (m ''schema'')) (\<lambda>sch.
     Option.bind (Option.bind (m ''index'') read_index) (\<lambda>ix.
       Some \<lparr> src_url = url, src_checksum_url = checksum_url, src_archive = archive, src_file = file,
              src_format = deserialize_format fmt, src_schema = sch, src_index = ix,
              src_http_client = None \<rparr>))))))))"

section \<open>What is written is read back\<close>

text \<open>The settings within the widths the program holds them in.\<close>

definition fits_widths :: "auto_download \<Rightarrow> bool" where
  "fits_widths a \<longleftrightarrow>
     ad_max_age_days a \<le> u32_max \<and> ad_connect_timeout_secs a \<le> u64_max \<and> ad_read_timeout_secs a \<le> u64_max
     \<and> ad_min_size_percent a \<le> u8_max \<and> ad_resident_max_bytes a \<le> u64_max"

definition redacted :: "secret option \<Rightarrow> secret option" where
  "redacted = map_option (\<lambda>_. Secret REDACTED_SECRET)"

definition redacted_settings :: "auto_download \<Rightarrow> auto_download" where
  "redacted_settings a =
     a\<lparr> ad_maxmind_account_id := redacted (ad_maxmind_account_id a),
        ad_maxmind_license_key := redacted (ad_maxmind_license_key a),
        ad_ipinfo_token := redacted (ad_ipinfo_token a) \<rparr>"

definition redacted_config :: "geoip_config \<Rightarrow> geoip_config" where
  "redacted_config c =
     c\<lparr> gc_auto_download := redacted_settings (gc_auto_download c), gc_http_client := None \<rparr>"

lemma written_secret_read [simp]: "read_option read_secret (write_option write_secret v) = Some (redacted v)"
  by (cases v) (simp_all add: read_option_def write_option_def write_secret_def read_secret_def redacted_def
      secret_serialize_def)

lemma written_secret_redacted [simp]: "write_option write_secret (redacted v) = write_option write_secret v"
  by (cases v) (simp_all add: redacted_def write_option_def write_secret_def secret_serialize_def)

lemma written_text_read [simp]: "read_option read_text (write_option WStr v) = Some v"
  by (cases v) (simp_all add: read_option_def write_option_def)

lemma auto_download_roundtrip [simp]:
  assumes "fits_widths a"
  shows "deserialize_auto_download (serialize_auto_download a) = Some (redacted_settings a)"
proof -
  have "known_keys AUTO_DOWNLOAD_KEYS
    [(''enabled'', v1), (''data_dir'', v2), (''maxmind_account_id'', v3), (''maxmind_license_key'', v4),
     (''ipinfo_token'', v5), (''max_age_days'', v6), (''connect_timeout_secs'', v7), (''read_timeout_secs'', v8),
     (''verify_content'', v9), (''min_size_percent'', v10), (''age_from_source'', v11), (''resident_max_bytes'', v12)]"
    for v1 v2 v3 v4 v5 v6 v7 v8 v9 v10 v11 v12
    by (simp add: known_keys_def AUTO_DOWNLOAD_KEYS_def)
  with assms show ?thesis
    by (cases a) (simp add: deserialize_auto_download_def serialize_auto_download_def Let_def fits_widths_def
        redacted_settings_def del: read_uint.simps)
qed

lemma auto_download_unrevealing: "serialize_auto_download (redacted_settings a) = serialize_auto_download a"
  by (simp add: serialize_auto_download_def redacted_settings_def)

lemma config_roundtrip:
  assumes "fits_widths (gc_auto_download c)"
  shows "deserialize_config (serialize_config c) = Some (redacted_config c)"
proof -
  have "known_keys GEOIP_CONFIG_KEYS
    [(''enabled'', v1), (''provider'', v2), (''city_db_path'', v3), (''asn_db_path'', v4), (''auto_download'', v5)]"
    for v1 v2 v3 v4 v5
    by (simp add: known_keys_def GEOIP_CONFIG_KEYS_def)
  with assms show ?thesis
    by (cases c) (simp add: deserialize_config_def serialize_config_def Let_def redacted_config_def)
qed

lemma config_unrevealing: "serialize_config (redacted_config c) = serialize_config c"
  by (simp add: serialize_config_def redacted_config_def auto_download_unrevealing)

text \<open>C24: a configuration written out is read back as it was, but for its credentials, which come back as
  the redaction, and the HTTP client; one with no credential compares equal to what it was. What is
  written is the same for any two configurations that differ in credentials and client alone.\<close>

theorem config_reads_back_without_secrets:
  "(fits_widths (gc_auto_download c) \<longrightarrow>
      deserialize_config (serialize_config c) = Some (redacted_config c)
      \<and> (redacted_settings (gc_auto_download c) = gc_auto_download c \<longrightarrow> geoip_config_eq (redacted_config c) c))
   \<and> (redacted_config c = redacted_config c' \<longrightarrow> serialize_config c = serialize_config c')"
  using config_roundtrip [of c] config_unrevealing [of c] config_unrevealing [of c']
  by (auto simp: geoip_config_eq_def redacted_config_def)

definition paid_config :: geoip_config where
  "paid_config = config_with_http_client
     (geoip_config_default\<lparr> gc_auto_download :=
        auto_download_default\<lparr> ad_maxmind_account_id := Some (Secret ''42''),
                               ad_maxmind_license_key := Some (Secret ''licence-abcd'') \<rparr> \<rparr>) 7"

theorem config_reads_back_without_secrets_witness:
  "deserialize_config (serialize_config paid_config) = Some (redacted_config paid_config)
   \<and> gc_http_client (redacted_config paid_config) = None"
proof -
  have "fits_widths (gc_auto_download paid_config)"
    by (simp add: fits_widths_def paid_config_def config_with_http_client_def auto_download_default_def
        DEFAULT_RESIDENT_MAX_BYTES_def u64_max_def u32_max_def u8_max_def)
  with config_reads_back_without_secrets [of paid_config paid_config] show ?thesis
    by (simp add: redacted_config_def)
qed

text \<open>An empty configuration is the default one, and a key no field has is refused.\<close>

lemma empty_config_is_default: "deserialize_config (WMap []) = Some geoip_config_default"
  by (simp add: deserialize_config_def known_keys_def Let_def geoip_config_default_def)

lemma unknown_config_key_refused:
  "k \<in> set (map fst m) \<Longrightarrow> k \<notin> set GEOIP_CONFIG_KEYS \<Longrightarrow> deserialize_config (WMap m) = None"
  by (auto simp: deserialize_config_def known_keys_def)

lemma archive_roundtrip [simp]: "read_archive (write_archive a) = Some a"
  by (cases a) (simp_all add: read_archive_def)

lemma schema_roundtrip [simp]: "read_schema (write_schema sch) = Some sch"
  by (cases sch) simp_all

lemma index_roundtrip [simp]: "read_index (write_index ix) = Some ix"
  by (cases ix) simp_all

lemma format_wire_roundtrip [simp]: "read_format_wire (write_format_wire v) = Some v"
  by (cases v rule: write_format_wire.cases)
    (simp_all add: read_format_wire_def read_bare_format_def known_keys_def)

text \<open>A table source written out is read back as it was but for its HTTP client, whatever its format,
  schema, index and archive, so a reload that compares the two sees no change.\<close>

theorem source_reads_back:
  "\<exists>s'. deserialize_source (serialize_source s) = Some s' \<and> table_source_eq s' s \<and> src_http_client s' = None"
proof -
  have "known_keys TABLE_SOURCE_KEYS
    [(''url'', v1), (''checksum_url'', v2), (''archive'', v3), (''file'', v4), (''format'', v5), (''schema'', v6), (''index'', v7)]"
    for v1 v2 v3 v4 v5 v6 v7
    by (simp add: known_keys_def TABLE_SOURCE_KEYS_def)
  then show ?thesis
    by (simp add: deserialize_source_def serialize_source_def table_source_eq_def format_roundtrip)
qed

end
