(* ===== verification/Transfer_Steps.thy ===== *)
theory Transfer_Steps
  imports Fetch
begin

text \<open>
  One transfer in steps: \<open>Transfer::fetch\<close> of \<open>src/geoip/download/fetch.rs\<close> cut at its awaits and at
  the file operations of its blocking step, with what a cancelled caller and a dying process leave
  behind. The lemmas show that the steps of one transfer alone are \<open>fetch_transfer\<close> of theory \<open>Fetch\<close>
  and that they come to an end from wherever they are. Theory \<open>Transfer_Lock\<close> puts transfers side by
  side.
\<close>

section \<open>A transfer in steps\<close>

text \<open>One transfer: the file system faults it meets, the server it talks to, what it fetches, its guard.\<close>

record job =
  jb_faults :: io_faults
  jb_server :: server
  jb_transfer :: transfer
  jb_guard :: guard

definition jb_dest :: "job \<Rightarrow> str" where "jb_dest j = tr_dest (jb_transfer j)"
definition jb_part :: "job \<Rightarrow> str" where "jb_part j = with_extension (jb_dest j) PART_EXT"
definition jb_staged :: "job \<Rightarrow> str" where "jb_staged j = with_extension (jb_dest j) STAGE_EXT"
definition jb_lock :: "job \<Rightarrow> str" where "jb_lock j = with_extension (jb_dest j) LOCK_EXT"

text \<open>A body arriving: whether it is the fallback's, the length declared, what came so far, and the rest.\<close>

record receipt =
  rc_fallback :: bool
  rc_expected :: "nat option"
  rc_written :: nat
  rc_writer :: part_writer
  rc_chunks :: "(str, str) result list"

text \<open>
  Where a transfer is. \<open>Looking\<close> and \<open>Asking\<close> say whether the fallback is asked; \<open>Landing\<close> is a
  transfer whose caller is gone, or has its error, with a write still in flight: the batch, whether
  the part file it goes to still has its name, and the error.
\<close>

datatype phase =
    Starting
  | Looking bool
  | Asking bool nat
  | Receiving receipt
  | Digesting
  | Staging
  | StagedUnchecked
  | Checked
  | Clearing "(download_error, str) result"
  | Discarding download_error
  | Landing str bool "download_error option"
  | Done "(download_error, str) result"
  | Gone

text \<open>Whether a transfer, or a step it left on the blocking pool, has something left to do.\<close>

fun under_way :: "phase \<Rightarrow> bool" where
  "under_way Starting = False"
| "under_way (Done _) = False"
| "under_way Gone = False"
| "under_way _ = True"

definition start_transfer :: "lock_reply \<Rightarrow> job \<Rightarrow> world \<Rightarrow> phase \<times> world" where
  "start_transfer reply j w =
     (case (jb_faults j (CreateDir (jb_dest j)), jb_faults j (OpenLock (jb_lock j))) of
        (Some e, _) \<Rightarrow> (Done (Inl (Io e)), w)
      | (None, Some e) \<Rightarrow> (Done (Inl (Io e)), w)
      | (None, None) \<Rightarrow>
          (if reply = WouldBlock then Done (Inl (Busy (jb_dest j))) else Looking False, open_lock w (jb_lock j)))"

definition asked_url :: "job \<Rightarrow> bool \<Rightarrow> str" where
  "asked_url j fb =
     (case tr_fallback_url (jb_transfer j) of
        Some url \<Rightarrow> if fb then url else tr_url (jb_transfer j) | None \<Rightarrow> tr_url (jb_transfer j))"

text \<open>What a stream that ended comes to: asked again whole, asked of the fallback, given up, or complete.\<close>

definition stream_over ::
    "job \<Rightarrow> bool \<Rightarrow> nat \<Rightarrow> (download_error, nat) result \<Rightarrow> world \<Rightarrow> phase \<times> world" where
  "stream_over j fb resume_from r w =
     (if has_status 416 r \<and> 0 < resume_from then (Asking fb 0, try_remove (jb_faults j) w (jb_part j))
      else if \<not> fb \<and> tr_fallback_url (jb_transfer j) \<noteq> None \<and> has_status 404 r
      then (Looking True, try_remove (jb_faults j) w (jb_part j))
      else case r of
        Inl e \<Rightarrow> (Done (Inl e), drop_empty_part (jb_faults j) w (jb_part j))
      | Inr _ \<Rightarrow> (Digesting, w))"

definition look_step :: "job \<Rightarrow> bool \<Rightarrow> world \<Rightarrow> phase \<times> world" where
  "look_step j fb w =
     (let (offset, w') = resumable_offset (jb_faults j) w (jb_part j); t = jb_transfer j
      in (Asking fb (if resume_is_checkable (tr_archive t) (tr_checksum_url t \<noteq> None) then offset else 0), w'))"

text \<open>The reply to a request, up to the part file opened for its body.\<close>

definition ask_step ::
    "('p, 'm, 'b) platform \<Rightarrow> job \<Rightarrow> nat \<Rightarrow> bool \<Rightarrow> nat \<Rightarrow> world \<Rightarrow> phase \<times> world" where
  "ask_step E j limit fb resume_from w =
     (let t = jb_transfer j; F = jb_faults j; part = jb_part j; url = asked_url j fb in
      case jb_server j \<lparr> rq_url = url, rq_credential = tr_credential t,
                         rq_range = (if 0 < resume_from then Some resume_from else None) \<rparr> of
        Inl e \<Rightarrow> stream_over j fb resume_from (Inl (Http e)) w
      | Inr rs \<Rightarrow>
          if \<not> is_success (rs_status rs)
          then stream_over j fb resume_from
                 (Inl (refused_status E url (rs_status rs) (rs_retry_after rs) (tr_credential t))) w
          else
            let resuming = (0 < resume_from \<and> rs_status rs = 206);
                carried = (if resuming then resume_from else 0);
                expected = map_option (\<lambda>len. sat_add len carried) (rs_content_length rs)
            in if \<exists>n \<in> set_option expected. limit < n
               then stream_over j fb resume_from (Inl (TooLarge (loggable E url) limit)) (try_remove F w part)
               else case open_part F w part resuming of
                 Inl e \<Rightarrow> stream_over j fb resume_from (Inl (Io e)) w
               | Inr w' \<Rightarrow>
                   (Receiving \<lparr> rc_fallback = fb, rc_expected = expected, rc_written = carried,
                                rc_writer = writer_new, rc_chunks = rs_body rs \<rparr>, w'))"

text \<open>The writer settled after the body ended: the length declared has to be the one that came.\<close>

definition body_over ::
    "('p, 'm, 'b) platform \<Rightarrow> job \<Rightarrow> bool \<Rightarrow> nat option \<Rightarrow> nat \<Rightarrow> (download_error, nat) result" where
  "body_over E j fb expected written =
     (case expected of
        Some n \<Rightarrow> if written \<noteq> n then Inl (Truncated (loggable E (asked_url j fb)) n written) else Inr written
      | None \<Rightarrow> Inr written)"

text \<open>\<open>PartWriter::finish\<close>: what is gathered goes to the pool, then the last write is waited for.\<close>

definition finish_step ::
    "job \<Rightarrow> receipt \<Rightarrow> (download_error, nat) result \<Rightarrow> (str \<Rightarrow> download_error) \<Rightarrow> world \<Rightarrow> phase \<times> world" where
  "finish_step j rc r failed w =
     (let F = jb_faults j; part = jb_part j; pw = rc_writer rc; over = stream_over j (rc_fallback rc) 0 in
      if pw_gathered pw \<noteq> []
      then case send_batch F w part pw of
             Inl e \<Rightarrow> over (Inl (failed e)) (try_remove F w part)
           | Inr (w', pw') \<Rightarrow> (Receiving (rc\<lparr> rc_writer := pw' \<rparr>), w')
      else case settle F w part pw of
             Inl e \<Rightarrow> over (Inl (failed e)) (try_remove F w part)
           | Inr (w', pw') \<Rightarrow> over r w')"

text \<open>
  The next piece of a body. Past the ceiling the writer is dropped and the part file removed, with a
  write perhaps still in flight: it goes to a file that has no name any more, unless the removal failed.
\<close>

definition receive_step ::
    "('p, 'm, 'b) platform \<Rightarrow> job \<Rightarrow> nat \<Rightarrow> receipt \<Rightarrow> world \<Rightarrow> phase \<times> world" where
  "receive_step E j limit rc w =
     (let F = jb_faults j; part = jb_part j; pw = rc_writer rc; over = stream_over j (rc_fallback rc) 0 in
      case rc_chunks rc of
        [] \<Rightarrow> finish_step j rc (body_over E j (rc_fallback rc) (rc_expected rc) (rc_written rc)) Io w
      | Inl e # _ \<Rightarrow> finish_step j rc (Inl (Http e)) (\<lambda>_. Http e) w
      | Inr chunk # rest \<Rightarrow>
          if limit < sat_add (rc_written rc) (length chunk)
          then let e = TooLarge (loggable E (asked_url j (rc_fallback rc))) limit in
               case pw_pending pw of
                 None \<Rightarrow> over (Inl e) (try_remove F w part)
               | Some batch \<Rightarrow> (Landing batch (F (Remove part) \<noteq> None) (Some e), try_remove F w part)
          else case writer_write F w part pw chunk of
            Inl e \<Rightarrow> over (Inl (Io e)) (try_remove F w part)
          | Inr (w', pw') \<Rightarrow>
              (Receiving (rc\<lparr> rc_writer := pw', rc_written := rc_written rc + length chunk, rc_chunks := rest \<rparr>), w'))"

text \<open>A write in flight lands: appended where the part file still has its name, if it can be.\<close>

definition land_batch :: "job \<Rightarrow> str \<Rightarrow> bool \<Rightarrow> world \<Rightarrow> world" where
  "land_batch j batch named w =
     (if named \<and> jb_faults j (WriteFile (jb_part j)) = None then append_file w (jb_part j) batch else w)"

fun advance :: "('p, 'm, 'b) platform \<Rightarrow> job \<Rightarrow> nat \<Rightarrow> phase \<Rightarrow> world \<Rightarrow> phase \<times> world" where
  "advance E j limit (Looking fb) w = look_step j fb w"
| "advance E j limit (Asking fb resume_from) w = ask_step E j limit fb resume_from w"
| "advance E j limit (Receiving rc) w = receive_step E j limit rc w"
| "advance E j limit Digesting w =
     (case check_digest E (jb_faults j) (jb_server j) (jb_transfer j) (jb_part j) w of
        (Inl e, w') \<Rightarrow> (Done (Inl e), w')
      | (Inr _, w') \<Rightarrow> (Staging, w'))"
| "advance E j limit Staging w =
     (case stage_archive E (jb_faults j) w (jb_part j) (jb_staged j) (jb_dest j) (tr_archive (jb_transfer j)) of
        (Inl e, w') \<Rightarrow> (Clearing (Inl e), w')
      | (Inr _, w') \<Rightarrow> (StagedUnchecked, w'))"
| "advance E j limit StagedUnchecked w =
     (case check_staged E (jb_faults j) w (jb_staged j) (jb_dest j) (tr_format (jb_transfer j)) (jb_guard j) of
        Inl e \<Rightarrow> (Clearing (Inl e), w)
      | Inr _ \<Rightarrow> (Checked, w))"
| "advance E j limit Checked w =
     (case jb_faults j (Rename (jb_staged j) (jb_dest j)) of
        Some e \<Rightarrow> (Clearing (Inl (Io e)), w)
      | None \<Rightarrow> (Clearing (Inr (jb_dest j)), rename_file w (jb_staged j) (jb_dest j)))"
| "advance E j limit (Clearing r) w =
     (case r of
        Inl e \<Rightarrow> (Discarding e, try_remove (jb_faults j) w (jb_part j))
      | Inr p \<Rightarrow> (Done (Inr p), try_remove (jb_faults j) w (jb_part j)))"
| "advance E j limit (Discarding e) w = (Done (Inl e), try_remove (jb_faults j) w (jb_staged j))"
| "advance E j limit (Landing batch named e) w =
     ((case e of Some err \<Rightarrow> Done (Inl err) | None \<Rightarrow> Gone), land_batch j batch named w)"
| "advance E j limit Starting w = (Starting, w)"
| "advance E j limit (Done r) w = (Done r, w)"
| "advance E j limit Gone w = (Gone, w)"

text \<open>The write in flight of a body still arriving lands before anyone waits for it.\<close>

fun land_early :: "job \<Rightarrow> phase \<Rightarrow> world \<Rightarrow> phase \<times> world" where
  "land_early j (Receiving rc) w =
     (case settle (jb_faults j) w (jb_part j) (rc_writer rc) of
        Inl e \<Rightarrow> (Receiving rc, w)
      | Inr (w', pw') \<Rightarrow> (Receiving (rc\<lparr> rc_writer := pw' \<rparr>), w'))"
| "land_early j ph w = (ph, w)"

text \<open>A caller dropped at an await. The blocking step is not dropped with it, nor is a write in flight.\<close>

fun cancel :: "phase \<Rightarrow> phase" where
  "cancel (Asking fb resume_from) = Gone"
| "cancel (Receiving rc) =
     (case pw_pending (rc_writer rc) of None \<Rightarrow> Gone | Some batch \<Rightarrow> Landing batch True None)"
| "cancel Digesting = Gone"
| "cancel ph = ph"

text \<open>A process that dies leaves the write or the decoding it was at after any number of bytes.\<close>

definition torn_stage :: "('p, 'm, 'b) platform \<Rightarrow> job \<Rightarrow> nat \<Rightarrow> world \<Rightarrow> world" where
  "torn_stage E j n w =
     (let bs = file_text w (jb_part j);
          torn = (case tr_archive (jb_transfer j) of
              RawBody \<Rightarrow> None
            | GzipBody \<Rightarrow> Some (pf_gunzip E bs)
            | TarGz member \<Rightarrow> (case pf_untar E bs of Inl _ \<Rightarrow> None | Inr es \<Rightarrow> tar_member es member))
      in case torn of None \<Rightarrow> w | Some d \<Rightarrow> put_file w (jb_staged j) (take n (fst d)))"

fun crash :: "('p, 'm, 'b) platform \<Rightarrow> job \<Rightarrow> nat \<Rightarrow> phase \<Rightarrow> world \<Rightarrow> world" where
  "crash E j n (Receiving rc) w =
     (case pw_pending (rc_writer rc) of None \<Rightarrow> w | Some batch \<Rightarrow> land_batch j (take n batch) True w)"
| "crash E j n (Landing batch named e) w = land_batch j (take n batch) named w"
| "crash E j n Staging w = torn_stage E j n w"
| "crash E j n ph w = w"

section \<open>One transfer alone\<close>

primrec advance_many ::
    "('p, 'm, 'b) platform \<Rightarrow> job \<Rightarrow> nat \<Rightarrow> nat \<Rightarrow> phase \<times> world \<Rightarrow> phase \<times> world" where
  "advance_many E j limit 0 pw = pw"
| "advance_many E j limit (Suc n) pw = advance_many E j limit n (advance E j limit (fst pw) (snd pw))"

definition leads_to :: "('p, 'm, 'b) platform \<Rightarrow> job \<Rightarrow> nat \<Rightarrow> phase \<times> world \<Rightarrow> phase \<times> world \<Rightarrow> bool" where
  "leads_to E j limit pw pw' \<longleftrightarrow> (\<exists>n. advance_many E j limit n pw = pw')"

lemma advance_many_add:
  "advance_many E j limit (m + n) pw = advance_many E j limit n (advance_many E j limit m pw)"
  by (induction m arbitrary: pw) simp_all

lemma leads_to_refl [simp]: "leads_to E j limit pw pw"
  unfolding leads_to_def by (rule exI [of _ 0]) simp

lemma leads_to_trans [trans]:
  "leads_to E j limit pw pw' \<Longrightarrow> leads_to E j limit pw' pw'' \<Longrightarrow> leads_to E j limit pw pw''"
  unfolding leads_to_def by (metis advance_many_add)

lemma leads_to_step: "leads_to E j limit (advance E j limit ph w) pw' \<Longrightarrow> leads_to E j limit (ph, w) pw'"
  unfolding leads_to_def by (metis advance_many.simps(2) fst_conv snd_conv)

lemma writer_finish_unrolled:
  "writer_finish F w part pw =
     (if pw_gathered pw \<noteq> [] then and_then (send_batch F w part pw) (\<lambda>(w', pw'). writer_finish F w' part pw')
      else and_then (settle F w part pw) (\<lambda>(w', _). Inr w'))"
  by (auto simp: writer_finish_def send_batch_def settle_def split: sum.split option.split)

lemma no_status [simp]:
  "\<not> has_status n (Inl (Io e))" "\<not> has_status n (Inl (Http e))" "\<not> has_status n (Inl (TooLarge u l))"
  "\<not> has_status n (Inl (Truncated u a b))" "\<not> has_status n (Inr x)"
  by simp_all

lemma stream_over_resume: "\<not> (has_status 416 r \<and> 0 < n) \<Longrightarrow> stream_over j fb n r w = stream_over j fb 0 r w"
  by (auto simp: stream_over_def)

lemma unlanded_write:
  "send_batch F w part pw = Inr (w1, pw1) \<Longrightarrow> settle F w1 part pw1 = Inl e \<Longrightarrow> w1 = w"
  by (auto simp: send_batch_def settle_def split: option.splits)

text \<open>The end of a stream, whether it failed or its body came to an end.\<close>

lemma finish_leads:
  assumes run: "\<And>pw. advance E j limit (Receiving (rc\<lparr> rc_writer := pw \<rparr>)) = finish_step j (rc\<lparr> rc_writer := pw \<rparr>) r failed"
  shows "leads_to E j limit (Receiving rc, w)
    (case writer_finish (jb_faults j) w (jb_part j) (rc_writer rc) of
       Inl e \<Rightarrow> stream_over j (rc_fallback rc) 0 (Inl (failed e)) (try_remove (jb_faults j) w (jb_part j))
     | Inr w' \<Rightarrow> stream_over j (rc_fallback rc) 0 r w')"
proof -
  let ?F = "jb_faults j" and ?part = "jb_part j"
  have settled: "leads_to E j limit (Receiving (rc\<lparr> rc_writer := pw \<rparr>), w)
    (case writer_finish ?F w ?part pw of
       Inl e \<Rightarrow> stream_over j (rc_fallback rc) 0 (Inl (failed e)) (try_remove ?F w ?part)
     | Inr w' \<Rightarrow> stream_over j (rc_fallback rc) 0 r w')" if "pw_gathered pw = []" for pw w
    using that
    by (intro leads_to_step) (simp add: run finish_step_def Let_def writer_finish_unrolled split: sum.split)
  show ?thesis
  proof (cases "pw_gathered (rc_writer rc) = []")
    case True
    then show ?thesis using settled [of "rc_writer rc" w] by simp
  next
    case False
    have here: "advance E j limit (Receiving rc) = finish_step j rc r failed" using run [of "rc_writer rc"] by simp
    show ?thesis
    proof (cases "send_batch ?F w ?part (rc_writer rc)")
      case (Inl e)
      with False here show ?thesis
        by (intro leads_to_step) (simp add: finish_step_def Let_def writer_finish_unrolled)
    next
      case (Inr a)
      obtain w1 pw1 where a: "a = (w1, pw1)" by fastforce
      with False here Inr have step: "advance E j limit (Receiving rc) w = (Receiving (rc\<lparr> rc_writer := pw1 \<rparr>), w1)"
        by (simp add: finish_step_def Let_def)
      have "pw_gathered pw1 = []" using send_batch_ok [OF Inr [unfolded a]] by simp
      from settled [OF this, of w1]
      have "leads_to E j limit (advance E j limit (Receiving rc) w)
        (case writer_finish ?F w1 ?part pw1 of
           Inl e \<Rightarrow> stream_over j (rc_fallback rc) 0 (Inl (failed e)) (try_remove ?F w1 ?part)
         | Inr w' \<Rightarrow> stream_over j (rc_fallback rc) 0 r w')" by (simp only: step)
      moreover have "writer_finish ?F w ?part (rc_writer rc) = writer_finish ?F w1 ?part pw1"
        using False Inr a by (simp add: writer_finish_unrolled [of ?F w])
      moreover have "w1 = w" if "writer_finish ?F w1 ?part pw1 = Inl e" for e
        using that \<open>pw_gathered pw1 = []\<close> by (auto intro: unlanded_write [OF Inr [unfolded a]] simp: writer_finish_unrolled and_then_Inl_iff)
      ultimately show ?thesis
        by (intro leads_to_step) (auto split: sum.splits)
    qed
  qed
qed

text \<open>A body past the ceiling: the write in flight lands before or after the removal, to the same end.\<close>

lemma too_large_leads:
  fixes e :: download_error
  assumes "pw_pending pw = Some batch"
  shows "leads_to E j limit (Landing batch (jb_faults j (Remove (jb_part j)) \<noteq> None) (Some e), try_remove (jb_faults j) w (jb_part j))
    (Done (Inl e), drop_empty_part (jb_faults j)
       (try_remove (jb_faults j) (drop_writer (jb_faults j) w (jb_part j) pw) (jb_part j)) (jb_part j))"
  using assms
  by (intro leads_to_step)
    (auto simp: land_batch_def drop_writer_def settle_def drop_empty_part_def try_remove_def file_length_def
      append_file_def put_file_def remove_file_def split: sum.split option.split)

definition body_result ::
    "('p, 'm, 'b) platform \<Rightarrow> job \<Rightarrow> receipt \<Rightarrow> (download_error, nat) result \<Rightarrow> (download_error, nat) result" where
  "body_result E j rc r = and_then r (body_over E j (rc_fallback rc) (rc_expected rc))"

lemma receiving_leads:
  assumes "stream_body E (jb_faults j) (asked_url j (rc_fallback rc)) (jb_part j) limit w (rc_writer rc) (rc_written rc)
      (rc_chunks rc) = (r, w')"
  shows "leads_to E j limit (Receiving rc, w) (stream_over j (rc_fallback rc) 0 (body_result E j rc r) w')"
  using assms
proof (induction "rc_chunks rc" arbitrary: rc w)
  case Nil
  let ?over = "body_over E j (rc_fallback rc) (rc_expected rc) (rc_written rc)"
  have "advance E j limit (Receiving (rc\<lparr> rc_writer := pw \<rparr>)) = finish_step j (rc\<lparr> rc_writer := pw \<rparr>) ?over Io" for pw
    using Nil(1) by (intro ext) (simp add: receive_step_def Let_def)
  from finish_leads [OF this, of w] Nil show ?case
    by (cases "writer_finish (jb_faults j) w (jb_part j) (rc_writer rc)") (auto simp: body_result_def)
next
  case (Cons c cs)
  let ?F = "jb_faults j" and ?part = "jb_part j" and ?pw = "rc_writer rc"
  show ?case
  proof (cases c)
    case (Inl e)
    have "advance E j limit (Receiving (rc\<lparr> rc_writer := pw \<rparr>)) =
        finish_step j (rc\<lparr> rc_writer := pw \<rparr>) (Inl (Http e)) (\<lambda>_. Http e)" for pw
      using Cons(2) Inl by (intro ext) (simp add: receive_step_def Let_def flip: Cons(2))
    from finish_leads [OF this, of w] Cons(3) Inl show ?thesis
      by (cases "writer_finish ?F w ?part ?pw") (auto simp: body_result_def simp flip: Cons(2))
  next
    case (Inr chunk)
    have step: "advance E j limit (Receiving rc) w = receive_step E j limit rc w" by simp
    let ?too_large = "TooLarge (loggable E (asked_url j (rc_fallback rc))) limit"
    show ?thesis
    proof (cases "limit < sat_add (rc_written rc) (length chunk)")
      case True
      with Cons(3) Inr have r: "r = Inl ?too_large" "w' = try_remove ?F (drop_writer ?F w ?part ?pw) ?part"
        by (simp_all flip: Cons(2))
      show ?thesis
      proof (cases "pw_pending ?pw")
        case None
        then have "drop_writer ?F w ?part ?pw = w" by (simp add: drop_writer_def settle_def)
        with True Inr None r show ?thesis
          by (intro leads_to_step) (simp add: receive_step_def Let_def body_result_def flip: Cons(2))
      next
        case (Some batch)
        from too_large_leads [OF this, of E j limit ?too_large w] True Inr Some r show ?thesis
          by (intro leads_to_step) (simp add: receive_step_def Let_def body_result_def stream_over_def flip: Cons(2))
      qed
    next
      case False
      show ?thesis
      proof (cases "writer_write ?F w ?part ?pw chunk")
        case (Inl e)
        with False Inr Cons(3) have "r = Inl (Io e)" "w' = try_remove ?F w ?part" by (auto simp flip: Cons(2))
        with False Inr Inl show ?thesis
          by (intro leads_to_step) (simp add: receive_step_def Let_def body_result_def flip: Cons(2))
      next
        case written: (Inr a)
        obtain w1 pw1 where a: "a = (w1, pw1)" by fastforce
        let ?rc = "rc\<lparr> rc_writer := pw1, rc_written := rc_written rc + length chunk, rc_chunks := cs \<rparr>"
        have "leads_to E j limit (Receiving ?rc, w1) (stream_over j (rc_fallback rc) 0 (body_result E j ?rc r) w')"
          using Cons(1) [of ?rc w1] Cons(3) False Inr written a by (simp flip: Cons(2))
        moreover have "body_result E j ?rc r = body_result E j rc r" by (simp add: body_result_def)
        moreover have "receive_step E j limit rc w = (Receiving ?rc, w1)"
          using False Inr written a by (simp add: receive_step_def Let_def flip: Cons(2))
        ultimately show ?thesis by (intro leads_to_step) simp
      qed
    qed
  qed
qed

lemma stream_from_status:
  "has_status n (body_result E j rc r) \<Longrightarrow> has_status n r"
  by (cases r) (auto simp: body_result_def body_over_def split: option.splits if_splits)

lemma stream_body_status:
  "stream_body E F url part limit w pw written chunks = (r, w') \<Longrightarrow> \<not> has_status n r"
  by (induction E F url part limit w pw written chunks rule: stream_body.induct)
    (auto split: if_splits sum.splits)

lemma asking_leads:
  assumes s: "stream_from E (jb_faults j) (jb_server j) (jb_transfer j) (asked_url j fb) (jb_part j) n limit w = (r, w')"
  shows "leads_to E j limit (Asking fb n, w) (stream_over j fb n r w')"
proof -
  let ?t = "jb_transfer j" and ?F = "jb_faults j" and ?part = "jb_part j" and ?url = "asked_url j fb"
  let ?rq = "\<lparr> rq_url = ?url, rq_credential = tr_credential ?t, rq_range = (if 0 < n then Some n else None) \<rparr>"
  let ?over = "stream_over j fb n"
  show ?thesis
  proof (cases "jb_server j ?rq")
    case (Inl e)
    with s show ?thesis
      by (intro leads_to_step) (auto simp: ask_step_def stream_from_def Let_def)
  next
    case (Inr rs)
    let ?resuming = "0 < n \<and> rs_status rs = 206"
    let ?carried = "if ?resuming then n else 0"
    let ?expected = "map_option (\<lambda>len. sat_add len ?carried) (rs_content_length rs)"
    let ?rc = "\<lparr> rc_fallback = fb, rc_expected = ?expected, rc_written = ?carried, rc_writer = writer_new, rc_chunks = rs_body rs \<rparr>"
    show ?thesis
    proof (cases "\<not> is_success (rs_status rs) \<or> (\<exists>m \<in> set_option ?expected. limit < m)
        \<or> (\<exists>e. open_part ?F w ?part ?resuming = Inl e)")
      case True
      with s Inr show ?thesis
        by (intro leads_to_step) (auto simp: ask_step_def stream_from_def Let_def split: sum.splits)
    next
      case False
      then obtain w1 where w1: "open_part ?F w ?part ?resuming = Inr w1"
        by (cases "open_part ?F w ?part ?resuming") auto
      obtain b w2 where b: "stream_body E ?F ?url ?part limit w1 writer_new ?carried (rs_body rs) = (b, w2)" by fastforce
      have "leads_to E j limit (Receiving ?rc, w1) (stream_over j fb 0 (body_result E j ?rc b) w2)"
        using receiving_leads [of E j ?rc limit w1 b w2] b by simp
      moreover have "body_result E j ?rc b = r \<and> w2 = w'"
        using s False Inr w1 b
        by (auto simp: stream_from_def Let_def body_result_def body_over_def split: sum.splits option.splits if_splits)
      moreover have "\<not> has_status 416 (body_result E j ?rc b)"
        using stream_body_status [OF b] stream_from_status by blast
      moreover have "advance E j limit (Asking fb n) w = (Receiving ?rc, w1)"
        using False Inr w1 by (auto simp: ask_step_def Let_def)
      ultimately show ?thesis
        using stream_over_resume [of r n j fb w'] by (intro leads_to_step) auto
    qed
  qed
qed

lemma looking_leads:
  assumes s: "stream_to E (jb_faults j) (jb_server j) (jb_transfer j) (asked_url j fb) (jb_part j) limit w = (r, w')"
  shows "leads_to E j limit (Looking fb, w) (stream_over j fb 0 r w')"
proof -
  let ?t = "jb_transfer j" and ?F = "jb_faults j" and ?part = "jb_part j" and ?url = "asked_url j fb"
  obtain offset w1 where o: "resumable_offset ?F w ?part = (offset, w1)" by fastforce
  let ?from = "if resume_is_checkable (tr_archive ?t) (tr_checksum_url ?t \<noteq> None) then offset else 0"
  obtain r1 w2 where f: "stream_from E ?F (jb_server j) ?t ?url ?part ?from limit w1 = (r1, w2)" by fastforce
  have "leads_to E j limit (Asking fb ?from, w1) (stream_over j fb ?from r1 w2)" by (rule asking_leads [OF f])
  then have first: "leads_to E j limit (Looking fb, w) (stream_over j fb ?from r1 w2)"
    by (intro leads_to_step) (simp add: look_step_def o Let_def)
  show ?thesis
  proof (cases "has_status 416 r1 \<and> 0 < ?from")
    case True
    with s o f have "stream_from E ?F (jb_server j) ?t ?url ?part 0 limit (try_remove ?F w2 ?part) = (r, w')"
      by (simp add: stream_to_def Let_def split: if_splits)
    from asking_leads [OF this] have "leads_to E j limit (Asking fb 0, try_remove ?F w2 ?part) (stream_over j fb 0 r w')" .
    moreover have "stream_over j fb ?from r1 w2 = (Asking fb 0, try_remove ?F w2 ?part)"
      using True by (simp add: stream_over_def)
    ultimately show ?thesis using first leads_to_trans by metis
  next
    case False
    with s o f have "r = r1" "w' = w2" by (auto simp: stream_to_def Let_def split: if_splits)
    with first stream_over_resume [OF False] show ?thesis by metis
  qed
qed

lemma streaming_leads:
  assumes s: "stream_with_fallback E (jb_faults j) (jb_server j) (jb_transfer j) (jb_part j) limit w = (r, w')"
  shows "leads_to E j limit (Looking False, w)
    (case r of Inl e \<Rightarrow> (Done (Inl e), drop_empty_part (jb_faults j) w' (jb_part j)) | Inr _ \<Rightarrow> (Digesting, w'))"
proof -
  let ?t = "jb_transfer j" and ?F = "jb_faults j" and ?part = "jb_part j"
  obtain p w1 where p: "stream_to E ?F (jb_server j) ?t (tr_url ?t) ?part limit w = (p, w1)" by fastforce
  have primary: "leads_to E j limit (Looking False, w) (stream_over j False 0 p w1)"
    using looking_leads [of E j False] p by (simp add: asked_url_def split: option.split)
  show ?thesis
  proof (cases "\<exists>url. tr_fallback_url ?t = Some url \<and> has_status 404 p")
    case True
    then obtain url where url: "tr_fallback_url ?t = Some url" "has_status 404 p" by blast
    with s p have "stream_to E ?F (jb_server j) ?t (asked_url j True) ?part limit (try_remove ?F w1 ?part) = (r, w')"
      by (simp add: stream_with_fallback_def asked_url_def)
    from looking_leads [OF this]
    have "leads_to E j limit (Looking True, try_remove ?F w1 ?part) (stream_over j True 0 r w')" .
    moreover have "stream_over j False 0 p w1 = (Looking True, try_remove ?F w1 ?part)"
      using url by (simp add: stream_over_def)
    moreover have "stream_over j True 0 r w' =
      (case r of Inl e \<Rightarrow> (Done (Inl e), drop_empty_part ?F w' ?part) | Inr _ \<Rightarrow> (Digesting, w'))"
      by (simp add: stream_over_def split: sum.split)
    ultimately show ?thesis using primary leads_to_trans by metis
  next
    case False
    with s p have "r = p" "w' = w1" by (auto simp: stream_with_fallback_def split: option.splits if_splits)
    moreover have "stream_over j False 0 p w1 =
      (case p of Inl e \<Rightarrow> (Done (Inl e), drop_empty_part ?F w1 ?part) | Inr _ \<Rightarrow> (Digesting, w1))"
      using False by (auto simp: stream_over_def split: sum.split)
    ultimately show ?thesis using primary by (simp only:)
  qed
qed

lemma finishing_leads:
  assumes f: "finish_transfer E (jb_faults j) (jb_transfer j) (jb_guard j) w = (r, w')"
  shows "leads_to E j limit (Staging, w) (Done r, w')"
proof -
  let ?t = "jb_transfer j" and ?F = "jb_faults j" and ?part = "jb_part j" and ?staged = "jb_staged j" and ?dest = "jb_dest j"
  note paths = jb_part_def jb_staged_def jb_dest_def
  obtain x w1 where st: "stage_archive E ?F w ?part ?staged ?dest (tr_archive ?t) = (x, w1)" by fastforce
  have cleared: "leads_to E j limit (Clearing (Inl e), w2) (Done (Inl e), try_remove ?F (try_remove ?F w2 ?part) ?staged)"
    "leads_to E j limit (Clearing (Inr p), w2) (Done (Inr p), try_remove ?F w2 ?part)" for e p w2
    by (rule leads_to_step, simp, (rule leads_to_step, simp)?)+
  show ?thesis
  proof (cases x)
    case (Inl e)
    with f st have "r = Inl e" "w' = try_remove ?F (try_remove ?F w1 ?part) ?staged"
      by (auto simp: finish_transfer_def materialise_guarded_def Let_def paths)
    with Inl st cleared(1) [of e w1] show ?thesis by (intro leads_to_step) simp
  next
    case staged: (Inr u)
    show ?thesis
    proof (cases "check_staged E ?F w1 ?staged ?dest (tr_format ?t) (jb_guard j)")
      case (Inl e)
      with f st staged have "r = Inl e" "w' = try_remove ?F (try_remove ?F w1 ?part) ?staged"
        by (auto simp: finish_transfer_def materialise_guarded_def Let_def paths)
      with Inl st staged cleared(1) [of e w1] show ?thesis by (intro leads_to_step | simp)+
    next
      case checked: (Inr n)
      show ?thesis
      proof (cases "?F (Rename ?staged ?dest)")
        case (Some e)
        with f st staged checked have "r = Inl (Io e)" "w' = try_remove ?F (try_remove ?F w1 ?part) ?staged"
          by (auto simp: finish_transfer_def materialise_guarded_def Let_def paths)
        with Some st staged checked cleared(1) [of "Io e" w1] show ?thesis by (intro leads_to_step | simp)+
      next
        case None
        with f st staged checked have "r = Inr ?dest" "w' = try_remove ?F (rename_file w1 ?staged ?dest) ?part"
          by (auto simp: finish_transfer_def materialise_guarded_def Let_def paths)
        with None st staged checked cleared(2) [of ?dest "rename_file w1 ?staged ?dest"] show ?thesis
          by (intro leads_to_step | simp)+
      qed
    qed
  qed
qed

text \<open>C7: the steps of one transfer, with no other beside it, come to an end, and to the result and the
  files of the transfer modelled in one piece, whatever fails and whatever the server sends.\<close>

theorem steps_alone_are_the_transfer:
  "\<exists>n. advance_many E j limit n (start_transfer reply j w) =
     (let (r, w') = fetch_transfer E (jb_faults j) (jb_server j) reply (jb_transfer j) (jb_guard j) limit w in (Done r, w'))"
proof -
  let ?t = "jb_transfer j" and ?F = "jb_faults j" and ?part = "jb_part j"
  note paths = jb_part_def jb_staged_def jb_dest_def jb_lock_def
  let ?w0 = "open_lock w (jb_lock j)"
  obtain s w1 where s: "stream_with_fallback E ?F (jb_server j) ?t ?part limit ?w0 = (s, w1)" by fastforce
  obtain d w2 where d: "check_digest E ?F (jb_server j) ?t ?part w1 = (d, w2)" by fastforce
  obtain r w3 where f: "finish_transfer E ?F ?t (jb_guard j) w2 = (r, w3)" by fastforce
  let ?final = "let (r, w') = fetch_transfer E ?F (jb_server j) reply ?t (jb_guard j) limit w in (Done r, w')"
  have "leads_to E j limit (start_transfer reply j w) ?final"
  proof (cases "?F (CreateDir (jb_dest j)) = None \<and> ?F (OpenLock (jb_lock j)) = None \<and> reply \<noteq> WouldBlock")
    case False
    then have "start_transfer reply j w = ?final"
      by (auto simp: start_transfer_def fetch_transfer_def Let_def paths split: option.split)
    then show ?thesis by simp
  next
    case True
    then have begun: "start_transfer reply j w = (Looking False, ?w0)" by (simp add: start_transfer_def)
    note streamed = streaming_leads [OF s]
    show ?thesis
    proof (cases s)
      case (Inl e)
      with True s streamed begun show ?thesis by (simp add: fetch_transfer_def Let_def paths)
    next
      case (Inr n)
      have "leads_to E j limit (Digesting, w1) ?final"
        using True s d f Inr finishing_leads [OF f]
        by (intro leads_to_step) (auto simp: fetch_transfer_def Let_def paths split: sum.split)
      with Inr streamed begun show ?thesis by (auto intro: leads_to_trans)
    qed
  qed
  then show ?thesis by (simp add: leads_to_def)
qed

section \<open>A transfer comes to an end\<close>

definition ends :: "('p, 'm, 'b) platform \<Rightarrow> job \<Rightarrow> nat \<Rightarrow> phase \<times> world \<Rightarrow> bool" where
  "ends E j limit pw \<longleftrightarrow> (\<exists>pw'. leads_to E j limit pw pw' \<and> \<not> under_way (fst pw'))"

lemma ends_idle: "\<not> under_way (fst pw) \<Longrightarrow> ends E j limit pw"
  unfolding ends_def by (rule exI [of _ pw]) simp

lemma ends_leads: "leads_to E j limit pw pw' \<Longrightarrow> ends E j limit pw' \<Longrightarrow> ends E j limit pw"
  unfolding ends_def by (blast intro: leads_to_trans)

lemma ends_step: "ends E j limit (advance E j limit ph w) \<Longrightarrow> ends E j limit (ph, w)"
  unfolding ends_def by (blast intro: leads_to_step)

lemma finish_ends: "ends E j limit (Staging, w)"
proof -
  obtain r w' where "finish_transfer E (jb_faults j) (jb_transfer j) (jb_guard j) w = (r, w')" by fastforce
  from finishing_leads [OF this, of limit] show ?thesis by (rule ends_leads) (simp add: ends_idle)
qed

lemma digest_ends: "ends E j limit (Digesting, w)"
  by (rule ends_step) (auto simp: ends_idle finish_ends split: prod.split sum.split)

lemma blocking_ends:
  "ends E j limit (Discarding e, w)" "ends E j limit (Clearing r, w)" "ends E j limit (Checked, w)"
  "ends E j limit (StagedUnchecked, w)" "ends E j limit (Landing b named d, w)"
proof -
  show dis: "ends E j limit (Discarding e, w)" for e w by (rule ends_step) (simp add: ends_idle)
  show clear: "ends E j limit (Clearing r, w)" for r w by (rule ends_step) (simp add: ends_idle dis split: sum.split)
  show chk: "ends E j limit (Checked, w)" for w by (rule ends_step) (simp add: clear split: option.split)
  show "ends E j limit (StagedUnchecked, w)" by (rule ends_step) (simp add: clear chk split: sum.split)
  show "ends E j limit (Landing b named d, w)" by (rule ends_step) (simp add: ends_idle split: option.split)
qed

text \<open>A stream asks at most twice of each URL, so it is over after at most four requests.\<close>

lemma stream_ends:
  "ends E j limit (stream_over j fb n r w)" "ends E j limit (Asking fb n, w)" "ends E j limit (Looking fb, w)"
proof -
  have over: "ends E j limit (stream_over j fb n r w)"
    if "has_status 416 r \<and> 0 < n \<Longrightarrow> ends E j limit (Asking fb 0, try_remove (jb_faults j) w (jb_part j))"
      "\<not> fb \<Longrightarrow> ends E j limit (Looking True, try_remove (jb_faults j) w (jb_part j))" for fb n r w
    using that by (auto simp: stream_over_def ends_idle digest_ends split: sum.split)
  have ask: "ends E j limit (Asking fb n, w)"
    if "\<And>r w'. ends E j limit (stream_over j fb n r w')" for fb n w
    by (rule ends_leads [OF asking_leads]) (use that in \<open>auto simp: prod_eq_iff\<close>)
  have look: "ends E j limit (Looking fb, w)"
    if "\<And>r w'. ends E j limit (stream_over j fb 0 r w')" for fb w
    by (rule ends_leads [OF looking_leads]) (use that in \<open>auto simp: prod_eq_iff\<close>)
  have fallback: "ends E j limit (Looking True, w)" for w by (rule look, rule over) simp_all
  have whole: "ends E j limit (Asking fb 0, w)" for fb w by (rule ask, rule over) (simp_all add: fallback)
  show all: "ends E j limit (stream_over j fb n r w)" for fb n r w by (rule over) (simp_all add: fallback whole)
  show "ends E j limit (Asking fb n, w)" by (rule ask) (rule all)
  show "ends E j limit (Looking fb, w)" by (rule look) (rule all)
qed

lemma every_phase_ends: "ends E j limit (ph, w)"
proof (cases ph)
  case (Receiving rc)
  obtain r w' where "stream_body E (jb_faults j) (asked_url j (rc_fallback rc)) (jb_part j) limit w (rc_writer rc)
      (rc_written rc) (rc_chunks rc) = (r, w')" by fastforce
  from receiving_leads [OF this] show ?thesis unfolding Receiving by (rule ends_leads) (rule stream_ends)
qed (simp_all add: ends_idle stream_ends digest_ends finish_ends blocking_ends)

end
