(* ===== verification/Transfer_Lock.thy ===== *)
theory Transfer_Lock
  imports Transfer_Steps
begin

text \<open>
  Transfers of one destination side by side. Any number of transfers, in one process or several,
  interleave the steps of theory \<open>Transfer_Steps\<close>; a caller may be cancelled at an await, a write
  handed to the blocking pool lands when it lands, and a process may die at any step: one that runs
  several transfers, by as many steps. The lemmas show that the lock is held by whatever
  may still write, exactly while it has something left to do, that the holder's own steps give it
  back, and that the destination only ever goes from one copy to a copy checked beside it. Where the file system has no
  locks that is not so, and a run shows it.
\<close>

section \<open>Transfers side by side\<close>

record system =
  sy_world :: world
  sy_owner :: "nat option" \<comment> \<open>the transfer whose handle holds the kernel's lock\<close>
  sy_phase :: "nat \<Rightarrow> phase"

definition system_start :: "world \<Rightarrow> system" where
  "system_start w = \<lparr> sy_world = w, sy_owner = None, sy_phase = (\<lambda>_. Starting) \<rparr>"

text \<open>
  The handles on the lock file a transfer has at a phase. The caller's, shared with the writer of the
  part file, which hands a clone to every write it sends to the pool; the caller's moves into the
  blocking step, and is dropped with the caller before that. A write whose caller is gone keeps the
  clone it was given.
\<close>

datatype lock_handle = CallerHandle | WriterHandle | WriteHandle | StepHandle

fun handles :: "phase \<Rightarrow> lock_handle set" where
  "handles Starting = {}"
| "handles (Looking fb) = {CallerHandle}"
| "handles (Asking fb resume_from) = {CallerHandle}"
| "handles (Receiving rc) =
     {CallerHandle, WriterHandle} \<union> (if pw_pending (rc_writer rc) = None then {} else {WriteHandle})"
| "handles Digesting = {CallerHandle}"
| "handles Staging = {StepHandle}"
| "handles StagedUnchecked = {StepHandle}"
| "handles Checked = {StepHandle}"
| "handles (Clearing r) = {StepHandle}"
| "handles (Discarding e) = {StepHandle}"
| "handles (Landing batch named e) = {WriteHandle}"
| "handles (Done r) = {}"
| "handles Gone = {}"

text \<open>A transfer at its next phase; the kernel drops the lock with the last handle on it.\<close>

definition moved :: "nat \<Rightarrow> phase \<times> world \<Rightarrow> system \<Rightarrow> system" where
  "moved i pw s =
     s\<lparr> sy_phase := (sy_phase s)(i := fst pw), sy_world := snd pw,
        sy_owner := (if sy_owner s = Some i \<and> handles (fst pw) = {} then None else sy_owner s) \<rparr>"

text \<open>\<open>try_lock\<close>: one handle at a time, where the file system has locks at all.\<close>

definition try_lock :: "bool \<Rightarrow> system \<Rightarrow> lock_reply" where
  "try_lock locking s =
     (if \<not> locking then Unsupported ''Operation not supported (os error 95)''
      else if sy_owner s = None then Acquired else WouldBlock)"

definition starts :: "bool \<Rightarrow> nat \<Rightarrow> job \<Rightarrow> system \<Rightarrow> system" where
  "starts locking i j s =
     (let reply = try_lock locking s in
      moved i (start_transfer reply j (sy_world s))
        (s\<lparr> sy_owner := (if reply = Acquired then Some i else sy_owner s) \<rparr>))"

inductive system_step ::
    "('p, 'm, 'b) platform \<Rightarrow> bool \<Rightarrow> nat \<Rightarrow> (nat \<Rightarrow> job) \<Rightarrow> system \<Rightarrow> system \<Rightarrow> bool"
  for E :: "('p, 'm, 'b) platform" and locking :: bool and limit :: nat and J :: "nat \<Rightarrow> job" where
  begins: "sy_phase s i = Starting \<Longrightarrow> system_step E locking limit J s (starts locking i (J i) s)"
| advances: "under_way (sy_phase s i) \<Longrightarrow>
    system_step E locking limit J s (moved i (advance E (J i) limit (sy_phase s i) (sy_world s)) s)"
| lands: "system_step E locking limit J s (moved i (land_early (J i) (sy_phase s i) (sy_world s)) s)"
| cancels: "system_step E locking limit J s (moved i (cancel (sy_phase s i), sy_world s) s)"
| crashes: "under_way (sy_phase s i) \<Longrightarrow>
    system_step E locking limit J s (moved i (Gone, crash E (J i) n (sy_phase s i) (sy_world s)) s)"
| ticks: "system_step E locking limit J s (s\<lparr> sy_world := (sy_world s)\<lparr> clock := clock (sy_world s) + n \<rparr> \<rparr>)"

inductive system_reaches ::
    "('p, 'm, 'b) platform \<Rightarrow> bool \<Rightarrow> nat \<Rightarrow> (nat \<Rightarrow> job) \<Rightarrow> world \<Rightarrow> system \<Rightarrow> bool"
  for E :: "('p, 'm, 'b) platform" and locking :: bool and limit :: nat and J :: "nat \<Rightarrow> job" and w :: world where
  start: "system_reaches E locking limit J w (system_start w)"
| step: "system_reaches E locking limit J w s \<Longrightarrow> system_step E locking limit J s s' \<Longrightarrow>
    system_reaches E locking limit J w s'"

text \<open>A transfer has a handle as long as it, or what it left on the pool, has something to do.\<close>

lemma handles_empty [simp]: "handles ph = {} \<longleftrightarrow> \<not> under_way ph"
  by (cases ph) simp_all

section \<open>What one step may change\<close>

abbreviation job_paths :: "job \<Rightarrow> str set" where
  "job_paths j \<equiv> transfer_paths (jb_transfer j)"

lemma job_path_simps [simp]:
  "jb_part j \<in> job_paths j" "jb_staged j \<in> job_paths j" "jb_lock j \<in> job_paths j" "jb_dest j \<notin> job_paths j"
  "jb_part j \<noteq> jb_staged j" "jb_staged j \<noteq> jb_part j" "jb_part j \<noteq> jb_dest j" "jb_dest j \<noteq> jb_part j"
  "jb_staged j \<noteq> jb_dest j" "jb_dest j \<noteq> jb_staged j"
  by (simp_all add: jb_part_def jb_staged_def jb_lock_def jb_dest_def)

lemma part_frame: "only_changes {jb_part j} w w' \<Longrightarrow> only_changes (job_paths j) w w'"
  by (erule only_changes_mono) simp

lemma drop_empty_frame: "part \<in> S \<Longrightarrow> only_changes S w (drop_empty_part F w part)"
  by (simp add: drop_empty_part_def split: sum.split)

lemma stream_over_frame:
  assumes "only_changes (job_paths j) w w'"
  shows "only_changes (job_paths j) w (snd (stream_over j fb n r w'))"
  using assms only_changes_trans [OF assms drop_empty_frame [of "jb_part j" "job_paths j" w' "jb_faults j"]]
  by (auto simp: stream_over_def split: sum.split)

lemma look_step_frame: "only_changes (job_paths j) w (snd (look_step j fb w))"
  by (simp add: look_step_def resumable_offset_def Let_def split: option.split)

lemma open_part_frame: "open_part F w part resuming = Inr w' \<Longrightarrow> only_changes {part} w w'"
  by (auto simp: open_part_def split: if_splits option.splits)

lemma ask_step_frame: "only_changes (job_paths j) w (snd (ask_step E j limit fb n w))"
  by (auto simp: ask_step_def Let_def intro!: stream_over_frame intro: part_frame dest: open_part_frame split: sum.split)

lemma finish_step_frame: "only_changes (job_paths j) w (snd (finish_step j rc r failed w))"
  by (auto simp: finish_step_def Let_def intro!: stream_over_frame intro: part_frame
      dest: send_batch_ok settle_ok split: sum.split)

lemma receive_step_frame: "only_changes (job_paths j) w (snd (receive_step E j limit rc w))"
  by (auto simp: receive_step_def Let_def intro!: stream_over_frame finish_step_frame intro: part_frame
      dest: writer_write_ok split: list.split sum.split option.split)

lemma land_batch_frame: "only_changes (job_paths j) w (land_batch j batch named w)"
  by (simp add: land_batch_def append_file_def)

lemma advance_frame:
  assumes "ph \<noteq> Checked"
  shows "only_changes (job_paths j) w (snd (advance E j limit ph w))"
proof (cases ph)
  case Digesting
  then show ?thesis
    using part_frame [OF check_digest_frame [of "jb_part j" w E "jb_faults j" "jb_server j" "jb_transfer j"]]
    by (auto split: prod.split sum.split)
next
  case Staging
  then show ?thesis
    using only_changes_mono [OF stage_archive_frame [of "jb_part j" "jb_staged j" w E "jb_faults j" "jb_dest j"
          "tr_archive (jb_transfer j)"], of "job_paths j"]
    by (auto split: prod.split sum.split)
qed (use assms in \<open>auto simp: look_step_frame ask_step_frame receive_step_frame land_batch_frame split: sum.split\<close>)

lemma land_early_frame: "only_changes (job_paths j) w (snd (land_early j ph w))"
  by (cases ph) (auto intro: part_frame dest: settle_ok split: sum.split)

lemma crash_frame: "only_changes (job_paths j) w (crash E j n ph w)"
  by (cases ph) (auto simp: land_batch_frame torn_stage_def Let_def split: option.split)

section \<open>The invariant\<close>

text \<open>
  What a run has to have established of the bytes it puts in place: they are what the body it
  received decodes to, the body has the digest published for it, and every check accepted the file
  beside the very copy it replaces.
\<close>

definition digest_matches :: "('p, 'm, 'b) platform \<Rightarrow> job \<Rightarrow> str \<Rightarrow> bool" where
  "digest_matches E j received \<longleftrightarrow>
     (\<forall>u. tr_checksum_url (jb_transfer j) = Some u \<longrightarrow>
       fetch_checksum E (jb_server j) u (tr_credential (jb_transfer j)) = Inr (pf_sha256 E received))"

definition decodes_to :: "('p, 'm, 'b) platform \<Rightarrow> job \<Rightarrow> file_state \<Rightarrow> bool" where
  "decodes_to E j f \<longleftrightarrow>
     (\<exists>received. archived_database E (tr_archive (jb_transfer j)) received = Some (content f)
       \<and> digest_matches E j received)"

definition vouched :: "('p, 'm, 'b) platform \<Rightarrow> job \<Rightarrow> file_state option \<Rightarrow> file_state \<Rightarrow> bool" where
  "vouched E j old f \<longleftrightarrow>
     decodes_to E j f
     \<and> (\<exists>w n. check_staged E (jb_faults j) w (jb_staged j) (jb_dest j) (tr_format (jb_transfer j)) (jb_guard j) = Inr n
          \<and> files w (jb_staged j) = Some f \<and> files w (jb_dest j) = old)"

definition replaces :: "('p, 'm, 'b) platform \<Rightarrow> (nat \<Rightarrow> job) \<Rightarrow> file_state option \<Rightarrow> file_state option \<Rightarrow> bool" where
  "replaces E J old new \<longleftrightarrow> (\<exists>i f. new = Some f \<and> vouched E (J i) old f)"

fun phase_ok :: "('p, 'm, 'b) platform \<Rightarrow> job \<Rightarrow> world \<Rightarrow> phase \<Rightarrow> bool" where
  "phase_ok E j w Staging \<longleftrightarrow> digest_matches E j (file_text w (jb_part j))"
| "phase_ok E j w StagedUnchecked \<longleftrightarrow> (\<exists>f. files w (jb_staged j) = Some f \<and> decodes_to E j f)"
| "phase_ok E j w Checked \<longleftrightarrow> (\<exists>f. files w (jb_staged j) = Some f \<and> vouched E j (files w (jb_dest j)) f)"
| "phase_ok E j w _ \<longleftrightarrow> True"

lemma idle_phase_ok: "\<not> under_way ph \<Longrightarrow> phase_ok E j w ph"
  by (cases ph) simp_all

lemma phase_ok_files:
  assumes "files w' (jb_part j) = files w (jb_part j)" "files w' (jb_staged j) = files w (jb_staged j)"
    and "files w' (jb_dest j) = files w (jb_dest j)"
  shows "phase_ok E j w' ph = phase_ok E j w ph"
  using assms by (cases ph) (simp_all add: file_text_def)

lemma stream_over_phase_ok: "phase_ok E j w' (fst (stream_over j fb n r w))"
  by (simp add: stream_over_def split: sum.split)

lemma receiving_phase_ok:
  "phase_ok E j w' (fst (look_step j fb w))" "phase_ok E j w' (fst (ask_step E j limit fb n w))"
  "phase_ok E j w' (fst (finish_step j rc r failed w))" "phase_ok E j w' (fst (receive_step E j limit rc w))"
proof -
  show fin: "phase_ok E j w' (fst (finish_step j rc r failed w))" for rc r failed
    by (auto simp: finish_step_def Let_def stream_over_phase_ok split: sum.split)
  show "phase_ok E j w' (fst (look_step j fb w))"
    by (simp add: look_step_def Let_def split_beta)
  show "phase_ok E j w' (fst (ask_step E j limit fb n w))"
    by (auto simp: ask_step_def Let_def stream_over_phase_ok split: sum.split)
  show "phase_ok E j w' (fst (receive_step E j limit rc w))"
    by (auto simp: receive_step_def Let_def stream_over_phase_ok fin split: list.split sum.split option.split)
qed

lemma staged_decodes:
  assumes "phase_ok E j w Staging"
    and "stage_archive E F w (jb_part j) (jb_staged j) (jb_dest j) (tr_archive (jb_transfer j)) = (Inr x, w')"
  shows "\<exists>f. files w' (jb_staged j) = Some f \<and> decodes_to E j f"
  using stage_archive_ok [OF assms(2)] assms(1) by (auto simp: decodes_to_def file_text_def)

lemma advance_phase_ok:
  assumes "phase_ok E j w ph" and "advance E j limit ph w = (ph', w')"
  shows "phase_ok E j w' ph'"
proof (cases ph)
  case Digesting
  then show ?thesis
    using assms check_digest_ok [of E "jb_faults j" "jb_server j" "jb_transfer j" "jb_part j" w]
    by (auto simp: digest_matches_def split: prod.splits sum.splits)
next
  case Staging
  then show ?thesis
    using assms staged_decodes [of E j w "jb_faults j"] by (auto split: prod.splits sum.splits)
next
  case StagedUnchecked
  then show ?thesis using assms by (fastforce simp: vouched_def split: sum.splits)
qed (use assms receiving_phase_ok [of E j w'] in \<open>auto split: option.splits sum.splits dest!: arg_cong [where f = fst]\<close>)

text \<open>The one step that touches the destination: its copy gives way to one vouched for beside it.\<close>

lemma rename_replaces:
  assumes "phase_ok E (J i) w Checked" and "advance E (J i) limit Checked w = (ph', w')"
  shows "files w' (jb_dest (J i)) = files w (jb_dest (J i))
    \<or> replaces E J (files w (jb_dest (J i))) (files w' (jb_dest (J i)))"
  using assms by (auto simp: replaces_def split: option.splits)

lemma advance_dest:
  assumes "phase_ok E (J i) w ph" and "advance E (J i) limit ph w = (ph', w')"
  shows "(replaces E J)\<^sup>*\<^sup>* (files w (jb_dest (J i))) (files w' (jb_dest (J i)))"
proof (cases "ph = Checked")
  case True
  then show ?thesis using rename_replaces [of E J i w limit ph' w'] assms by auto
next
  case False
  then show ?thesis
    using only_changes_file [OF advance_frame [OF False, of "J i" w E limit], of "jb_dest (J i)"] assms(2) by simp
qed

text \<open>
  The lock is held exactly by the transfer that has something left to do, and what each transfer has
  established still holds of the files.
\<close>

definition one_writer :: "system \<Rightarrow> bool" where
  "one_writer s \<longleftrightarrow> (\<forall>i. under_way (sy_phase s i) \<longleftrightarrow> sy_owner s = Some i)"

definition system_inv :: "('p, 'm, 'b) platform \<Rightarrow> (nat \<Rightarrow> job) \<Rightarrow> str \<Rightarrow> world \<Rightarrow> system \<Rightarrow> bool" where
  "system_inv E J dest w s \<longleftrightarrow>
     one_writer s
     \<and> (\<forall>i. phase_ok E (J i) (sy_world s) (sy_phase s i))
     \<and> (replaces E J)\<^sup>*\<^sup>* (files w dest) (files (sy_world s) dest)"

lemma one_writer_unique: "one_writer s \<Longrightarrow> under_way (sy_phase s i) \<Longrightarrow> i' \<noteq> i \<Longrightarrow> \<not> under_way (sy_phase s i')"
  by (auto simp: one_writer_def)

lemma moved_one_writer:
  "one_writer s \<Longrightarrow> under_way (sy_phase s i) \<Longrightarrow> one_writer (moved i pw s)"
  by (auto simp: one_writer_def moved_def)

text \<open>A step of the transfer that has the lock: nobody else has anything established that it could break.\<close>

lemma holder_moves:
  assumes "system_inv E J dest w s" and "under_way (sy_phase s i)"
    and "phase_ok E (J i) w' ph'" and "(replaces E J)\<^sup>*\<^sup>* (files (sy_world s) dest) (files w' dest)"
  shows "system_inv E J dest w (moved i (ph', w') s)"
proof -
  have "phase_ok E (J k) w' (sy_phase s k)" if "k \<noteq> i" for k
    using one_writer_unique [OF _ assms(2) that] assms(1) by (auto simp: system_inv_def intro: idle_phase_ok)
  with assms moved_one_writer [of s i "(ph', w')"] show ?thesis
    by (auto simp: system_inv_def moved_def)
qed

definition owner_busy :: "nat \<Rightarrow> system \<Rightarrow> bool" where
  "owner_busy i s \<longleftrightarrow> (sy_owner s = Some i \<longrightarrow> under_way (sy_phase s i))"

lemma one_writer_busy: "one_writer s \<Longrightarrow> owner_busy i s"
  by (simp add: one_writer_def owner_busy_def)

lemma unmoved [simp]: "ph = sy_phase s i \<Longrightarrow> w = sy_world s \<Longrightarrow> owner_busy i s \<Longrightarrow> moved i (ph, w) s = s"
  by (auto simp: moved_def owner_busy_def)

lemma moved_busy: "owner_busy i (moved i pw s)"
  by (auto simp: moved_def owner_busy_def)

lemma cancel_phase_ok: "phase_ok E j w ph \<Longrightarrow> phase_ok E j w (cancel ph)"
  by (cases ph) (auto split: option.split)

lemma land_early_phase_ok: "phase_ok E j w ph \<Longrightarrow> phase_ok E j (snd (land_early j ph w)) (fst (land_early j ph w))"
  by (cases ph) (auto split: sum.split)

lemma start_transfer_frame:
  "only_changes {jb_lock j} w (snd (start_transfer reply j w))"
  by (auto simp: start_transfer_def open_lock_def split: option.split)

lemma start_transfer_holds:
  "under_way (fst (start_transfer reply j w)) \<Longrightarrow> reply \<noteq> WouldBlock"
  "phase_ok E j w' (fst (start_transfer reply j w))"
  by (auto simp: start_transfer_def split: option.splits)

lemma starts_inv:
  assumes inv: "system_inv E J dest w s" and idle: "sy_phase s i = Starting" and dests: "\<And>k. jb_dest (J k) = dest"
  shows "system_inv E J dest w (starts True i (J i) s)"
proof -
  obtain ph' w' where sw: "start_transfer (try_lock True s) (J i) (sy_world s) = (ph', w')" by fastforce
  have same: "files w' p = files (sy_world s) p" if "p \<noteq> jb_lock (J i)" for p
    using only_changes_file [OF start_transfer_frame [of "J i" "sy_world s" "try_lock True s"], of p] sw that by simp
  have lock: "jb_lock (J i) \<noteq> jb_part (J k)" "jb_lock (J i) \<noteq> jb_staged (J k)" "jb_lock (J i) \<noteq> dest" for k
    using dests by (simp_all add: jb_lock_def jb_part_def jb_staged_def)
  have kept: "phase_ok E (J k) w' ph = phase_ok E (J k) (sy_world s) ph" for k ph
    using same lock dests by (intro phase_ok_files) metis+
  have "sy_owner s \<noteq> Some i" using inv idle by (metis system_inv_def one_writer_def under_way.simps(1))
  moreover have "under_way ph' \<longrightarrow> sy_owner s = None"
    using start_transfer_holds(1) [of "try_lock True s" "J i" "sy_world s"] sw by (auto simp: try_lock_def split: if_splits)
  ultimately have "one_writer (starts True i (J i) s)"
    using inv start_transfer_holds(1) [of WouldBlock "J i" "sy_world s"]
    by (auto simp: starts_def Let_def sw moved_def one_writer_def system_inv_def try_lock_def)
  moreover have "phase_ok E (J i) w' ph'"
    using start_transfer_holds(2) [of E "J i" w' "try_lock True s" "sy_world s"] sw by simp
  ultimately show ?thesis
    using inv kept same [of dest] lock by (auto simp: system_inv_def starts_def Let_def sw moved_def)
qed

lemma holder_frame:
  assumes "system_inv E J dest w s" and "under_way (sy_phase s i)" and "jb_dest (J i) = dest"
    and "only_changes (job_paths (J i)) (sy_world s) w'" and "phase_ok E (J i) w' ph'"
  shows "system_inv E J dest w (moved i (ph', w') s)"
  using assms only_changes_file [OF assms(4), of dest] holder_moves [OF assms(1,2,5)] by auto

lemma idle_steps:
  "\<not> under_way ph \<Longrightarrow> land_early j ph w = (ph, w)" "\<not> under_way ph \<Longrightarrow> cancel ph = ph"
  by (cases ph; simp)+

lemma step_system_inv:
  assumes "system_step E True limit J s s'" and "system_inv E J dest w s" and dests: "\<And>k. jb_dest (J k) = dest"
  shows "system_inv E J dest w s'"
  using assms(1,2)
proof (induction rule: system_step.induct)
  case (begins s i)
  then show ?case using starts_inv dests by blast
next
  case (advances s i)
  obtain ph' w' where a: "advance E (J i) limit (sy_phase s i) (sy_world s) = (ph', w')" by fastforce
  have "phase_ok E (J i) (sy_world s) (sy_phase s i)" using advances by (simp add: system_inv_def)
  with advances a show ?case
    using holder_moves advance_phase_ok advance_dest [where J = J and i = i] dests by metis
next
  case (lands s i)
  show ?case
  proof (cases "under_way (sy_phase s i)")
    case True
    have "phase_ok E (J i) (sy_world s) (sy_phase s i)" using lands by (simp add: system_inv_def)
    from holder_frame [OF lands True dests land_early_frame land_early_phase_ok [OF this]]
    show ?thesis by simp
  next
    case False
    with lands show ?thesis by (simp add: idle_steps system_inv_def one_writer_busy)
  qed
next
  case (cancels s i)
  show ?case
  proof (cases "under_way (sy_phase s i)")
    case True
    have "phase_ok E (J i) (sy_world s) (sy_phase s i)" using cancels by (simp add: system_inv_def)
    from holder_frame [OF cancels True dests only_changes_refl cancel_phase_ok [OF this]] show ?thesis .
  next
    case False
    with cancels show ?thesis by (simp add: idle_steps system_inv_def one_writer_busy)
  qed
next
  case (crashes s i n)
  show ?case by (rule holder_frame [OF crashes(2,1) dests crash_frame]) simp
next
  case (ticks s n)
  have "phase_ok E (J i) (sy_world s\<lparr> clock := c \<rparr>) ph = phase_ok E (J i) (sy_world s) ph" for i c ph
    by (rule phase_ok_files) simp_all
  with ticks show ?case by (simp add: system_inv_def one_writer_def)
qed

lemma system_invariant:
  assumes "system_reaches E True limit J w s" and "\<And>k. jb_dest (J k) = dest"
  shows "system_inv E J dest w s"
  using assms(1)
proof induction
  case start
  show ?case by (simp add: system_inv_def system_start_def one_writer_def)
qed (rule step_system_inv [OF _ _ assms(2)])

section \<open>What transfers side by side promise\<close>

text \<open>C3: however transfers of one destination interleave, are cancelled or die, the copies at that
  destination form a chain from the first: each gave way only to a file that every check of the run
  that placed it accepted beside that very copy, decoded from a body with the digest published for it.\<close>

theorem copies_form_a_checked_chain:
  assumes "system_reaches E True limit J w s" and "\<And>k. jb_dest (J k) = dest"
  shows "(replaces E J)\<^sup>*\<^sup>* (files w dest) (files (sy_world s) dest)"
  using system_invariant [OF assms] by (simp add: system_inv_def)

text \<open>
  What a transfer could do to the files next: by its own step, by a write in flight that lands, or by
  dying at any byte of either.
\<close>

definition may_write :: "('p, 'm, 'b) platform \<Rightarrow> job \<Rightarrow> nat \<Rightarrow> phase \<Rightarrow> world \<Rightarrow> bool" where
  "may_write E j limit ph w \<longleftrightarrow>
     files (snd (advance E j limit ph w)) \<noteq> files w \<or> files (snd (land_early j ph w)) \<noteq> files w
     \<or> (\<exists>n. files (crash E j n ph w) \<noteq> files w)"

lemma idle_writes_nothing: "\<not> under_way ph \<Longrightarrow> \<not> may_write E j limit ph w"
  by (cases ph) (simp_all add: may_write_def)

lemma free_lock_step:
  assumes "system_step E True limit J s s'" and "one_writer s" and "sy_owner s = None"
    and "\<And>k. jb_dest (J k) = dest" and "p \<noteq> with_extension dest LOCK_EXT"
  shows "files (sy_world s') p = files (sy_world s) p"
proof -
  have idle: "\<not> under_way (sy_phase s k)" for k using assms(2,3) by (simp add: one_writer_def)
  from assms(1) show ?thesis
  proof cases
    case (begins i)
    have "p \<noteq> jb_lock (J i)" using assms(4,5) by (simp add: jb_lock_def)
    with only_changes_file [OF start_transfer_frame [of "J i" "sy_world s" "try_lock True s"], of p] begins show ?thesis
      by (simp add: starts_def Let_def moved_def)
  qed (use idle in \<open>simp_all add: moved_def idle_steps\<close>)
qed

text \<open>C5: a transfer that could change any file next, by a step, by a write that outlived its caller or by a
  crash in the middle of either, is the one that holds the lock; it holds it for as long as anything of
  it is left to be done and no longer; and while the lock is free no step changes a file but the lock's.\<close>

theorem lock_is_held_while_writes_are_left:
  assumes "system_reaches E True limit J w s" and "\<And>k. jb_dest (J k) = dest"
  shows "(\<forall>i. may_write E (J i) limit (sy_phase s i) (sy_world s) \<longrightarrow> sy_owner s = Some i)
    \<and> (\<forall>i. sy_owner s = Some i \<longleftrightarrow> under_way (sy_phase s i))
    \<and> (\<forall>s' p. system_step E True limit J s s' \<longrightarrow> sy_owner s = None \<longrightarrow> p \<noteq> with_extension dest LOCK_EXT \<longrightarrow>
         files (sy_world s') p = files (sy_world s) p)"
proof -
  have one: "one_writer s" using system_invariant [OF assms] by (simp add: system_inv_def)
  then have "under_way (sy_phase s i)" if "may_write E (J i) limit (sy_phase s i) (sy_world s)" for i
    using that idle_writes_nothing by blast
  with one free_lock_step [OF _ one _ assms(2)] show ?thesis
    by (auto simp: one_writer_def)
qed

section \<open>The lock is given back\<close>

text \<open>Steps of the holder, one after another, are steps of the system.\<close>

lemma moved_moved:
  "under_way (fst pw) \<Longrightarrow> moved i pw' (moved i pw s) = moved i pw' s"
  by (auto simp: moved_def)

lemma moved_twice: "moved i pw (moved i pw s) = moved i pw s"
  by (simp add: moved_def)

lemma idle_stays: "\<not> under_way (fst pw) \<Longrightarrow> advance_many E j limit m pw = pw"
proof (induction m)
  case (Suc m)
  then show ?case by (cases pw; cases "fst pw") auto
qed simp

definition holder_step ::
    "('p, 'm, 'b) platform \<Rightarrow> nat \<Rightarrow> (nat \<Rightarrow> job) \<Rightarrow> nat \<Rightarrow> system \<Rightarrow> system \<Rightarrow> bool" where
  "holder_step E limit J i s s' \<longleftrightarrow>
     under_way (sy_phase s i) \<and> s' = moved i (advance E (J i) limit (sy_phase s i) (sy_world s)) s"

lemma holder_steps:
  assumes "owner_busy i s" and "advance_many E (J i) limit n (sy_phase s i, sy_world s) = pw'"
  shows "(holder_step E limit J i)\<^sup>*\<^sup>* s (moved i pw' s)"
  using assms
proof (induction n arbitrary: s)
  case 0
  then show ?case using unmoved [of "sy_phase s i" s i "sy_world s"] by auto
next
  case (Suc n)
  let ?pw = "advance E (J i) limit (sy_phase s i) (sy_world s)"
  show ?case
  proof (cases "under_way (sy_phase s i)")
    case idle: False
    with Suc have "moved i pw' s = s" by (metis unmoved idle_stays fst_conv)
    then show ?thesis by simp
  next
    case True
    then have step: "holder_step E limit J i s (moved i ?pw s)" by (simp add: holder_step_def)
    have "advance_many E (J i) limit n (sy_phase (moved i ?pw s) i, sy_world (moved i ?pw s)) = pw'"
      using Suc(3) by (simp add: moved_def)
    from Suc(1) [OF moved_busy this] have rest: "(holder_step E limit J i)\<^sup>*\<^sup>* (moved i ?pw s) (moved i pw' (moved i ?pw s))" .
    have "moved i pw' (moved i ?pw s) = moved i pw' s"
    proof (cases "under_way (fst ?pw)")
      case True
      then show ?thesis by (rule moved_moved)
    next
      case False
      with Suc(3) have "pw' = ?pw" by (simp add: idle_stays)
      then show ?thesis by (simp add: moved_twice)
    qed
    with step rest show ?thesis by (metis converse_rtranclp_into_rtranclp)
  qed
qed

lemma holder_steps_reach:
  "(holder_step E limit J i)\<^sup>*\<^sup>* s s' \<Longrightarrow> system_reaches E locking limit J w s \<Longrightarrow> system_reaches E locking limit J w s'"
  by (induction rule: rtranclp_induct) (auto simp: holder_step_def intro: system_reaches.step system_step.advances)

lemma holder_runs:
  assumes "system_reaches E locking limit J w s" and "owner_busy i s"
    and "advance_many E (J i) limit n (sy_phase s i, sy_world s) = pw'"
  shows "system_reaches E locking limit J w (moved i pw' s)"
  using holder_steps_reach [OF holder_steps [where J = J, OF assms(2,3)] assms(1)] .

text \<open>C17: whoever has the lock, from wherever it is, finitely many steps of its own, with no crash, no
  cancellation and no step of another among them, bring it to its result and the lock is free: no state
  a run can reach leaves a destination locked for good.\<close>

theorem lock_is_given_back:
  assumes "system_reaches E True limit J w s" and "\<And>k. jb_dest (J k) = dest" and "sy_owner s = Some i"
  shows "\<exists>s'. (holder_step E limit J i)\<^sup>*\<^sup>* s s' \<and> sy_owner s' = None \<and> \<not> under_way (sy_phase s' i)"
proof -
  have one: "one_writer s" using system_invariant [OF assms(1,2)] by (simp add: system_inv_def)
  obtain pw' where "leads_to E (J i) limit (sy_phase s i, sy_world s) pw'" and over: "\<not> under_way (fst pw')"
    using every_phase_ends [of E "J i" limit "sy_phase s i" "sy_world s"] unfolding ends_def by blast
  then obtain n where n: "advance_many E (J i) limit n (sy_phase s i, sy_world s) = pw'"
    unfolding leads_to_def by blast
  have "sy_owner (moved i pw' s) = None" "\<not> under_way (sy_phase (moved i pw' s) i)"
    using assms(3) over by (simp_all add: moved_def)
  with holder_steps [where J = J, OF one_writer_busy [OF one] n] show ?thesis by blast
qed

section \<open>Transfers the properties apply to\<close>

definition job_of :: "str \<Rightarrow> job" where
  "job_of body =
     \<lparr> jb_faults = no_faults, jb_server = answering 200 [Inr body], jb_transfer = rows_transfer,
       jb_guard = guard_new City demo_settings \<rparr>"

lemma job_of_dest [simp]: "jb_dest (job_of body) = ''db''"
  by (simp add: job_of_def jb_dest_def rows_transfer_def)

lemmas step_eval =
  job_of_def jb_dest_def jb_part_def jb_staged_def jb_lock_def start_transfer_def look_step_def ask_step_def
  receive_step_def finish_step_def stream_over_def body_over_def asked_url_def transfer_eval one_file_def
  admit_def guard_new_def check_size_def demo_settings_def auto_download_default_def probe_mmdb_def
  starts_with_def sat_mul_def PERCENT_def to_ascii_lowercase_def ascii_lower_def between_def rename_file_def
  put_file_def

lemma advance_many_numeral [simp]:
  "advance_many E j limit (numeral k) pw =
     advance_many E j limit (pred_numeral k) (advance E j limit (fst pw) (snd pw))"
  by (simp add: numeral_eq_Suc)

text \<open>Where the file system has no locks, one transfer moves its body onto the staged file another has just
  checked, and the other puts it in place: a markup page no check accepted.\<close>

definition crossing_jobs :: "nat \<Rightarrow> job" where
  "crossing_jobs i = (if i = 0 then job_of ''a,bc'' else job_of ''<html>'')"

definition no_locks :: lock_reply where
  "no_locks = Unsupported ''Operation not supported (os error 95)''"

definition first_checked :: "phase \<times> world" where
  "first_checked =
     advance_many demo_platform (job_of ''a,bc'') MAX_BODY_BYTES 8
       (start_transfer no_locks (job_of ''a,bc'') (one_file ''db'' ''1,2''))"

definition second_staged :: "phase \<times> world" where
  "second_staged =
     advance_many demo_platform (job_of ''<html>'') MAX_BODY_BYTES 7
       (start_transfer no_locks (job_of ''<html>'') (snd first_checked))"

lemma crossing_eval:
  "fst first_checked = Checked" "fst second_staged = StagedUnchecked"
  "files (snd (advance demo_platform (job_of ''a,bc'') MAX_BODY_BYTES Checked (snd second_staged))) ''db'' =
     Some \<lparr> content = ''<html>'', mtime = 0 \<rparr>"
  by (simp_all add: first_checked_def second_staged_def no_locks_def step_eval)

lemma no_run_vouches_for_markup:
  "\<not> replaces demo_platform crossing_jobs old (Some \<lparr> content = ''<html>'', mtime = m \<rparr>)"
  by (auto simp: replaces_def vouched_def crossing_jobs_def job_of_def jb_dest_def rows_transfer_def
      check_staged_def holds_a_database_def read_content_def no_faults_def database_bytes_def and_then_Inr_iff
      MARKUP_OPENERS_def MARKUP_HEAD_BYTES_def to_ascii_lowercase_def ascii_lower_def between_def starts_with_def)

lemma begins_unlocked:
  assumes "system_reaches E False limit J w s" and "sy_owner s = None" and "sy_phase s i = Starting"
  shows "system_reaches E False limit J w (moved i (start_transfer no_locks (J i) (sy_world s)) s)"
  using system_reaches.step [OF assms(1) system_step.begins [where i = i, OF assms(3)]]
  by (simp add: starts_def try_lock_def no_locks_def Let_def)

lemma crossing_reached:
  "\<exists>s. system_reaches demo_platform False MAX_BODY_BYTES crossing_jobs (one_file ''db'' ''1,2'') s
     \<and> files (sy_world s) ''db'' = Some \<lparr> content = ''<html>'', mtime = 0 \<rparr>"
proof -
  let ?J = crossing_jobs and ?w = "one_file ''db'' ''1,2''"
  let ?R = "system_reaches demo_platform False MAX_BODY_BYTES ?J ?w"
  let ?s1 = "moved 0 (start_transfer no_locks (?J 0) ?w) (system_start ?w)"
  let ?s2 = "moved 0 first_checked ?s1"
  let ?s3 = "moved 1 (start_transfer no_locks (?J 1) (snd first_checked)) ?s2"
  let ?s4 = "moved 1 second_staged ?s3"
  let ?s5 = "moved 0 (advance demo_platform (?J 0) MAX_BODY_BYTES (sy_phase ?s4 0) (sy_world ?s4)) ?s4"
  note sel = moved_def system_start_def crossing_jobs_def
  have "?R ?s1" using begins_unlocked [OF system_reaches.start, of "?w" 0] by (simp add: system_start_def)
  then have "?R ?s2"
    by (rule holder_runs [OF _ moved_busy, where n = 8]) (simp add: sel first_checked_def)
  then have "?R ?s3"
    using begins_unlocked [of demo_platform MAX_BODY_BYTES ?J ?w ?s2 1] by (simp add: sel)
  then have "?R ?s4"
    by (rule holder_runs [OF _ moved_busy, where n = 7]) (simp add: sel second_staged_def)
  then have "?R ?s5"
    by (rule system_reaches.step [OF _ system_step.advances]) (simp add: sel crossing_eval)
  moreover have "files (sy_world ?s5) ''db'' = Some \<lparr> content = ''<html>'', mtime = 0 \<rparr>"
    using crossing_eval by (simp add: sel)
  ultimately show ?thesis by blast
qed

text \<open>On a file system that has no locks the chain breaks, which is what the warning the transfer then
  logs says: two transfers can place bytes that no check of either accepted.\<close>

theorem without_locks_unchecked_bytes_are_placed:
  "\<exists>s. system_reaches demo_platform False MAX_BODY_BYTES crossing_jobs (one_file ''db'' ''1,2'') s
     \<and> file_text (sy_world s) ''db'' = ''<html>''
     \<and> \<not> (replaces demo_platform crossing_jobs)\<^sup>*\<^sup>* (files (one_file ''db'' ''1,2'') ''db'') (files (sy_world s) ''db'')"
proof -
  obtain s where s: "system_reaches demo_platform False MAX_BODY_BYTES crossing_jobs (one_file ''db'' ''1,2'') s"
    "files (sy_world s) ''db'' = Some \<lparr> content = ''<html>'', mtime = 0 \<rparr>"
    using crossing_reached by blast
  have "\<not> (replaces demo_platform crossing_jobs)\<^sup>*\<^sup>* (files (one_file ''db'' ''1,2'') ''db'') (files (sy_world s) ''db'')"
    unfolding s(2)
  proof
    assume "(replaces demo_platform crossing_jobs)\<^sup>*\<^sup>* (files (one_file ''db'' ''1,2'') ''db'')
      (Some \<lparr> content = ''<html>'', mtime = 0 \<rparr>)"
    then show False
      by (cases rule: rtranclp.cases) (simp_all add: one_file_def no_run_vouches_for_markup)
  qed
  with s show ?thesis by (auto simp: file_text_def)
qed

definition alone_started :: system where
  "alone_started = starts True 0 (job_of ''a,bc'') (system_start (one_file ''db'' ''1,2''))"

definition alone_done :: "phase \<times> world" where
  "alone_done = advance_many demo_platform (job_of ''a,bc'') MAX_BODY_BYTES 10
     (sy_phase alone_started 0, sy_world alone_started)"

lemma alone_eval:
  "fst alone_done = Done (Inr ''db'')" "file_text (snd alone_done) ''db'' = ''a,bc''" "sy_owner alone_started = Some 0"
  by (simp_all add: alone_done_def alone_started_def starts_def try_lock_def moved_def system_start_def Let_def
      step_eval file_text_def)

lemma alone_reached:
  "system_reaches demo_platform True MAX_BODY_BYTES (\<lambda>_. job_of ''a,bc'') (one_file ''db'' ''1,2'') alone_started"
  "system_reaches demo_platform True MAX_BODY_BYTES (\<lambda>_. job_of ''a,bc'') (one_file ''db'' ''1,2'')
     (moved 0 alone_done alone_started)"
proof -
  show begun: "system_reaches demo_platform True MAX_BODY_BYTES (\<lambda>_. job_of ''a,bc'') (one_file ''db'' ''1,2'') alone_started"
    unfolding alone_started_def
    by (rule system_reaches.step [OF system_reaches.start system_step.begins]) (simp add: system_start_def)
  show "system_reaches demo_platform True MAX_BODY_BYTES (\<lambda>_. job_of ''a,bc'') (one_file ''db'' ''1,2'')
     (moved 0 alone_done alone_started)"
    by (rule holder_runs [OF begun _ alone_done_def [symmetric]])
      (simp add: alone_started_def starts_def Let_def moved_busy)
qed

theorem copies_form_a_checked_chain_witness:
  "(replaces demo_platform (\<lambda>_. job_of ''a,bc''))\<^sup>*\<^sup>*
     (Some \<lparr> content = ''1,2'', mtime = 0 \<rparr>) (files (snd alone_done) ''db'')
   \<and> file_text (snd alone_done) ''db'' = ''a,bc''"
  using copies_form_a_checked_chain [OF alone_reached(2), of "''db''"] alone_eval
  by (simp add: moved_def one_file_def)

text \<open>A transfer whose caller was cancelled with a write in flight: the write still has the lock.\<close>

definition sent :: "phase \<times> world" where
  "sent = advance_many demo_platform (job_of ''a,bc'') MAX_BODY_BYTES 4 (sy_phase alone_started 0, sy_world alone_started)"

definition write_left :: system where
  "write_left = moved 0 (cancel (fst sent), snd sent) (moved 0 sent alone_started)"

lemma write_left_eval:
  "cancel (fst sent) = Landing ''a,bc'' True None" "file_text (snd sent) ''db.part'' = []"
  "file_text (land_batch (job_of ''a,bc'') ''a,bc'' True (snd sent)) ''db.part'' = ''a,bc''"
  by (simp_all add: sent_def alone_started_def starts_def try_lock_def moved_def system_start_def Let_def
      land_batch_def step_eval file_text_def)

lemma write_left_reached:
  "system_reaches demo_platform True MAX_BODY_BYTES (\<lambda>_. job_of ''a,bc'') (one_file ''db'' ''1,2'') write_left"
proof -
  have sent: "system_reaches demo_platform True MAX_BODY_BYTES (\<lambda>_. job_of ''a,bc'') (one_file ''db'' ''1,2'')
      (moved 0 sent alone_started)"
    by (rule holder_runs [OF alone_reached(1) _ sent_def [symmetric]])
      (simp add: alone_started_def starts_def Let_def moved_busy)
  show ?thesis
    using system_reaches.step [OF sent system_step.cancels [where i = 0]]
    by (simp add: write_left_def) (simp add: moved_def)
qed

theorem lock_is_held_while_writes_are_left_witness:
  "sy_phase write_left 0 = Landing ''a,bc'' True None \<and> sy_owner write_left = Some 0
   \<and> sy_phase (starts True 1 (job_of ''a,bc'') write_left) 1 = Done (Inl (Busy ''db''))"
proof -
  have phase: "sy_phase write_left 0 = Landing ''a,bc'' True None" and world: "sy_world write_left = snd sent"
    using write_left_eval(1) by (simp_all add: write_left_def moved_def)
  have "may_write demo_platform (job_of ''a,bc'') MAX_BODY_BYTES (sy_phase write_left 0) (sy_world write_left)"
    unfolding may_write_def phase world using write_left_eval(2,3) by (fastforce simp: file_text_def)
  with lock_is_held_while_writes_are_left [OF write_left_reached, of "''db''"] have owner: "sy_owner write_left = Some 0" by simp
  moreover have "sy_phase (starts True 1 (job_of ''a,bc'') write_left) 1 = Done (Inl (Busy ''db''))"
    using owner
    by (simp add: starts_def try_lock_def Let_def moved_def start_transfer_def job_of_def jb_dest_def no_faults_def
        rows_transfer_def)
  ultimately show ?thesis using phase by blast
qed

theorem lock_is_given_back_witness:
  "\<exists>s'. (holder_step demo_platform MAX_BODY_BYTES (\<lambda>_. job_of ''a,bc'') 0)\<^sup>*\<^sup>* alone_started s' \<and> sy_owner s' = None"
  using lock_is_given_back [OF alone_reached(1), of "''db''" 0] alone_eval(3) by fastforce

end
