(* ===== verification/Enricher.thy ===== *)
theory Enricher
  imports Extra Ip_Addr Source
begin

text \<open>
  \<open>src/geoip/enricher.rs\<close> and \<open>src/geoip/refresh.rs\<close>: the open databases, the cache in front of them,
  and the swap that picks up a replaced file. A lookup reads both databases into one record and keeps
  the answer under the generation of the readers it came from. The lemmas show that a cached answer
  is the answer the databases now installed give after any sequence of lookups, clears and refreshes
  (the interleavings of one lookup's steps with a swap's are in \<open>Cache_Swap\<close>), how large an answer can
  be, and that a refresh leaves nothing behind but what failed to open. The MaxMind
  DB reader and \<open>quick_cache\<close> are not part of the repository: a reader is what it answers each
  address with, the cache a record of operations.
\<close>

section \<open>Errors, backings and sources\<close>

datatype lookup_error = UnsupportedFormat str str | NoFiles str | OpenFailed str str

text \<open>
  What a reader's decodes of a matched record yield: \<open>geoip2::City\<close> and \<open>geoip2::Asn\<close> as far as they
  are used, the IPinfo record, and the record with no schema.
\<close>

record city_data =
  cd_city_name :: "str option"
  cd_continent_code :: "str option"
  cd_continent_name :: "str option"
  cd_country_code :: "str option"
  cd_country_name :: "str option"
  cd_subdivisions :: "(str option \<times> str option) list" \<comment> \<open>English name, ISO code\<close>
  cd_postal_code :: "str option"
  cd_time_zone :: "str option"
  cd_latitude :: "64 word option"
  cd_longitude :: "64 word option"
  cd_metro_code :: "nat option"
  cd_accuracy_radius :: "nat option"

record asn_data =
  ad_number :: "nat option"
  ad_organization :: "str option"

record ipinfo_record =
  ii_country_code :: "str option"
  ii_country :: "str option"
  ii_continent_code :: "str option"
  ii_continent :: "str option"
  ii_asn :: "str option"
  ii_as_name :: "str option"
  ii_as_domain :: "str option"

record mm_result =
  mr_network :: "str option"
  mr_city :: "(str, city_data option) result"
  mr_asn :: "(str, asn_data option) result"
  mr_ipinfo :: "(str, ipinfo_record option) result"
  mr_tree :: "(str, mmdb_value option) result"

record mmdb_reader =
  rd_type :: str
  rd_lookup :: "ip_addr \<Rightarrow> (str, mm_result) result"

datatype backing = Resident (backing_reader: mmdb_reader) | Mapped (backing_reader: mmdb_reader)

datatype database_backing = ResidentBacking | MappedBacking

fun backing_label :: "database_backing \<Rightarrow> str" where
  "backing_label ResidentBacking = ''resident''"
| "backing_label MappedBacking = ''mapped''"

fun reported :: "backing \<Rightarrow> database_backing" where
  "reported (Resident _) = ResidentBacking"
| "reported (Mapped _) = MappedBacking"

record reader_set =
  rdr_city :: "backing option"
  rdr_asn :: "backing option"
  rdr_generation :: nat

definition backings :: "reader_set \<Rightarrow> database_backing option \<times> database_backing option" where
  "backings rs = (map_option reported (rdr_city rs), map_option reported (rdr_asn rs))"

record db_source =
  so_path :: str
  so_mtime :: "nat option"

section \<open>Reading an address\<close>

definition is_ipinfo :: "mmdb_reader \<Rightarrow> bool" where
  "is_ipinfo rd \<longleftrightarrow> starts_with (rd_type rd) ''ipinfo''"

definition lookup_in :: "mmdb_reader \<Rightarrow> ip_addr \<Rightarrow> mm_result option" where
  [simp]: "lookup_in rd ip = (case rd_lookup rd ip of Inl e \<Rightarrow> None | Inr res \<Rightarrow> Some res)"

text \<open>The range a lookup matched at, as text.\<close>

definition network_of :: "mm_result \<Rightarrow> str option" where
  [simp]: "network_of res = mr_network res"

definition collected :: "bool \<Rightarrow> mm_result \<Rightarrow> geo_record \<Rightarrow> geo_record" where
  "collected collect res r = (if collect then collect_extra (mr_tree res) r else r)"

definition read_ipinfo :: "mmdb_reader \<Rightarrow> ip_addr \<Rightarrow> geo_record \<Rightarrow> bool \<Rightarrow> bool \<times> geo_record" where
  "read_ipinfo rd ip r collect =
     (case lookup_in rd ip of
        None \<Rightarrow> (False, r)
      | Some res \<Rightarrow>
          (case mr_ipinfo res of
             Inl e \<Rightarrow> (False, r)
           | Inr None \<Rightarrow> (False, r)
           | Inr (Some f) \<Rightarrow>
               (True, collected collect res
                  (r\<lparr> country_code := ii_country_code f, country_name := ii_country f,
                      continent_code := ii_continent_code f, continent_name := ii_continent f,
                      autonomous_system_number := Option.bind (ii_asn f) asn_number,
                      autonomous_system_organization := ii_as_name f, as_domain := ii_as_domain f,
                      network := network_of res, asn_network := network_of res \<rparr>))))"

text \<open>The region is the last subdivision, the most specific one; without one it stays as it was.\<close>

definition take_region :: "(str option \<times> str option) list \<Rightarrow> geo_record \<Rightarrow> geo_record" where
  "take_region subs r =
     (if subs = [] then r else r\<lparr> region_name := fst (last subs), region_code := snd (last subs) \<rparr>)"

definition read_city :: "mmdb_reader \<Rightarrow> ip_addr \<Rightarrow> geo_record \<Rightarrow> bool \<Rightarrow> bool \<times> geo_record" where
  "read_city rd ip r collect =
     (if is_ipinfo rd then read_ipinfo rd ip r collect
      else case lookup_in rd ip of
        None \<Rightarrow> (False, r)
      | Some res \<Rightarrow>
          (case mr_city res of
             Inl e \<Rightarrow> (False, r)
           | Inr None \<Rightarrow> (False, r)
           | Inr (Some c) \<Rightarrow>
               (True, collected collect res
                  ((take_region (cd_subdivisions c)
                     (r\<lparr> city_name := cd_city_name c, continent_code := cd_continent_code c,
                         continent_name := cd_continent_name c, country_code := cd_country_code c,
                         country_name := cd_country_name c \<rparr>))
                   \<lparr> postal_code := cd_postal_code c, timezone := cd_time_zone c, latitude := cd_latitude c,
                     longitude := cd_longitude c, metro_code := cd_metro_code c,
                     accuracy_radius := cd_accuracy_radius c, network := network_of res \<rparr>))))"

definition read_asn :: "mmdb_reader \<Rightarrow> ip_addr \<Rightarrow> geo_record \<Rightarrow> bool \<Rightarrow> bool \<times> geo_record" where
  "read_asn rd ip r collect =
     (if is_ipinfo rd then read_ipinfo rd ip r collect
      else case lookup_in rd ip of
        None \<Rightarrow> (False, r)
      | Some res \<Rightarrow>
          (case mr_asn res of
             Inl e \<Rightarrow> (False, r)
           | Inr None \<Rightarrow> (False, r)
           | Inr (Some a) \<Rightarrow>
               (True, collected collect res
                  (r\<lparr> autonomous_system_number := ad_number a,
                      autonomous_system_organization := ad_organization a, asn_network := network_of res \<rparr>))))"

text \<open>One database of a set into the record so far.\<close>

definition read_half ::
    "(mmdb_reader \<Rightarrow> ip_addr \<Rightarrow> geo_record \<Rightarrow> bool \<Rightarrow> bool \<times> geo_record) \<Rightarrow> backing option \<Rightarrow>
     ip_addr \<Rightarrow> bool \<Rightarrow> bool \<times> geo_record \<Rightarrow> bool \<times> geo_record" where
  "read_half rd half ip collect fr =
     (case half of
        None \<Rightarrow> fr
      | Some b \<Rightarrow> let (found, r) = rd (backing_reader b) ip (snd fr) collect in (fst fr \<or> found, r))"

definition read_address :: "reader_set \<Rightarrow> ip_addr \<Rightarrow> bool \<Rightarrow> geo_record option" where
  "read_address rs ip collect =
     (let (found, r) = read_half read_asn (rdr_asn rs) ip collect
                         (read_half read_city (rdr_city rs) ip collect (False, record_default))
      in if found then Some r else None)"

section \<open>The cache\<close>

record entry =
  en_loaded :: nat
  en_generation :: nat
  en_record :: "geo_record option"

record 'c cache_lib =
  cl_new :: "nat \<Rightarrow> 'c"
  cl_get :: "'c \<Rightarrow> ip_addr \<Rightarrow> entry option"
  cl_insert :: "'c \<Rightarrow> ip_addr \<Rightarrow> entry \<Rightarrow> 'c"
  cl_clear :: "'c \<Rightarrow> 'c"
  cl_len :: "'c \<Rightarrow> nat"

record cache_config =
  cc_capacity :: nat
  cc_max_age :: "nat option"
  cc_resident_max_bytes :: nat
  cc_collect_extra_fields :: bool

definition DEFAULT_CAPACITY :: nat where "DEFAULT_CAPACITY = 100000"

definition cache_config_default :: cache_config where
  "cache_config_default =
     \<lparr> cc_capacity = DEFAULT_CAPACITY, cc_max_age = None,
       cc_resident_max_bytes = DEFAULT_RESIDENT_MAX_BYTES, cc_collect_extra_fields = True \<rparr>"

section \<open>The engine\<close>

record 'c geoip =
  gi_readers :: reader_set
  gi_generation :: nat
  gi_cache :: 'c
  gi_city_source :: "db_source option"
  gi_asn_source :: "db_source option"
  gi_max_age :: "nat option"
  gi_resident_max_bytes :: nat
  gi_collect_extra_fields :: bool

definition swap_readers :: "'c cache_lib \<Rightarrow> reader_set \<Rightarrow> 'c geoip \<Rightarrow> 'c geoip" where
  "swap_readers L rs g =
     (let generation = gi_generation g + 1 in
      g\<lparr> gi_readers := rs\<lparr> rdr_generation := generation \<rparr>, gi_generation := generation,
         gi_cache := cl_clear L (gi_cache g) \<rparr>)"

definition miss :: "'c geoip \<Rightarrow> nat \<Rightarrow> ip_addr \<Rightarrow> entry" where
  "miss g now ip =
     \<lparr> en_loaded = now, en_generation = rdr_generation (gi_readers g),
       en_record = read_address (gi_readers g) ip (gi_collect_extra_fields g) \<rparr>"

text \<open>Read from the readers now installed, and inside the age limit; \<open>Instant\<close> subtraction saturates.\<close>

definition current :: "'c geoip \<Rightarrow> nat \<Rightarrow> entry \<Rightarrow> bool" where
  "current g now e \<longleftrightarrow>
     en_generation e = gi_generation g
     \<and> (case gi_max_age g of None \<Rightarrow> True | Some max_age \<Rightarrow> now - en_loaded e \<le> max_age)"

definition lookup :: "'c cache_lib \<Rightarrow> nat \<Rightarrow> ip_addr \<Rightarrow> 'c geoip \<Rightarrow> geo_record option \<times> 'c geoip" where
  "lookup L now ip g =
     (if is_private ip then (Some record_private, g)
      else
        let loaded = miss g now ip; g' = g\<lparr> gi_cache := cl_insert L (gi_cache g) ip loaded \<rparr> in
        case cl_get L (gi_cache g) ip of
          Some e \<Rightarrow> if current g now e then (en_record e, g) else (en_record loaded, g')
        | None \<Rightarrow> (en_record loaded, g'))"

fun lookup_many :: "'c cache_lib \<Rightarrow> nat \<Rightarrow> ip_addr list \<Rightarrow> 'c geoip \<Rightarrow> geo_record option list \<times> 'c geoip" where
  "lookup_many L now [] g = ([], g)"
| "lookup_many L now (ip # ips) g =
     (let (r, g') = lookup L now ip g; (rs, g'') = lookup_many L now ips g' in (r # rs, g''))"

definition clear_cache :: "'c cache_lib \<Rightarrow> 'c geoip \<Rightarrow> 'c geoip" where
  "clear_cache L g = g\<lparr> gi_cache := cl_clear L (gi_cache g) \<rparr>"

definition cached_entries :: "'c cache_lib \<Rightarrow> 'c geoip \<Rightarrow> nat" where
  "cached_entries L g = cl_len L (gi_cache g)"

section \<open>Opening\<close>

text \<open>\<open>opens\<close> is what the reader makes of a file's bytes, whichever way they are held.\<close>

type_synonym opener = "str \<Rightarrow> (str, mmdb_reader) result"

definition file_mtime :: "io_faults \<Rightarrow> world \<Rightarrow> str \<Rightarrow> nat option" where
  "file_mtime F w p = (if F (Metadata p) = None then map_option mtime (files w p) else None)"

definition file_len :: "io_faults \<Rightarrow> world \<Rightarrow> str \<Rightarrow> nat option" where
  "file_len F w p = (case file_length F w p of Inl _ \<Rightarrow> None | Inr n \<Rightarrow> Some n)"

definition open_reader :: "opener \<Rightarrow> io_faults \<Rightarrow> world \<Rightarrow> str \<Rightarrow> (lookup_error, mmdb_reader) result" where
  "open_reader opens F w p = map_err (OpenFailed p) (and_then (read_content F w p) opens)"

definition open_backing :: "opener \<Rightarrow> io_faults \<Rightarrow> world \<Rightarrow> str \<Rightarrow> nat \<Rightarrow> (lookup_error, backing) result" where
  "open_backing opens F w p resident_max_bytes =
     (if (case file_len F w p of None \<Rightarrow> True | Some len \<Rightarrow> resident_max_bytes < len)
      then and_then (open_reader opens F w p) (\<lambda>rd. Inr (Mapped rd))
      else and_then (open_reader opens F w p) (\<lambda>rd. Inr (Resident rd)))"

definition open_source ::
    "opener \<Rightarrow> io_faults \<Rightarrow> world \<Rightarrow> nat \<Rightarrow> str \<Rightarrow> (lookup_error, db_source \<times> backing) result" where
  "open_source opens F w resident_max_bytes p =
     and_then (open_backing opens F w p resident_max_bytes) (\<lambda>b.
       Inr (\<lparr> so_path = p, so_mtime = file_mtime F w p \<rparr>, b))"

text \<open>\<open>Option::map(..).transpose()\<close>: the step where there is a path, and none where there is not.\<close>

definition transposed :: "('a \<Rightarrow> ('e, 'b) result) \<Rightarrow> 'a option \<Rightarrow> ('e, 'b option) result" where
  "transposed f v = (case v of None \<Rightarrow> Inr None | Some x \<Rightarrow> and_then (f x) (\<lambda>y. Inr (Some y)))"

record database_paths =
  dp_city :: "str option"
  dp_asn :: "str option"

definition city_only :: "str \<Rightarrow> database_paths" where
  "city_only path = \<lparr> dp_city = Some path, dp_asn = None \<rparr>"

definition asn_only :: "str \<Rightarrow> database_paths" where
  "asn_only path = \<lparr> dp_city = None, dp_asn = Some path \<rparr>"

definition open_geoip ::
    "'c cache_lib \<Rightarrow> opener \<Rightarrow> io_faults \<Rightarrow> world \<Rightarrow> database_paths \<Rightarrow> cache_config \<Rightarrow> (lookup_error, 'c geoip) result" where
  "open_geoip L opens F w paths cfg =
     and_then (transposed (open_source opens F w (cc_resident_max_bytes cfg)) (dp_city paths)) (\<lambda>city.
     and_then (transposed (open_source opens F w (cc_resident_max_bytes cfg)) (dp_asn paths)) (\<lambda>asn.
       Inr \<lparr> gi_readers = \<lparr> rdr_city = map_option snd city, rdr_asn = map_option snd asn, rdr_generation = 0 \<rparr>,
             gi_generation = 0, gi_cache = cl_new L (cc_capacity cfg),
             gi_city_source = map_option fst city, gi_asn_source = map_option fst asn,
             gi_max_age = cc_max_age cfg, gi_resident_max_bytes = cc_resident_max_bytes cfg,
             gi_collect_extra_fields = cc_collect_extra_fields cfg \<rparr>))"

text \<open>The single MMDB file of a provisioned database.\<close>

definition mmdb_path :: "database option \<Rightarrow> str \<Rightarrow> (lookup_error, str option) result" where
  "mmdb_path d kind =
     (case d of
        None \<Rightarrow> Inr None
      | Some db \<Rightarrow>
          (case db_files db of
             [] \<Rightarrow> Inl (NoFiles kind)
           | path # _ \<Rightarrow>
               if db_format db \<noteq> MmdbFormat then Inl (UnsupportedFormat path (format_name (db_format db)))
               else Inr (Some path)))"

definition from_databases ::
    "'c cache_lib \<Rightarrow> opener \<Rightarrow> io_faults \<Rightarrow> world \<Rightarrow> database option \<times> database option \<Rightarrow> cache_config \<Rightarrow>
     (lookup_error, 'c geoip) result" where
  "from_databases L opens F w dbs cfg =
     and_then (mmdb_path (fst dbs) ''city'') (\<lambda>city.
     and_then (mmdb_path (snd dbs) ''asn'') (\<lambda>asn.
       open_geoip L opens F w \<lparr> dp_city = city, dp_asn = asn \<rparr> cfg))"

section \<open>Refreshing\<close>

text \<open>The reader and the recorded time of a file that has moved, or none.\<close>

definition reopen ::
    "opener \<Rightarrow> io_faults \<Rightarrow> world \<Rightarrow> nat \<Rightarrow> db_source \<Rightarrow> (lookup_error, (backing \<times> db_source) option) result" where
  "reopen opens F w resident_max_bytes source =
     (let t = file_mtime F w (so_path source) in
      if t = None \<or> t = so_mtime source then Inr None
      else and_then (open_backing opens F w (so_path source) resident_max_bytes) (\<lambda>b.
        Inr (Some (b, source\<lparr> so_mtime := t \<rparr>))))"

text \<open>What one half of a refresh comes to: its reader, its source, whether it moved, and what failed.\<close>

definition refresh_half ::
    "opener \<Rightarrow> io_faults \<Rightarrow> world \<Rightarrow> nat \<Rightarrow> backing option \<Rightarrow> db_source option \<Rightarrow>
     backing option \<times> db_source option \<times> bool \<times> lookup_error option" where
  "refresh_half opens F w limit half source =
     (case source of
        None \<Rightarrow> (half, source, False, None)
      | Some s \<Rightarrow>
          (case reopen opens F w limit s of
             Inr (Some (b, s')) \<Rightarrow> (Some b, Some s', True, None)
           | Inr None \<Rightarrow> (half, source, False, None)
           | Inl e \<Rightarrow> (half, source, False, Some e)))"

definition refresh_if_changed ::
    "'c cache_lib \<Rightarrow> opener \<Rightarrow> io_faults \<Rightarrow> world \<Rightarrow> 'c geoip \<Rightarrow> (lookup_error, bool) result \<times> 'c geoip" where
  "refresh_if_changed L opens F w g =
     (let (city, city_source, city_moved, city_failed) =
            refresh_half opens F w (gi_resident_max_bytes g) (rdr_city (gi_readers g)) (gi_city_source g);
          (asn, asn_source, asn_moved, asn_failed) =
            refresh_half opens F w (gi_resident_max_bytes g) (rdr_asn (gi_readers g)) (gi_asn_source g);
          changed = (city_moved \<or> asn_moved);
          g1 = g\<lparr> gi_city_source := city_source, gi_asn_source := asn_source \<rparr>;
          next_set = (gi_readers g)\<lparr> rdr_city := city, rdr_asn := asn \<rparr>;
          g2 = (if changed then swap_readers L next_set g1 else g1)
      in (case city_failed of
            Some e \<Rightarrow> Inl e
          | None \<Rightarrow> (case asn_failed of Some e \<Rightarrow> Inl e | None \<Rightarrow> Inr changed), g2))"

section \<open>The laws of a cache\<close>

text \<open>
  A new cache and a cleared one hold nothing, and an insert adds the entry it was given or drops any:
  what is found behind a key is the last entry inserted there, or nothing.
\<close>

locale answer_cache =
  fixes L :: "'c cache_lib"
  assumes get_new: "cl_get L (cl_new L n) k = None"
    and get_clear: "cl_get L (cl_clear L c) k = None"
    and get_insert: "cl_get L (cl_insert L c k e) k' = Some e' \<Longrightarrow>
      if k' = k then e' = e else cl_get L c k' = Some e'"
begin

text \<open>Every entry of the current generation is the answer of the readers now installed.\<close>

definition valid_cache :: "'c geoip \<Rightarrow> bool" where
  "valid_cache g \<longleftrightarrow>
     rdr_generation (gi_readers g) = gi_generation g
     \<and> (\<forall>ip e. cl_get L (gi_cache g) ip = Some e \<longrightarrow> en_generation e = gi_generation g \<longrightarrow>
          en_record e = read_address (gi_readers g) ip (gi_collect_extra_fields g))"

lemma valid_open: "open_geoip L opens F w paths cfg = Inr g \<Longrightarrow> valid_cache g"
  by (auto simp: open_geoip_def and_then_Inr_iff valid_cache_def get_new)

lemma valid_clear: "valid_cache g \<Longrightarrow> valid_cache (clear_cache L g)"
  by (simp add: valid_cache_def clear_cache_def get_clear)

lemma valid_swap: "valid_cache (swap_readers L rs g)"
  by (simp add: valid_cache_def swap_readers_def Let_def get_clear)

lemma valid_refresh: "valid_cache g \<Longrightarrow> valid_cache (snd (refresh_if_changed L opens F w g))"
  using valid_swap
  by (auto simp: refresh_if_changed_def Let_def valid_cache_def split: prod.split)

lemma valid_insert:
  "valid_cache g \<Longrightarrow> valid_cache (g\<lparr> gi_cache := cl_insert L (gi_cache g) ip (miss g now ip) \<rparr>)"
  by (auto simp: valid_cache_def miss_def dest!: get_insert split: if_splits)

lemma lookup_answer:
  assumes "valid_cache g"
  shows "fst (lookup L now ip g) =
    (if is_private ip then Some record_private else read_address (gi_readers g) ip (gi_collect_extra_fields g))"
  using assms by (auto simp: lookup_def Let_def miss_def current_def valid_cache_def split: option.split)

lemma valid_lookup: "valid_cache g \<Longrightarrow> valid_cache (snd (lookup L now ip g))"
  using valid_insert by (auto simp: lookup_def Let_def split: option.split)

lemma lookup_keeps:
  "gi_readers (snd (lookup L now ip g)) = gi_readers g
   \<and> gi_collect_extra_fields (snd (lookup L now ip g)) = gi_collect_extra_fields g"
  by (simp add: lookup_def Let_def split: option.split)

lemma lookup_many_answers:
  "valid_cache g \<Longrightarrow> fst (lookup_many L now ips g) =
     map (\<lambda>ip. if is_private ip then Some record_private
               else read_address (gi_readers g) ip (gi_collect_extra_fields g)) ips"
proof (induction ips arbitrary: g)
  case (Cons ip ips)
  obtain r g' where l: "lookup L now ip g = (r, g')" by fastforce
  with Cons.prems lookup_answer [of g now ip] valid_lookup [of g now ip] lookup_keeps [of now ip g] Cons.IH [of g']
  show ?case by (auto simp: case_prod_unfold)
qed simp

end

section \<open>A bounded cache\<close>

text \<open>A cache of a capacity that drops its oldest entry.\<close>

type_synonym recent_cache = "nat \<times> (ip_addr \<times> entry) list"

definition recent_insert :: "recent_cache \<Rightarrow> ip_addr \<Rightarrow> entry \<Rightarrow> recent_cache" where
  "recent_insert c ip e = (fst c, take (fst c) ((ip, e) # filter (\<lambda>p. fst p \<noteq> ip) (snd c)))"

definition recent_lib :: "recent_cache cache_lib" where
  "recent_lib =
     \<lparr> cl_new = (\<lambda>n. (n, [])), cl_get = (\<lambda>c. map_of (snd c)), cl_insert = recent_insert,
       cl_clear = (\<lambda>c. (fst c, [])), cl_len = (\<lambda>c. length (snd c)) \<rparr>"

lemma map_of_take: "map_of (take n xs) k = Some v \<Longrightarrow> map_of xs k = Some v"
  by (induction xs arbitrary: n) (auto simp: take_Cons split: nat.splits if_splits)

lemma map_of_other: "k' \<noteq> k \<Longrightarrow> map_of (filter (\<lambda>p. fst p \<noteq> k) xs) k' = map_of xs k'"
  by (induction xs) auto

interpretation recent: answer_cache recent_lib
  by unfold_locales
    (auto simp: recent_lib_def recent_insert_def map_of_other dest!: map_of_take split: if_splits)

section \<open>Every state an engine can be in\<close>

inductive engine_reachable :: "'c cache_lib \<Rightarrow> opener \<Rightarrow> io_faults \<Rightarrow> 'c geoip \<Rightarrow> bool"
  for L :: "'c cache_lib" and opens :: opener and F :: io_faults where
  opened: "open_geoip L opens F w paths cfg = Inr g \<Longrightarrow> engine_reachable L opens F g"
| asked: "engine_reachable L opens F g \<Longrightarrow> engine_reachable L opens F (snd (lookup L now ip g))"
| cleared: "engine_reachable L opens F g \<Longrightarrow> engine_reachable L opens F (clear_cache L g)"
| refreshed: "engine_reachable L opens F g \<Longrightarrow> engine_reachable L opens F (snd (refresh_if_changed L opens F w g))"

lemma reachable_valid:
  assumes "answer_cache L" and "engine_reachable L opens F g"
  shows "answer_cache.valid_cache L g"
  using assms(2)
proof induction
  case (opened w paths cfg g)
  then show ?case by (rule answer_cache.valid_open [OF assms(1)])
qed (simp_all add: answer_cache.valid_lookup [OF assms(1)] answer_cache.valid_clear [OF assms(1)]
    answer_cache.valid_refresh [OF assms(1)])

text \<open>C8: whatever was looked up, cleared and refreshed before, and whatever the cache dropped, a lookup
  answers what the databases now installed answer, and a reserved address with the private record;
  a batch is answered address by address.\<close>

theorem caching_is_transparent:
  assumes "answer_cache L" and "engine_reachable L opens F g"
  shows "fst (lookup L now ip g) =
      (if is_private ip then Some record_private else read_address (gi_readers g) ip (gi_collect_extra_fields g))
    \<and> fst (lookup_many L now ips g) =
      map (\<lambda>a. if is_private a then Some record_private
               else read_address (gi_readers g) a (gi_collect_extra_fields g)) ips"
  using answer_cache.lookup_answer [OF assms(1)] answer_cache.lookup_many_answers [OF assms(1)]
    reachable_valid [OF assms] by blast

section \<open>Refreshing again\<close>

lemma refresh_half_again:
  assumes "refresh_half opens F w limit half source = (half', source', moved, failed)"
  shows "refresh_half opens F w limit half' source' = (half', source', False, failed)"
  using assms
  by (auto simp: refresh_half_def reopen_def Let_def and_then_Inr_iff and_then_Inl_iff
      split: option.splits sum.splits if_splits)

text \<open>A refresh leaves nothing for a second one over the same files: every file that moved and opened
  is recorded, the second swaps nothing and clears nothing, and only what failed to open is tried, and
  reported, again.\<close>

theorem refresh_settles:
  "let (r, g') = refresh_if_changed L opens F w g in
   refresh_if_changed L opens F w g' = ((case r of Inl e \<Rightarrow> Inl e | Inr _ \<Rightarrow> Inr False), g')"
proof -
  obtain c cs cm cf where city: "refresh_half opens F w (gi_resident_max_bytes g) (rdr_city (gi_readers g))
      (gi_city_source g) = (c, cs, cm, cf)" by (metis prod_cases4)
  obtain a as am af where asn: "refresh_half opens F w (gi_resident_max_bytes g) (rdr_asn (gi_readers g))
      (gi_asn_source g) = (a, as, am, af)" by (metis prod_cases4)
  have kept: "c = rdr_city (gi_readers g)" if "\<not> cm"
    using city that by (auto simp: refresh_half_def split: option.splits sum.splits)
  have keptA: "a = rdr_asn (gi_readers g)" if "\<not> am"
    using asn that by (auto simp: refresh_half_def split: option.splits sum.splits)
  show ?thesis
    using refresh_half_again [OF city] refresh_half_again [OF asn] city asn kept keptA
    by (auto simp: refresh_if_changed_def Let_def swap_readers_def split: option.split)
qed

section \<open>How large an answer can be\<close>

definition extra_bounded :: "nat \<Rightarrow> geo_record \<Rightarrow> bool" where
  "extra_bounded n r \<longleftrightarrow>
     length (gr_extra r) \<le> n * MAX_EXTRA_FIELDS \<and> leaves_cost (gr_extra r) \<le> n * MAX_BYTES"

lemma extra_bounded_mono: "extra_bounded n r \<Longrightarrow> n \<le> m \<Longrightarrow> extra_bounded m r"
  by (auto simp: extra_bounded_def intro: order_trans mult_le_mono1)

lemma collected_bounded:
  assumes "extra_bounded n r"
  shows "extra_bounded (Suc n) (collected c res r)"
proof (cases c)
  case True
  obtain added where "collect_extra (mr_tree res) r = r\<lparr> gr_extra := gr_extra r @ added \<rparr>"
    "length added \<le> MAX_EXTRA_FIELDS" "leaves_cost added \<le> MAX_BYTES"
    using collect_extra_adds by blast
  with True assms show ?thesis
    by (simp add: collected_def extra_bounded_def leaves_cost_append)
next
  case False
  then show ?thesis using extra_bounded_mono [OF assms, of "Suc n"] by (simp add: collected_def)
qed

lemma collected_fields_bounded:
  assumes "extra_bounded n r" and "gr_extra r' = gr_extra r"
  shows "extra_bounded (Suc n) (collected c res r')"
  using assms by (intro collected_bounded) (simp add: extra_bounded_def)

lemma read_bounded:
  assumes "extra_bounded n r"
  shows "extra_bounded (Suc n) (snd (read_ipinfo rd ip r c))"
    and "extra_bounded (Suc n) (snd (read_city rd ip r c))" and "extra_bounded (Suc n) (snd (read_asn rd ip r c))"
proof -
  have up: "extra_bounded (Suc n) r" using assms by (rule extra_bounded_mono) simp
  show ipinfo: "extra_bounded (Suc n) (snd (read_ipinfo rd ip r c))"
    using assms up
    by (auto simp: read_ipinfo_def intro!: collected_fields_bounded split: sum.split option.split)
  show "extra_bounded (Suc n) (snd (read_city rd ip r c))" "extra_bounded (Suc n) (snd (read_asn rd ip r c))"
    using assms up ipinfo
    by (auto simp: read_city_def read_asn_def take_region_def intro!: collected_fields_bounded
        split: sum.split option.split)
qed

text \<open>An answer, and so a cache entry, holds no more source fields and bytes of them than twice the
  bounds of one record: one record's worth from each database.\<close>

theorem answer_is_bounded:
  assumes "read_address rs ip collect = Some r"
  shows "length (gr_extra r) \<le> 2 * MAX_EXTRA_FIELDS \<and> leaves_cost (gr_extra r) \<le> 2 * MAX_BYTES"
proof -
  have "extra_bounded 0 record_default" by (simp add: extra_bounded_def record_default_def leaves_cost_def)
  then have 1: "extra_bounded 1 (snd (read_half read_city (rdr_city rs) ip collect (False, record_default)))"
    using read_bounded(2) [of 0 record_default _ ip collect] extra_bounded_mono
    by (auto simp: read_half_def case_prod_unfold Let_def split: option.split)
  have "extra_bounded 2 (snd (read_half read_asn (rdr_asn rs) ip collect
      (read_half read_city (rdr_city rs) ip collect (False, record_default))))"
    using read_bounded(3) [OF 1, of _ ip collect] extra_bounded_mono [OF 1, of 2]
    by (simp add: read_half_def [of read_asn] case_prod_unfold Let_def numeral_2_eq_2 split: option.split)
  with assms show ?thesis
    by (auto simp: read_address_def case_prod_unfold Let_def extra_bounded_def split: if_splits)
qed

section \<open>An engine the properties apply to\<close>

text \<open>A city database that answers every address with one name, the bytes of the file it was opened from.\<close>

definition named_reader :: "str \<Rightarrow> mmdb_reader" where
  "named_reader name =
     \<lparr> rd_type = ''GeoLite2-City'',
       rd_lookup = (\<lambda>_. Inr \<lparr> mr_network = Some ''0.0.0.0/0'',
         mr_city = Inr (Some \<lparr> cd_city_name = Some name, cd_continent_code = None, cd_continent_name = None,
           cd_country_code = None, cd_country_name = None, cd_subdivisions = [], cd_postal_code = None,
           cd_time_zone = None, cd_latitude = None, cd_longitude = None, cd_metro_code = None,
           cd_accuracy_radius = None \<rparr>),
         mr_asn = Inr None, mr_ipinfo = Inr None, mr_tree = Inr (Some (MMap [(''isp'', MStr ''x'')] None)) \<rparr>) \<rparr>"

definition named_opener :: opener where
  "named_opener = (\<lambda>bytes. Inr (named_reader bytes))"

definition city_file :: "str \<Rightarrow> nat \<Rightarrow> world" where
  "city_file name t =
     \<lparr> files = [''db'' \<mapsto> \<lparr> content = name, mtime = t \<rparr>], clock = t, suppressions = (\<lambda>_. None), announced = [] \<rparr>"

lemmas read_eval =
  read_address_def read_half_def read_city_def is_ipinfo_def starts_with_def collected_def collect_extra_def
  leaves_of_def kept_push_def kept_new_def MAX_BYTES_def MAX_EXTRA_FIELDS_def child_path_def
  extra_push_def typed_def subdivision_field_def strip_prefix_def take_region_def record_default_def Let_def

definition city_engine :: "recent_cache geoip" where
  "city_engine =
     \<lparr> gi_readers = \<lparr> rdr_city = Some (Resident (named_reader ''Boxford'')), rdr_asn = None, rdr_generation = 0 \<rparr>,
       gi_generation = 0, gi_cache = (DEFAULT_CAPACITY, []),
       gi_city_source = Some \<lparr> so_path = ''db'', so_mtime = Some 5 \<rparr>, gi_asn_source = None, gi_max_age = None,
       gi_resident_max_bytes = DEFAULT_RESIDENT_MAX_BYTES, gi_collect_extra_fields = True \<rparr>"

lemma city_opened:
  "open_geoip recent_lib named_opener no_faults (city_file ''Boxford'' 5) \<lparr> dp_city = Some ''db'', dp_asn = None \<rparr>
     cache_config_default = Inr city_engine"
  by (simp add: open_geoip_def transposed_def open_source_def open_backing_def file_len_def file_length_def
      open_reader_def read_content_def no_faults_def city_file_def named_opener_def file_mtime_def
      cache_config_default_def DEFAULT_RESIDENT_MAX_BYTES_def recent_lib_def city_engine_def)

lemma public_address: "\<not> is_private (V4 0x08080808)"
  by code_simp

lemma city_engine_answers:
  "map_option city_name (read_address (gi_readers city_engine) ip c) = Some (Some ''Boxford'')"
  by (simp add: city_engine_def named_reader_def read_eval)

theorem caching_is_transparent_witness:
  "map_option city_name (fst (lookup recent_lib 9 (V4 0x08080808)
      (snd (lookup recent_lib 8 (V4 0x08080808) city_engine)))) = Some (Some ''Boxford'')"
proof -
  have "engine_reachable recent_lib named_opener no_faults (snd (lookup recent_lib 8 (V4 0x08080808) city_engine))"
    by (rule engine_reachable.asked [OF engine_reachable.opened [OF city_opened]])
  from caching_is_transparent [OF recent.answer_cache_axioms this, THEN conjunct1, of 9 "V4 0x08080808"]
    recent.lookup_keeps [of 8 "V4 0x08080808" city_engine] public_address
  have "fst (lookup recent_lib 9 (V4 0x08080808) (snd (lookup recent_lib 8 (V4 0x08080808) city_engine))) =
      read_address (gi_readers city_engine) (V4 0x08080808) (gi_collect_extra_fields city_engine)"
    by (simp del: is_private.simps)
  then show ?thesis by (simp add: city_engine_answers)
qed

theorem answer_is_bounded_witness:
  "\<exists>r. read_address (gi_readers city_engine) (V4 1) True = Some r \<and> length (gr_extra r) \<le> 1024"
proof -
  obtain r where r: "read_address (gi_readers city_engine) (V4 1) True = Some r"
    by (simp add: city_engine_def named_reader_def read_eval)
  from answer_is_bounded [OF r] r show ?thesis by (simp add: MAX_EXTRA_FIELDS_def)
qed

end
