(* ===== verification/Cache_Swap.thy ===== *)
theory Cache_Swap
  imports Enricher
begin

text \<open>
  The cache of \<open>src/geoip/enricher.rs\<close> under concurrency. A lookup that misses reads the readers and
  inserts its answer later; a swap stores the readers, publishes their generation and clears the
  cache, one step after another, under the lock a refresh holds. Steps of any number of lookups and
  of the one swap interleave freely, and the cache may drop any entry at any time. The lemmas show
  that a hit never serves an answer read from readers a finished swap has replaced, however late that
  answer was inserted.
\<close>

section \<open>The shared state\<close>

text \<open>Where the swap under way is: none, the readers stored, or their generation published too.\<close>

datatype swap_stage = Idle | Stored | Published

record shared =
  sh_readers :: reader_set
  sh_generation :: nat
  sh_cache :: "ip_addr \<Rightarrow> entry option"
  sh_reads :: "(ip_addr \<times> entry) list" \<comment> \<open>answers read and not yet inserted\<close>
  sh_stage :: swap_stage
  sh_installed :: "reader_set list" \<comment> \<open>every reader set so far, the last one first\<close>

definition shared_start :: "reader_set \<Rightarrow> shared" where
  "shared_start rs =
     \<lparr> sh_readers = rs\<lparr> rdr_generation := 0 \<rparr>, sh_generation = 0, sh_cache = (\<lambda>_. None), sh_reads = [],
       sh_stage = Idle, sh_installed = [rs\<lparr> rdr_generation := 0 \<rparr>] \<rparr>"

definition step_read :: "bool \<Rightarrow> nat \<Rightarrow> ip_addr \<Rightarrow> shared \<Rightarrow> shared" where
  "step_read collect now ip s =
     s\<lparr> sh_reads := (ip, \<lparr> en_loaded = now, en_generation = rdr_generation (sh_readers s),
                            en_record = read_address (sh_readers s) ip collect \<rparr>) # sh_reads s \<rparr>"

text \<open>The answer at a position among those read is inserted, or its placeholder was gone.\<close>

definition step_insert :: "nat \<Rightarrow> bool \<Rightarrow> shared \<Rightarrow> shared" where
  "step_insert i kept s =
     s\<lparr> sh_cache := (if kept then (sh_cache s)(fst (sh_reads s ! i) \<mapsto> snd (sh_reads s ! i)) else sh_cache s),
        sh_reads := take i (sh_reads s) @ drop (Suc i) (sh_reads s) \<rparr>"

definition step_store :: "reader_set \<Rightarrow> shared \<Rightarrow> shared" where
  "step_store rs s =
     (let stamped = rs\<lparr> rdr_generation := sh_generation s + 1 \<rparr> in
      s\<lparr> sh_readers := stamped, sh_stage := Stored, sh_installed := stamped # sh_installed s \<rparr>)"

definition step_publish :: "shared \<Rightarrow> shared" where
  "step_publish s = s\<lparr> sh_generation := rdr_generation (sh_readers s), sh_stage := Published \<rparr>"

definition step_clear :: "shared \<Rightarrow> shared" where
  "step_clear s = s\<lparr> sh_cache := (\<lambda>_. None), sh_stage := Idle \<rparr>"

inductive shared_step :: "bool \<Rightarrow> shared \<Rightarrow> shared \<Rightarrow> bool" for collect :: bool where
  reads: "shared_step collect s (step_read collect now ip s)"
| inserts: "i < length (sh_reads s) \<Longrightarrow> shared_step collect s (step_insert i kept s)"
| evicts: "shared_step collect s (s\<lparr> sh_cache := (sh_cache s)(ip := None) \<rparr>)"
| emptied: "shared_step collect s (s\<lparr> sh_cache := (\<lambda>_. None) \<rparr>)"
| stores: "sh_stage s = Idle \<Longrightarrow> shared_step collect s (step_store rs s)"
| publishes: "sh_stage s = Stored \<Longrightarrow> shared_step collect s (step_publish s)"
| clears: "sh_stage s = Published \<Longrightarrow> shared_step collect s (step_clear s)"

inductive_cases shared_stepE: "shared_step collect s s'"

inductive shared_reachable :: "bool \<Rightarrow> shared \<Rightarrow> bool" for collect :: bool where
  start: "shared_reachable collect (shared_start rs)"
| step: "shared_reachable collect s \<Longrightarrow> shared_step collect s s' \<Longrightarrow> shared_reachable collect s'"

text \<open>What a lookup that finds an entry serves without a read: an answer of the generation published.\<close>

definition served :: "shared \<Rightarrow> ip_addr \<Rightarrow> geo_record option option" where
  "served s ip =
     (case sh_cache s ip of
        None \<Rightarrow> None
      | Some e \<Rightarrow> if en_generation e = sh_generation s then Some (en_record e) else None)"

section \<open>The invariant\<close>

text \<open>An answer is what the reader set of its generation reads; sets are numbered as they were installed.\<close>

definition from_set :: "bool \<Rightarrow> reader_set list \<Rightarrow> ip_addr \<Rightarrow> entry \<Rightarrow> bool" where
  "from_set collect installed ip e \<longleftrightarrow>
     (\<exists>rs \<in> set installed. rdr_generation rs = en_generation e \<and> en_record e = read_address rs ip collect)"

definition numbered :: "reader_set list \<Rightarrow> bool" where
  "numbered installed \<longleftrightarrow> map rdr_generation installed = rev [0..<length installed]"

definition shared_inv :: "bool \<Rightarrow> shared \<Rightarrow> bool" where
  "shared_inv collect s \<longleftrightarrow>
     (\<exists>older. sh_installed s = sh_readers s # older)
     \<and> numbered (sh_installed s)
     \<and> sh_generation s + (if sh_stage s = Stored then 1 else 0) = rdr_generation (sh_readers s)
     \<and> (\<forall>ip e. sh_cache s ip = Some e \<longrightarrow> from_set collect (sh_installed s) ip e)
     \<and> (\<forall>(ip, e) \<in> set (sh_reads s). from_set collect (sh_installed s) ip e)"

lemma from_set_more: "from_set collect installed ip e \<Longrightarrow> from_set collect (rs # installed) ip e"
  by (auto simp: from_set_def)

lemma numbered_head: "numbered (rs # older) \<Longrightarrow> rdr_generation rs = length older"
  by (simp add: numbered_def)

lemma numbered_cons: "numbered older \<Longrightarrow> rdr_generation rs = length older \<Longrightarrow> numbered (rs # older)"
  by (simp add: numbered_def)

lemma numbered_unique:
  assumes "numbered installed" and "rs \<in> set installed" and "rs' \<in> set installed"
    and "rdr_generation rs = rdr_generation rs'"
  shows "rs = rs'"
proof -
  have "distinct (map rdr_generation installed)" using assms(1) by (simp add: numbered_def)
  with assms(2-4) show ?thesis by (auto simp: distinct_map inj_on_def)
qed

lemma start_inv: "shared_inv collect (shared_start rs)"
  by (simp add: shared_inv_def shared_start_def numbered_def)

lemma step_inv: "shared_step collect s s' \<Longrightarrow> shared_inv collect s \<Longrightarrow> shared_inv collect s'"
proof (induction rule: shared_step.induct)
  case (reads s now ip)
  then show ?case by (auto simp: shared_inv_def step_read_def from_set_def)
next
  case (inserts i s kept)
  then have "from_set collect (sh_installed s) (fst (sh_reads s ! i)) (snd (sh_reads s ! i))"
    by (fastforce simp: shared_inv_def dest: nth_mem)
  with inserts show ?case
    by (auto simp: shared_inv_def step_insert_def dest!: in_set_takeD in_set_dropD split: if_splits)
next
  case (stores s rs)
  then obtain older where older: "sh_installed s = sh_readers s # older" by (auto simp: shared_inv_def)
  with stores have "sh_generation s = length older" by (auto simp: shared_inv_def dest: numbered_head)
  with stores older show ?case
    by (auto simp: shared_inv_def step_store_def Let_def intro: numbered_cons from_set_more)
qed (auto simp: shared_inv_def step_publish_def step_clear_def)

lemma reachable_inv: "shared_reachable collect s \<Longrightarrow> shared_inv collect s"
  by (induction rule: shared_reachable.induct) (auto intro: start_inv step_inv)

section \<open>What a hit can serve\<close>

text \<open>C10: while no swap is between storing its readers and publishing their generation, an answer served
  from the cache is what the readers now installed answer, however the lookups, inserts, drops and
  swaps before it interleaved; within that window it is what the set they replace answers.\<close>

theorem no_hit_serves_a_replaced_reader:
  assumes "shared_reachable collect s" and "served s ip = Some answer"
  shows "if sh_stage s = Stored
    then \<exists>previous older. sh_installed s = sh_readers s # previous # older \<and> answer = read_address previous ip collect
    else answer = read_address (sh_readers s) ip collect"
proof -
  note inv = reachable_inv [OF assms(1), unfolded shared_inv_def]
  from assms(2) obtain e where e: "sh_cache s ip = Some e" "en_generation e = sh_generation s" "answer = en_record e"
    by (auto simp: served_def split: option.splits if_splits)
  with inv obtain rs where rs: "rs \<in> set (sh_installed s)" "rdr_generation rs = sh_generation s"
    "answer = read_address rs ip collect" by (force simp: from_set_def)
  obtain older where older: "sh_installed s = sh_readers s # older" using inv by blast
  show ?thesis
  proof (cases "sh_stage s = Stored")
    case False
    with inv older rs have "rs = sh_readers s" by (intro numbered_unique [of "sh_installed s"]) auto
    with False rs show ?thesis by simp
  next
    case True
    with inv older have len: "Suc (sh_generation s) = length older" using numbered_head by fastforce
    then obtain previous more_sets where prev: "older = previous # more_sets" by (cases older) auto
    have "numbered older" using inv older by (simp add: numbered_def)
    with prev len have "rdr_generation previous = sh_generation s" using numbered_head by fastforce
    with inv older prev rs have "rs = previous" by (intro numbered_unique [of "sh_installed s"]) auto
    with True older prev rs show ?thesis by auto
  qed
qed

text \<open>A lookup reads the city database, a swap replaces it and clears the cache, the answer read before is
  inserted late, and a second lookup reads again and replaces it.\<close>

definition city_set :: "str \<Rightarrow> reader_set" where
  "city_set name = \<lparr> rdr_city = Some (Resident (named_reader name)), rdr_asn = None, rdr_generation = 0 \<rparr>"

definition late_answer :: shared where
  "late_answer =
     step_insert 0 True (step_clear (step_publish (step_store (city_set ''Newtown'')
       (step_read False 3 (V4 1) (shared_start (city_set ''Boxford''))))))"

definition fresh_answer :: shared where
  "fresh_answer = step_insert 0 True (step_read False 4 (V4 1) late_answer)"

lemmas swap_eval =
  late_answer_def fresh_answer_def city_set_def shared_start_def step_read_def step_insert_def step_store_def
  step_publish_def step_clear_def served_def named_reader_def read_eval

lemma fresh_reachable: "shared_reachable False fresh_answer"
  unfolding fresh_answer_def late_answer_def
  by (intro shared_reachable.step [OF _ shared_step.inserts] shared_reachable.step [OF _ shared_step.reads]
      shared_reachable.step [OF _ shared_step.clears] shared_reachable.step [OF _ shared_step.publishes]
      shared_reachable.step [OF _ shared_step.stores] shared_reachable.start)
    (simp_all add: swap_eval)

lemma late_answer_is_not_served: "sh_cache late_answer (V4 1) \<noteq> None \<and> served late_answer (V4 1) = None"
  by (simp add: swap_eval)

theorem no_hit_serves_a_replaced_reader_witness:
  "\<exists>answer. served fresh_answer (V4 1) = Some answer \<and> map_option city_name answer = Some (Some ''Newtown'')
     \<and> answer = read_address (sh_readers fresh_answer) (V4 1) False"
proof -
  obtain answer where a: "served fresh_answer (V4 1) = Some answer" "map_option city_name answer = Some (Some ''Newtown'')"
    by (simp add: swap_eval)
  have "sh_stage fresh_answer = Idle" by (simp add: swap_eval)
  with no_hit_serves_a_replaced_reader [OF fresh_reachable a(1)] a show ?thesis by simp
qed

end
