(* ===== verification/Coalescing.thy ===== *)
theory Coalescing
  imports Cache_Swap "HOL-Library.Multiset"
begin

text \<open>
  Lookups of \<open>src/geoip/enricher.rs\<close> side by side, with the placeholders \<open>quick_cache\<close> hands out: a
  lookup that misses a cold address puts one in its place and reads the databases, and the lookups of
  that address meanwhile wait until the answer is in or the placeholder is gone. Each lookup is cut
  where another may come between: at the cache, at the readers, at the insert. The steps on the cache
  and the readers are those of theory \<open>Cache_Swap\<close>. The lemmas show that a cold address costs one
  read however many ask for it at once, that no lookup waits for one that is not under way, and what
  the hit and miss counters come to.
\<close>

section \<open>Lookups under way\<close>

text \<open>How a lookup came by its answer.\<close>

datatype how = Reserved | FromCache | FromDatabases

text \<open>
  A lookup: asked for, about to read (with the placeholder of its address or, for an answer no longer
  current, without one), read and not yet inserted, or answered.
\<close>

datatype lookup_task =
    Asked ip_addr
  | Loading ip_addr bool
  | Loaded ip_addr bool entry
  | Served ip_addr "geo_record option" how

record flight =
  fl_shared :: shared
  fl_placeholder :: "ip_addr \<Rightarrow> nat option" \<comment> \<open>the lookup whose guard stands for an address\<close>
  fl_tasks :: "lookup_task list"
  fl_hits :: nat
  fl_misses :: nat

definition flight_start :: "reader_set \<Rightarrow> ip_addr list \<Rightarrow> flight" where
  "flight_start rs ips =
     \<lparr> fl_shared = shared_start rs, fl_placeholder = (\<lambda>_. None), fl_tasks = map Asked ips, fl_hits = 0, fl_misses = 0 \<rparr>"

text \<open>Whether a cached answer is of the generation published and inside the age limit.\<close>

definition still_current :: "shared \<Rightarrow> nat option \<Rightarrow> nat \<Rightarrow> entry \<Rightarrow> bool" where
  "still_current s max_age now e \<longleftrightarrow>
     en_generation e = sh_generation s
     \<and> (case max_age of None \<Rightarrow> True | Some limit \<Rightarrow> now - en_loaded e \<le> limit)"

fun from_cache :: "lookup_task \<Rightarrow> bool" where
  "from_cache (Served ip r how) = (how = FromCache)"
| "from_cache _ = False"

text \<open>What the cache makes of a lookup. Reserved space is answered before the cache is touched.\<close>

definition looked_up :: "shared \<Rightarrow> nat option \<Rightarrow> nat \<Rightarrow> ip_addr \<Rightarrow> lookup_task" where
  "looked_up s max_age now ip =
     (if is_private ip then Served ip (Some record_private) Reserved
      else case sh_cache s ip of
        Some e \<Rightarrow> if still_current s max_age now e then Served ip (en_record e) FromCache else Loading ip False
      | None \<Rightarrow> Loading ip True)"

definition look :: "nat option \<Rightarrow> nat \<Rightarrow> nat \<Rightarrow> ip_addr \<Rightarrow> flight \<Rightarrow> flight" where
  "look max_age now i ip f =
     (let t = looked_up (fl_shared f) max_age now ip in
      f\<lparr> fl_tasks := (fl_tasks f)[i := t],
         fl_hits := (if from_cache t then fl_hits f + 1 else fl_hits f),
         fl_placeholder := (if t = Loading ip True then (fl_placeholder f)(ip \<mapsto> i) else fl_placeholder f) \<rparr>)"

definition read_databases :: "bool \<Rightarrow> nat \<Rightarrow> nat \<Rightarrow> ip_addr \<Rightarrow> bool \<Rightarrow> flight \<Rightarrow> flight" where
  "read_databases collect now i ip guarded f =
     (let s = step_read collect now ip (fl_shared f) in
      f\<lparr> fl_shared := s, fl_tasks := (fl_tasks f)[i := Loaded ip guarded (snd (hd (sh_reads s)))],
         fl_misses := fl_misses f + 1 \<rparr>)"

text \<open>
  The answer goes into the cache: a guard inserts where its placeholder still stands; without one the
  entry is replaced, or the cache declines. An insert takes the place of a placeholder.
\<close>

definition insert_answer :: "bool \<Rightarrow> nat \<Rightarrow> ip_addr \<Rightarrow> entry \<Rightarrow> flight \<Rightarrow> flight" where
  "insert_answer kept i ip e f =
     f\<lparr> fl_shared := step_insert (length (takeWhile (\<lambda>x. x \<noteq> (ip, e)) (sh_reads (fl_shared f)))) kept (fl_shared f),
        fl_placeholder := (if kept then (fl_placeholder f)(ip := None) else fl_placeholder f),
        fl_tasks := (fl_tasks f)[i := Served ip (en_record e) FromDatabases] \<rparr>"

definition emptied_cache :: "flight \<Rightarrow> flight" where
  "emptied_cache f =
     f\<lparr> fl_shared := (fl_shared f)\<lparr> sh_cache := (\<lambda>_. None) \<rparr>, fl_placeholder := (\<lambda>_. None) \<rparr>"

text \<open>The steps of the lookups themselves, which a quiet run consists of.\<close>

inductive lookup_step :: "bool \<Rightarrow> nat option \<Rightarrow> flight \<Rightarrow> flight \<Rightarrow> bool"
  for collect :: bool and max_age :: "nat option" where
  looks: "i < length (fl_tasks f) \<Longrightarrow> fl_tasks f ! i = Asked ip \<Longrightarrow> is_private ip \<or> fl_placeholder f ip = None \<Longrightarrow>
    lookup_step collect max_age f (look max_age now i ip f)"
| reads: "i < length (fl_tasks f) \<Longrightarrow> fl_tasks f ! i = Loading ip guarded \<Longrightarrow>
    lookup_step collect max_age f (read_databases collect now i ip guarded f)"
| inserts: "i < length (fl_tasks f) \<Longrightarrow> fl_tasks f ! i = Loaded ip guarded e \<Longrightarrow>
    (guarded \<Longrightarrow> kept = (fl_placeholder f ip = Some i)) \<Longrightarrow>
    lookup_step collect max_age f (insert_answer kept i ip e f)"

text \<open>What may come between: a cache emptied, an entry dropped, and the steps of a swap.\<close>

inductive flight_step :: "bool \<Rightarrow> nat option \<Rightarrow> flight \<Rightarrow> flight \<Rightarrow> bool"
  for collect :: bool and max_age :: "nat option" where
  lookups: "lookup_step collect max_age f f' \<Longrightarrow> flight_step collect max_age f f'"
| empties: "flight_step collect max_age f (emptied_cache f)"
| evicts: "flight_step collect max_age f
    (f\<lparr> fl_shared := (fl_shared f)\<lparr> sh_cache := (sh_cache (fl_shared f))(ip := None) \<rparr> \<rparr>)"
| stores: "sh_stage (fl_shared f) = Idle \<Longrightarrow>
    flight_step collect max_age f (f\<lparr> fl_shared := step_store rs (fl_shared f) \<rparr>)"
| publishes: "sh_stage (fl_shared f) = Stored \<Longrightarrow>
    flight_step collect max_age f (f\<lparr> fl_shared := step_publish (fl_shared f) \<rparr>)"
| clears: "sh_stage (fl_shared f) = Published \<Longrightarrow>
    flight_step collect max_age f
      (f\<lparr> fl_shared := step_clear (fl_shared f), fl_placeholder := (\<lambda>_. None) \<rparr>)"

section \<open>Counting lookups\<close>

definition count_tasks :: "(lookup_task \<Rightarrow> bool) \<Rightarrow> flight \<Rightarrow> nat" where
  "count_tasks P f = length (filter P (fl_tasks f))"

fun has_read :: "lookup_task \<Rightarrow> bool" where
  "has_read (Loaded ip guarded e) = True"
| "has_read (Served ip r how) = (how = FromDatabases)"
| "has_read _ = False"

fun task_ip :: "lookup_task \<Rightarrow> ip_addr" where
  "task_ip (Asked ip) = ip"
| "task_ip (Loading ip guarded) = ip"
| "task_ip (Loaded ip guarded e) = ip"
| "task_ip (Served ip r how) = ip"

fun is_served :: "lookup_task \<Rightarrow> bool" where
  "is_served (Served ip r how) = True"
| "is_served _ = False"

fun unsaved :: "lookup_task \<Rightarrow> (ip_addr \<times> entry) list" where
  "unsaved (Loaded ip guarded e) = [(ip, e)]"
| "unsaved _ = []"

lemma filter_update:
  assumes "i < length xs"
  shows "length (filter P (xs[i := x])) + of_bool (P (xs ! i)) = length (filter P xs) + of_bool (P x)"
  using assms
proof (induction xs arbitrary: i)
  case (Cons y ys)
  show ?case
  proof (cases i)
    case (Suc k)
    then show ?thesis using Cons(1) [of k] Cons(2) by simp
  qed simp
qed simp

lemma unsaved_update:
  assumes "i < length xs"
  shows "mset (concat (map unsaved (xs[i := x]))) + mset (unsaved (xs ! i)) =
    mset (concat (map unsaved xs)) + mset (unsaved x)"
  using assms
proof (induction xs arbitrary: i)
  case (Cons y ys)
  show ?case
  proof (cases i)
    case (Suc k)
    then have "mset (concat (map unsaved (ys[k := x]))) + mset (unsaved (ys ! k)) =
      mset (concat (map unsaved ys)) + mset (unsaved x)"
      using Cons by simp
    from arg_cong [OF this, of "(+) (mset (unsaved y))"] Suc show ?thesis by (simp add: add.assoc)
  qed simp
qed simp

section \<open>The invariant\<close>

definition counted :: "flight \<Rightarrow> bool" where
  "counted f \<longleftrightarrow>
     fl_hits f = count_tasks from_cache f \<and> fl_misses f = count_tasks has_read f
     \<and> mset (sh_reads (fl_shared f)) = mset (concat (map unsaved (fl_tasks f)))"

text \<open>A placeholder stands for a lookup that is about to read that address, or to insert it.\<close>

definition guarded_by_tasks :: "flight \<Rightarrow> bool" where
  "guarded_by_tasks f \<longleftrightarrow>
     (\<forall>ip i. fl_placeholder f ip = Some i \<longrightarrow>
        i < length (fl_tasks f) \<and> (fl_tasks f ! i = Loading ip True \<or> (\<exists>e. fl_tasks f ! i = Loaded ip True e)))"

text \<open>No lookup of a reserved address gets past the first step.\<close>

fun past_reserved :: "lookup_task \<Rightarrow> bool" where
  "past_reserved (Asked ip) = True"
| "past_reserved (Served ip r how) = (is_private ip \<longleftrightarrow> how = Reserved)"
| "past_reserved (Loading ip guarded) = (\<not> is_private ip)"
| "past_reserved (Loaded ip guarded e) = (\<not> is_private ip)"

definition flight_inv :: "flight \<Rightarrow> bool" where
  "flight_inv f \<longleftrightarrow> counted f \<and> guarded_by_tasks f \<and> list_all past_reserved (fl_tasks f)"

lemma start_flight_inv: "flight_inv (flight_start rs ips)"
  by (auto simp: flight_inv_def counted_def guarded_by_tasks_def flight_start_def count_tasks_def shared_start_def
      list_all_iff filter_empty_conv)

lemma saved_position:
  assumes "x \<in> set xs"
  shows "length (takeWhile (\<lambda>y. y \<noteq> x) xs) < length xs" "xs ! length (takeWhile (\<lambda>y. y \<noteq> x) xs) = x"
  using assms by (induction xs) auto

lemma without_position:
  assumes "x \<in> set xs"
  shows "add_mset x (mset (take (length (takeWhile (\<lambda>y. y \<noteq> x) xs)) xs @ drop (Suc (length (takeWhile (\<lambda>y. y \<noteq> x) xs))) xs)) = mset xs"
  using id_take_nth_drop [OF saved_position(1) [OF assms]] saved_position(2) [OF assms]
  by (metis mset_append mset.simps(2) union_mset_add_mset_right)

lemma loaded_unsaved:
  assumes "counted f" and "i < length (fl_tasks f)" and "fl_tasks f ! i = Loaded ip guarded e"
  shows "(ip, e) \<in> set (sh_reads (fl_shared f))"
proof -
  have "(ip, e) \<in> set (concat (map unsaved (fl_tasks f)))"
    using assms(2,3) nth_mem [OF assms(2)] by force
  then show ?thesis using assms(1) by (metis counted_def set_mset_mset)
qed

lemma count_update:
  assumes "i < length (fl_tasks f)" and "fl_tasks f' = (fl_tasks f)[i := t]"
  shows "count_tasks P f' + of_bool (P (fl_tasks f ! i)) = count_tasks P f + of_bool (P t)"
  using filter_update [OF assms(1), of P t] assms(2) by (simp add: count_tasks_def)

lemma guarded_update:
  assumes "guarded_by_tasks f" and "i < length (fl_tasks f)" and "fl_tasks f' = (fl_tasks f)[i := t]"
    and "\<And>ip k. fl_placeholder f' ip = Some k \<Longrightarrow> k = i \<Longrightarrow> t = Loading ip True \<or> (\<exists>e. t = Loaded ip True e)"
    and "\<And>ip k. fl_placeholder f' ip = Some k \<Longrightarrow> k \<noteq> i \<Longrightarrow> fl_placeholder f ip = Some k"
  shows "guarded_by_tasks f'"
  using assms by (fastforce simp: guarded_by_tasks_def nth_list_update)

lemma looked_up_outcome:
  "\<not> has_read (looked_up s max_age now ip)" "unsaved (looked_up s max_age now ip) = []"
  "past_reserved (looked_up s max_age now ip)" "looked_up s max_age now ip \<noteq> Loaded ip' guarded e"
  by (auto simp: looked_up_def split: option.split)

lemma past_reserved_update:
  "list_all past_reserved xs \<Longrightarrow> past_reserved t \<Longrightarrow> list_all past_reserved (xs[i := t])"
  by (auto simp: list_all_iff dest: set_update_subset_insert [THEN subsetD])

lemma no_placeholder:
  assumes "guarded_by_tasks f" and "fl_placeholder f ip = Some i"
  shows "fl_tasks f ! i \<noteq> Asked ip'" "fl_tasks f ! i = Loading ip' guarded \<Longrightarrow> ip' = ip \<and> guarded"
    "fl_tasks f ! i = Loaded ip' guarded e \<Longrightarrow> ip' = ip \<and> guarded"
  using assms(1) [unfolded guarded_by_tasks_def, rule_format, OF assms(2)] by auto

lemma look_inv:
  assumes inv: "flight_inv f" and i: "i < length (fl_tasks f)" "fl_tasks f ! i = Asked ip"
  shows "flight_inv (look max_age now i ip f)"
proof -
  let ?f = "look max_age now i ip f" and ?t = "looked_up (fl_shared f) max_age now ip"
  have t: "fl_tasks ?f = (fl_tasks f)[i := ?t]" by (simp add: look_def Let_def)
  have "counted ?f"
    using inv count_update [OF i(1) t, of from_cache] count_update [OF i(1) t, of has_read]
      unsaved_update [OF i(1), of ?t] looked_up_outcome i(2)
    by (simp add: flight_inv_def counted_def look_def Let_def count_tasks_def)
  moreover have "guarded_by_tasks ?f"
  proof (rule guarded_update [OF _ i(1) t])
    show guarded: "guarded_by_tasks f" using inv by (simp add: flight_inv_def)
    show "?t = Loading ip' True \<or> (\<exists>e. ?t = Loaded ip' True e)" if "fl_placeholder ?f ip' = Some k" "k = i" for ip' k
      using that no_placeholder(1) [OF guarded, of ip' i ip] i(2) by (auto simp: look_def Let_def split: if_splits)
    show "fl_placeholder f ip' = Some k" if "fl_placeholder ?f ip' = Some k" "k \<noteq> i" for ip' k
      using that by (auto simp: look_def Let_def split: if_splits)
  qed
  moreover have "list_all past_reserved (fl_tasks ?f)"
    using inv looked_up_outcome by (simp add: t flight_inv_def past_reserved_update)
  ultimately show ?thesis by (simp add: flight_inv_def)
qed

lemma read_inv:
  assumes inv: "flight_inv f" and i: "i < length (fl_tasks f)" "fl_tasks f ! i = Loading ip guarded"
  shows "flight_inv (read_databases collect now i ip guarded f)"
proof -
  let ?f = "read_databases collect now i ip guarded f"
  let ?e = "snd (hd (sh_reads (step_read collect now ip (fl_shared f))))"
  have t: "fl_tasks ?f = (fl_tasks f)[i := Loaded ip guarded ?e]" by (simp add: read_databases_def Let_def)
  have reads: "sh_reads (fl_shared ?f) = (ip, ?e) # sh_reads (fl_shared f)"
    by (simp add: read_databases_def Let_def step_read_def)
  have "counted ?f"
    using inv count_update [OF i(1) t, of from_cache] count_update [OF i(1) t, of has_read]
      unsaved_update [OF i(1), of "Loaded ip guarded ?e"] i(2) reads t
    by (simp add: flight_inv_def counted_def) (simp add: read_databases_def Let_def)
  moreover have "guarded_by_tasks ?f"
  proof (rule guarded_update [OF _ i(1) t])
    show guarded: "guarded_by_tasks f" using inv by (simp add: flight_inv_def)
    show "Loaded ip guarded ?e = Loading ip' True \<or> (\<exists>e. Loaded ip guarded ?e = Loaded ip' True e)"
      if "fl_placeholder ?f ip' = Some k" "k = i" for ip' k
      using that no_placeholder(2) [OF guarded _ i(2)] by (auto simp: read_databases_def Let_def)
  qed (simp add: read_databases_def Let_def)
  moreover have "past_reserved (Loading ip guarded)"
    using inv i nth_mem [OF i(1)] by (auto simp: flight_inv_def list_all_iff)
  then have "list_all past_reserved (fl_tasks ?f)"
    using inv by (simp add: t flight_inv_def past_reserved_update)
  ultimately show ?thesis by (simp add: flight_inv_def)
qed

lemma insert_inv:
  assumes inv: "flight_inv f" and i: "i < length (fl_tasks f)" "fl_tasks f ! i = Loaded ip guarded e"
    and kept: "guarded \<Longrightarrow> kept = (fl_placeholder f ip = Some i)"
  shows "flight_inv (insert_answer kept i ip e f)"
proof -
  let ?f = "insert_answer kept i ip e f"
  have t: "fl_tasks ?f = (fl_tasks f)[i := Served ip (en_record e) FromDatabases]" by (simp add: insert_answer_def)
  have "(ip, e) \<in> set (sh_reads (fl_shared f))"
    using loaded_unsaved [OF _ i] inv by (simp add: flight_inv_def)
  from without_position [OF this]
  have reads: "add_mset (ip, e) (mset (sh_reads (fl_shared ?f))) = mset (sh_reads (fl_shared f))"
    by (simp add: insert_answer_def step_insert_def)
  have same: "fl_hits ?f = fl_hits f" "fl_misses ?f = fl_misses f" by (simp_all add: insert_answer_def)
  have "counted ?f"
    using inv count_update [OF i(1) t, of from_cache] count_update [OF i(1) t, of has_read]
      unsaved_update [OF i(1), of "Served ip (en_record e) FromDatabases"] i(2) t reads same
    by (simp add: flight_inv_def counted_def) (metis add_mset_add_mset_same_iff)
  moreover have "guarded_by_tasks ?f"
  proof (rule guarded_update [OF _ i(1) t])
    show guarded: "guarded_by_tasks f" using inv by (simp add: flight_inv_def)
    show "Served ip (en_record e) FromDatabases = Loading ip' True \<or> (\<exists>e'. Served ip (en_record e) FromDatabases = Loaded ip' True e')"
      if "fl_placeholder ?f ip' = Some k" "k = i" for ip' k
      using that no_placeholder(3) [OF guarded _ i(2)] kept by (auto simp: insert_answer_def split: if_splits)
    show "fl_placeholder f ip' = Some k" if "fl_placeholder ?f ip' = Some k" for ip' k
      using that by (auto simp: insert_answer_def split: if_splits)
  qed
  moreover have "past_reserved (Loaded ip guarded e)"
    using inv i nth_mem [OF i(1)] by (auto simp: flight_inv_def list_all_iff)
  then have "list_all past_reserved (fl_tasks ?f)"
    using inv by (simp add: t flight_inv_def past_reserved_update)
  ultimately show ?thesis by (simp add: flight_inv_def)
qed

lemma lookup_step_inv: "lookup_step collect max_age f f' \<Longrightarrow> flight_inv f \<Longrightarrow> flight_inv f'"
proof (induction rule: lookup_step.induct)
  case (looks i f ip now)
  then show ?case by (intro look_inv)
next
  case (reads i f ip guarded now)
  then show ?case by (intro read_inv)
next
  case (inserts i f ip guarded e kept)
  from insert_inv [OF inserts(4,1,2,3)] show ?case .
qed

text \<open>Whatever leaves the lookups and the answers read alone keeps the invariant, placeholders dropped or not.\<close>

lemma flight_inv_frame:
  assumes "flight_inv f" and "fl_tasks f' = fl_tasks f" and "fl_hits f' = fl_hits f" and "fl_misses f' = fl_misses f"
    and "sh_reads (fl_shared f') = sh_reads (fl_shared f)"
    and "\<And>ip i. fl_placeholder f' ip = Some i \<Longrightarrow> fl_placeholder f ip = Some i"
  shows "flight_inv f'"
proof -
  have "guarded_by_tasks f'" using assms(1,2,6) unfolding flight_inv_def guarded_by_tasks_def by metis
  with assms show ?thesis by (simp add: flight_inv_def counted_def count_tasks_def)
qed

lemma flight_step_inv: "flight_step collect max_age f f' \<Longrightarrow> flight_inv f \<Longrightarrow> flight_inv f'"
proof (induction rule: flight_step.induct)
  case (lookups f f')
  then show ?case by (rule lookup_step_inv)
qed (erule flight_inv_frame; simp add: emptied_cache_def step_store_def step_publish_def step_clear_def Let_def)+

inductive flight_reaches :: "bool \<Rightarrow> nat option \<Rightarrow> reader_set \<Rightarrow> ip_addr list \<Rightarrow> flight \<Rightarrow> bool"
  for collect :: bool and max_age :: "nat option" and rs :: reader_set and ips :: "ip_addr list" where
  start: "flight_reaches collect max_age rs ips (flight_start rs ips)"
| step: "flight_reaches collect max_age rs ips f \<Longrightarrow> flight_step collect max_age f f' \<Longrightarrow>
    flight_reaches collect max_age rs ips f'"

lemma flight_invariant: "flight_reaches collect max_age rs ips f \<Longrightarrow> flight_inv f"
  by (induction rule: flight_reaches.induct) (auto intro: start_flight_inv flight_step_inv)

lemma flight_step_ips: "flight_step collect max_age f f' \<Longrightarrow> map task_ip (fl_tasks f') = map task_ip (fl_tasks f)"
proof (induction rule: flight_step.induct)
  case (lookups f f')
  then show ?case
    by (induction rule: lookup_step.induct)
      (auto simp: look_def looked_up_def read_databases_def insert_answer_def Let_def map_update list_update_same_conv
        split: option.split)
qed (simp_all add: emptied_cache_def)

lemma flight_ips: "flight_reaches collect max_age rs ips f \<Longrightarrow> map task_ip (fl_tasks f) = ips"
  by (induction rule: flight_reaches.induct) (simp_all add: flight_start_def comp_def flight_step_ips)

section \<open>Refinement\<close>

text \<open>Every step is a step of the cache under concurrency, or leaves the cache and the readers alone.\<close>

lemma flight_step_shared:
  assumes "flight_step collect max_age f f'" and "flight_inv f"
  shows "fl_shared f' = fl_shared f \<or> shared_step collect (fl_shared f) (fl_shared f')"
  using assms
proof (induction rule: flight_step.induct)
  case (lookups f f')
  then show ?case
  proof (induction rule: lookup_step.induct)
    case (reads i f ip guarded now)
    show ?case by (simp add: read_databases_def Let_def shared_step.reads)
  next
    case (inserts i f ip guarded e kept)
    then have "(ip, e) \<in> set (sh_reads (fl_shared f))"
      by (intro loaded_unsaved [where i = i and guarded = guarded]) (simp_all add: flight_inv_def)
    from saved_position(1) [OF this] show ?case
      by (simp add: insert_answer_def shared_step.inserts)
  qed (simp add: look_def Let_def)
qed (auto simp: emptied_cache_def intro: shared_step.intros)

lemma flight_is_shared: "flight_reaches collect max_age rs ips f \<Longrightarrow> shared_reachable collect (fl_shared f)"
proof (induction rule: flight_reaches.induct)
  case start
  show ?case by (simp add: flight_start_def shared_reachable.start)
next
  case (step f f')
  then show ?case
    using flight_step_shared [OF step(2) flight_invariant [OF step(1)]] by (auto intro: shared_reachable.step)
qed

section \<open>What the counters come to\<close>

text \<open>C40: at every moment the hits counted are the lookups answered from the cache and the misses counted
  are the database reads, one for each lookup that read; once every lookup has its answer the two add
  up to the addresses asked for that are not reserved.\<close>

theorem counters_add_up:
  assumes "flight_reaches collect max_age rs ips f"
  shows "fl_hits f = count_tasks from_cache f \<and> fl_misses f = count_tasks has_read f
    \<and> (list_all is_served (fl_tasks f) \<longrightarrow> fl_hits f + fl_misses f = length (filter (\<lambda>ip. \<not> is_private ip) ips))"
proof -
  have inv: "flight_inv f" by (rule flight_invariant [OF assms])
  have "length (filter from_cache ts) + length (filter has_read ts) = length (filter (\<lambda>ip. \<not> is_private ip) (map task_ip ts))"
    if "list_all is_served ts" "list_all past_reserved ts" for ts
    using that
  proof (induction ts)
    case (Cons t ts)
    then show ?case by (cases t) (auto intro: how.exhaust)
  qed simp
  from this [of "fl_tasks f"] inv show ?thesis
    by (simp add: flight_inv_def counted_def count_tasks_def flight_ips [OF assms])
qed

section \<open>Nobody waits for nothing\<close>

text \<open>A step of one lookup: every other stays where it is.\<close>

definition own_step :: "bool \<Rightarrow> nat option \<Rightarrow> nat \<Rightarrow> flight \<Rightarrow> flight \<Rightarrow> bool" where
  "own_step collect max_age k f f' \<longleftrightarrow>
     lookup_step collect max_age f f' \<and> (\<forall>i. i \<noteq> k \<longrightarrow> fl_tasks f' ! i = fl_tasks f ! i)"

lemma own_steps:
  "k < length (fl_tasks f) \<Longrightarrow> fl_tasks f ! k = Asked ip \<Longrightarrow> is_private ip \<or> fl_placeholder f ip = None \<Longrightarrow>
     own_step collect max_age k f (look max_age now k ip f)"
  "k < length (fl_tasks f) \<Longrightarrow> fl_tasks f ! k = Loading ip guarded \<Longrightarrow>
     own_step collect max_age k f (read_databases collect now k ip guarded f)"
  unfolding own_step_def
  by (rule conjI, (rule lookup_step.intros; blast),
      simp add: look_def read_databases_def insert_answer_def Let_def)+

lemma own_insert:
  "k < length (fl_tasks f) \<Longrightarrow> fl_tasks f ! k = Loaded ip guarded e \<Longrightarrow> (guarded \<Longrightarrow> kept = (fl_placeholder f ip = Some k)) \<Longrightarrow>
     own_step collect max_age k f (insert_answer kept k ip e f)"
  unfolding own_step_def
  by (rule conjI, rule lookup_step.inserts [where guarded = guarded]) (simp_all add: insert_answer_def)

lemma own_one: "own_step collect max_age k f f' \<Longrightarrow> (own_step collect max_age k ^^ Suc 0) f f'"
  by (auto simp: relcompp.simps)

lemma own_run_frame:
  "(own_step collect max_age k ^^ n) f f' \<Longrightarrow> i \<noteq> k \<Longrightarrow> fl_tasks f' ! i = fl_tasks f ! i"
  by (induction n arbitrary: f') (auto simp: own_step_def)

lemma own_run_length:
  "(own_step collect max_age k ^^ n) f f' \<Longrightarrow> length (fl_tasks f') = length (fl_tasks f)"
  by (induction n arbitrary: f')
    (auto simp: own_step_def look_def read_databases_def insert_answer_def Let_def elim!: lookup_step.cases)

lemma own_then: "own_step collect max_age k f g \<Longrightarrow> (own_step collect max_age k ^^ n) g f' \<Longrightarrow> (own_step collect max_age k ^^ Suc n) f f'"
  by (rule relpowp_Suc_I2)

text \<open>A lookup that finds no placeholder in its way is answered within three steps of its own.\<close>

lemma unhindered_lookup_ends:
  assumes i: "i < length (fl_tasks f)" "fl_tasks f ! i = Asked ip" and free: "fl_placeholder f ip = None"
  shows "\<exists>m f' r how. m \<le> 3 \<and> (own_step collect max_age i ^^ m) f f' \<and> fl_tasks f' ! i = Served ip r how"
proof -
  let ?f = "look max_age 0 i ip f" and ?t = "looked_up (fl_shared f) max_age 0 ip"
  have look: "own_step collect max_age i f ?f" by (rule own_steps(1) [OF i]) (simp add: free)
  have t: "fl_tasks ?f ! i = ?t" "i < length (fl_tasks ?f)" using i by (simp_all add: look_def Let_def)
  have "(\<exists>r how. ?t = Served ip r how) \<or> (\<exists>guarded. ?t = Loading ip guarded)"
    by (auto simp: looked_up_def split: option.split)
  then show ?thesis
  proof
    assume "\<exists>r how. ?t = Served ip r how"
    with t look show ?thesis by (intro exI [of _ 1] exI [of _ ?f]) auto
  next
    assume "\<exists>guarded. ?t = Loading ip guarded"
    then obtain guarded where load: "fl_tasks ?f ! i = Loading ip guarded" using t by auto
    let ?g = "read_databases collect 0 i ip guarded ?f"
    obtain e where e: "fl_tasks ?g ! i = Loaded ip guarded e" "i < length (fl_tasks ?g)"
      using t(2) by (simp add: read_databases_def Let_def)
    let ?h = "insert_answer (fl_placeholder ?g ip = Some i) i ip e ?g"
    have "own_step collect max_age i ?f ?g" by (rule own_steps(2) [OF t(2) load])
    moreover have "own_step collect max_age i ?g ?h" by (rule own_insert [OF e(2,1)]) simp
    ultimately have "(own_step collect max_age i ^^ Suc (Suc (Suc 0))) f ?h"
      using look by (intro own_then) simp_all
    moreover have "fl_tasks ?h ! i = Served ip (en_record e) FromDatabases" using e(2) by (simp add: insert_answer_def)
    ultimately show ?thesis by (metis eval_nat_numeral(3) numeral_2_eq_2 order_refl)
  qed
qed

text \<open>The lookup a placeholder stands for reads and inserts, in two steps at most.\<close>

lemma holder_reads_and_inserts:
  assumes f: "flight_inv f" and k: "fl_placeholder f ip = Some k"
  shows "\<exists>n f'. n \<le> 2 \<and> (own_step collect max_age k ^^ n) f f' \<and> fl_placeholder f' ip = None
    \<and> sh_cache (fl_shared f') ip \<noteq> None"
proof -
  have insert: "\<exists>f'. own_step collect max_age k g f' \<and> fl_placeholder f' ip = None \<and> sh_cache (fl_shared f') ip \<noteq> None"
    if g: "flight_inv g" "fl_placeholder g ip = Some k" "k < length (fl_tasks g)" "fl_tasks g ! k = Loaded ip True e" for g e
  proof -
    have "(ip, e) \<in> set (sh_reads (fl_shared g))" using g by (intro loaded_unsaved) (simp_all add: flight_inv_def)
    from saved_position(2) [OF this] have "sh_cache (fl_shared (insert_answer True k ip e g)) ip = Some e"
      by (simp add: insert_answer_def step_insert_def)
    moreover have "own_step collect max_age k g (insert_answer True k ip e g)" using g by (intro own_insert) auto
    ultimately show ?thesis by (intro exI [of _ "insert_answer True k ip e g"]) (simp add: insert_answer_def)
  qed
  have "guarded_by_tasks f" using f by (simp add: flight_inv_def)
  from this [unfolded guarded_by_tasks_def, rule_format, OF k]
  have here: "k < length (fl_tasks f)" and stage: "fl_tasks f ! k = Loading ip True \<or> (\<exists>e. fl_tasks f ! k = Loaded ip True e)"
    by blast+
  from stage show ?thesis
  proof
    assume load: "fl_tasks f ! k = Loading ip True"
    let ?g = "read_databases collect 0 k ip True f"
    have step: "own_step collect max_age k f ?g" by (rule own_steps(2) [OF here load])
    have "flight_inv ?g" by (rule read_inv [OF f here load])
    from insert [OF this] k here obtain f' where "own_step collect max_age k ?g f'"
      and last: "fl_placeholder f' ip = None" "sh_cache (fl_shared f') ip \<noteq> None"
      by (auto simp: read_databases_def Let_def)
    have "(own_step collect max_age k ^^ Suc (Suc 0)) f f'"
      by (rule own_then [OF step]) (rule own_one [OF \<open>own_step collect max_age k ?g f'\<close>])
    with last show ?thesis by (metis numeral_2_eq_2 order_refl)
  next
    assume "\<exists>e. fl_tasks f ! k = Loaded ip True e"
    with insert [OF f k here] obtain f' where "own_step collect max_age k f f'"
      and last: "fl_placeholder f' ip = None" "sh_cache (fl_shared f') ip \<noteq> None" by blast
    then have "(own_step collect max_age k ^^ Suc 0) f f'" by (intro own_one)
    with last show ?thesis by (metis one_le_numeral One_nat_def)
  qed
qed

text \<open>C11: a lookup that has to wait waits for another that is under way: from the very state it waits in,
  at most two steps of that one, and of no other, put its answer in the cache and take the placeholder
  away, and at most three of its own then answer the lookup that waited.\<close>

theorem waiting_lookup_can_go_on:
  assumes "flight_reaches collect max_age rs ips f"
    and "i < length (fl_tasks f)" and "fl_tasks f ! i = Asked ip" and "fl_placeholder f ip = Some k"
  shows "\<exists>n f' m f'' r how. n \<le> 2 \<and> (own_step collect max_age k ^^ n) f f'
    \<and> fl_placeholder f' ip = None \<and> sh_cache (fl_shared f') ip \<noteq> None \<and> fl_tasks f' ! i = Asked ip
    \<and> m \<le> 3 \<and> (own_step collect max_age i ^^ m) f' f'' \<and> fl_tasks f'' ! i = Served ip r how"
proof -
  have inv: "flight_inv f" by (rule flight_invariant [OF assms(1)])
  have other: "i \<noteq> k"
    using no_placeholder(1) [OF _ assms(4), of ip] inv assms(3) by (auto simp: flight_inv_def)
  obtain n f' where n: "n \<le> 2" "(own_step collect max_age k ^^ n) f f'"
    and gone: "fl_placeholder f' ip = None" "sh_cache (fl_shared f') ip \<noteq> None"
    using holder_reads_and_inserts [OF inv assms(4)] by blast
  have waits: "fl_tasks f' ! i = Asked ip" "i < length (fl_tasks f')"
    using own_run_frame [OF n(2) other] own_run_length [OF n(2)] assms(2,3) by simp_all
  from unhindered_lookup_ends [OF waits(2,1) gone(1)] n gone waits(1) show ?thesis by blast
qed

section \<open>A cold address is read once\<close>

inductive quiet_reaches :: "bool \<Rightarrow> reader_set \<Rightarrow> ip_addr list \<Rightarrow> flight \<Rightarrow> bool"
  for collect :: bool and rs :: reader_set and ips :: "ip_addr list" where
  start: "quiet_reaches collect rs ips (flight_start rs ips)"
| step: "quiet_reaches collect rs ips f \<Longrightarrow> lookup_step collect None f f' \<Longrightarrow> quiet_reaches collect rs ips f'"

lemma quiet_flight: "quiet_reaches collect rs ips f \<Longrightarrow> flight_reaches collect None rs ips f"
  by (induction rule: quiet_reaches.induct) (auto intro: flight_reaches.intros flight_step.lookups)

text \<open>Whether a lookup of an address went, or goes, to the databases.\<close>

fun begun :: "ip_addr \<Rightarrow> lookup_task \<Rightarrow> bool" where
  "begun ip (Asked ip') = False"
| "begun ip (Loading ip' guarded) = (ip' = ip)"
| "begun ip (Loaded ip' guarded e) = (ip' = ip)"
| "begun ip (Served ip' r how) = (ip' = ip \<and> how = FromDatabases)"

fun loading :: "ip_addr \<Rightarrow> lookup_task \<Rightarrow> bool" where
  "loading ip (Loading ip' guarded) = (ip' = ip)"
| "loading ip (Loaded ip' guarded e) = (ip' = ip)"
| "loading ip _ = False"

definition right_entry :: "bool \<Rightarrow> reader_set \<Rightarrow> shared \<Rightarrow> ip_addr \<Rightarrow> entry \<Rightarrow> bool" where
  "right_entry collect rs s ip e \<longleftrightarrow>
     en_generation e = sh_generation s \<and> en_record e = read_address rs ip collect"

fun right_task :: "bool \<Rightarrow> reader_set \<Rightarrow> shared \<Rightarrow> lookup_task \<Rightarrow> bool" where
  "right_task collect rs s (Loaded ip guarded e) = right_entry collect rs s ip e"
| "right_task collect rs s (Served ip r how) =
     (r = (if how = Reserved then Some record_private else read_address rs ip collect)
      \<and> (how = FromCache \<longrightarrow> sh_cache s ip \<noteq> None))"
| "right_task collect rs s _ = True"

text \<open>One where an address is cached or has a placeholder, none otherwise.\<close>

definition present :: "flight \<Rightarrow> ip_addr \<Rightarrow> nat" where
  "present f ip = (if sh_cache (fl_shared f) ip = None \<and> fl_placeholder f ip = None then 0 else 1)"

definition quiet_inv :: "bool \<Rightarrow> reader_set \<Rightarrow> flight \<Rightarrow> bool" where
  "quiet_inv collect rs f \<longleftrightarrow>
     (let s = fl_shared f in
      sh_readers s = rs\<lparr> rdr_generation := sh_generation s \<rparr>
      \<and> (\<forall>ip e. sh_cache s ip = Some e \<longrightarrow> right_entry collect rs s ip e \<and> fl_placeholder f ip = None)
      \<and> (\<forall>i ip. i < length (fl_tasks f) \<longrightarrow> loading ip (fl_tasks f ! i) \<longrightarrow> fl_placeholder f ip = Some i)
      \<and> (\<forall>ip. count_tasks (begun ip) f = present f ip)
      \<and> list_all (right_task collect rs s) (fl_tasks f))"

lemma right_task_update:
  "list_all (right_task collect rs s) xs \<Longrightarrow> right_task collect rs s t \<Longrightarrow> list_all (right_task collect rs s) (xs[i := t])"
  by (auto simp: list_all_iff dest: set_update_subset_insert [THEN subsetD])

lemma start_quiet: "quiet_inv collect rs (flight_start rs ips)"
  by (auto simp: quiet_inv_def flight_start_def shared_start_def count_tasks_def present_def list_all_iff filter_empty_conv Let_def)

lemma quiet_read_address: "read_address (rs\<lparr> rdr_generation := n \<rparr>) ip collect = read_address rs ip collect"
  by (simp add: read_address_def)

lemma quiet_update:
  assumes inv: "quiet_inv collect rs f" and i: "i < length (fl_tasks f)" and t: "fl_tasks f' = (fl_tasks f)[i := t]"
    and same: "sh_readers (fl_shared f') = sh_readers (fl_shared f)" "sh_generation (fl_shared f') = sh_generation (fl_shared f)"
    and grows: "\<And>ip. sh_cache (fl_shared f) ip \<noteq> None \<Longrightarrow> sh_cache (fl_shared f') ip \<noteq> None"
    and cached: "\<And>ip e. sh_cache (fl_shared f') ip = Some e \<Longrightarrow>
      right_entry collect rs (fl_shared f) ip e \<and> fl_placeholder f' ip = None"
    and load: "\<And>ip. loading ip t \<Longrightarrow> fl_placeholder f' ip = Some i"
    and others: "\<And>ip k. k \<noteq> i \<Longrightarrow> fl_placeholder f ip = Some k \<Longrightarrow> fl_placeholder f' ip = Some k"
    and counts: "\<And>ip. present f' ip + of_bool (begun ip (fl_tasks f ! i)) = present f ip + of_bool (begun ip t)"
    and right: "right_task collect rs (fl_shared f) t"
  shows "quiet_inv collect rs f'"
proof -
  have task: "right_task collect rs (fl_shared f) u \<Longrightarrow> right_task collect rs (fl_shared f') u" for u
    using grows by (cases u) (auto simp: same right_entry_def)
  have "count_tasks (begun ip) f' = present f' ip" for ip
    using inv count_update [OF i t, of "begun ip"] counts [of ip] by (simp add: quiet_inv_def Let_def)
  moreover have "fl_placeholder f' ip = Some k" if "k < length (fl_tasks f)" "loading ip (fl_tasks f' ! k)" for k ip
    using that inv load others by (cases "k = i") (auto simp: quiet_inv_def Let_def t i)
  moreover have "list_all (right_task collect rs (fl_shared f')) (fl_tasks f')"
    unfolding t
  proof (rule right_task_update)
    show "list_all (right_task collect rs (fl_shared f')) (fl_tasks f)"
      using inv task by (simp add: quiet_inv_def Let_def list_all_iff)
  qed (rule task [OF right])
  moreover have "right_entry collect rs (fl_shared f') ip e" if "sh_cache (fl_shared f') ip = Some e" for ip e
    using cached [OF that] by (simp add: right_entry_def same)
  ultimately show ?thesis
    using inv cached by (auto simp: quiet_inv_def Let_def same t)
qed

lemma quiet_facts:
  assumes "quiet_inv collect rs f"
  shows "sh_readers (fl_shared f) = rs\<lparr> rdr_generation := sh_generation (fl_shared f) \<rparr>"
    "sh_cache (fl_shared f) ip = Some e \<Longrightarrow> right_entry collect rs (fl_shared f) ip e \<and> fl_placeholder f ip = None"
    "i < length (fl_tasks f) \<Longrightarrow> loading ip (fl_tasks f ! i) \<Longrightarrow> fl_placeholder f ip = Some i"
    "count_tasks (begun ip) f = present f ip"
    "i < length (fl_tasks f) \<Longrightarrow> right_task collect rs (fl_shared f) (fl_tasks f ! i)"
  using assms by (auto simp: quiet_inv_def Let_def list_all_length)

lemma quiet_look:
  assumes inv: "quiet_inv collect rs f" and i: "i < length (fl_tasks f)" "fl_tasks f ! i = Asked ip"
    and free: "is_private ip \<or> fl_placeholder f ip = None"
  shows "quiet_inv collect rs (look None now i ip f)"
proof -
  let ?f = "look None now i ip f" and ?t = "looked_up (fl_shared f) None now ip"
  have t: "fl_tasks ?f = (fl_tasks f)[i := ?t]" and same: "fl_shared ?f = fl_shared f" by (simp_all add: look_def Let_def)
  note facts = quiet_facts [OF inv]
  consider (answered) r how where "?t = Served ip r how" "how \<noteq> FromDatabases" "right_task collect rs (fl_shared f) ?t"
    | (cold) "\<not> is_private ip" "sh_cache (fl_shared f) ip = None" "?t = Loading ip True"
  proof (cases "is_private ip")
    case True
    then show thesis by (intro answered [of "Some record_private" Reserved]) (simp_all add: looked_up_def)
  next
    case public: False
    show thesis
    proof (cases "sh_cache (fl_shared f) ip")
      case None
      with public show thesis by (intro cold) (simp_all add: looked_up_def)
    next
      case (Some e)
      with public facts(2) [OF Some] show thesis
        by (intro answered [of "en_record e" FromCache]) (simp_all add: looked_up_def still_current_def right_entry_def)
    qed
  qed
  then show ?thesis
  proof cases
    case answered
    then have "fl_placeholder ?f = fl_placeholder f" by (simp add: look_def Let_def)
    with answered facts(2) i(2) show ?thesis
      by (intro quiet_update [OF inv i(1) t]) (auto simp: same present_def)
  next
    case cold
    then have "fl_placeholder ?f = (fl_placeholder f)(ip \<mapsto> i)" by (simp add: look_def Let_def)
    moreover have "fl_placeholder f ip = None" using cold free by simp
    ultimately show ?thesis
      using cold facts(2) i(2) by (intro quiet_update [OF inv i(1) t]) (auto simp: same present_def split: if_splits)
  qed
qed

lemma quiet_read:
  assumes inv: "quiet_inv collect rs f" and i: "i < length (fl_tasks f)" "fl_tasks f ! i = Loading ip guarded"
  shows "quiet_inv collect rs (read_databases collect now i ip guarded f)"
proof -
  let ?f = "read_databases collect now i ip guarded f"
  let ?e = "snd (hd (sh_reads (step_read collect now ip (fl_shared f))))"
  have t: "fl_tasks ?f = (fl_tasks f)[i := Loaded ip guarded ?e]" by (simp add: read_databases_def Let_def)
  note facts = quiet_facts [OF inv]
  have "right_entry collect rs (fl_shared f) ip ?e"
    by (simp add: right_entry_def step_read_def facts(1) quiet_read_address)
  then show ?thesis
    using facts(2) facts(3) [OF i(1)] i(2)
    by (intro quiet_update [OF inv i(1) t]) (auto simp: read_databases_def step_read_def Let_def present_def)
qed

lemma quiet_insert:
  assumes inv: "quiet_inv collect rs f" and flight: "flight_inv f"
    and i: "i < length (fl_tasks f)" "fl_tasks f ! i = Loaded ip guarded e"
    and kept: "guarded \<Longrightarrow> kept = (fl_placeholder f ip = Some i)"
  shows "quiet_inv collect rs (insert_answer kept i ip e f)"
proof -
  let ?f = "insert_answer kept i ip e f"
  have t: "fl_tasks ?f = (fl_tasks f)[i := Served ip (en_record e) FromDatabases]" by (simp add: insert_answer_def)
  note facts = quiet_facts [OF inv]
  have place: "fl_placeholder f ip = Some i" using facts(3) [OF i(1)] i(2) by simp
  then have guarded using no_placeholder(3) [OF _ place i(2)] flight by (simp add: flight_inv_def)
  with kept place have kept by simp
  have "(ip, e) \<in> set (sh_reads (fl_shared f))" using loaded_unsaved [OF _ i] flight by (simp add: flight_inv_def)
  from saved_position(2) [OF this] \<open>kept\<close>
  have cache: "sh_cache (fl_shared ?f) = (sh_cache (fl_shared f))(ip \<mapsto> e)"
    by (simp add: insert_answer_def step_insert_def)
  have after: "fl_placeholder ?f = (fl_placeholder f)(ip := None)" using \<open>kept\<close> by (simp add: insert_answer_def)
  have right: "right_entry collect rs (fl_shared f) ip e" using facts(5) [OF i(1)] i(2) by simp
  have "sh_readers (fl_shared ?f) = sh_readers (fl_shared f)" "sh_generation (fl_shared ?f) = sh_generation (fl_shared f)"
    by (simp_all add: insert_answer_def step_insert_def)
  then show ?thesis
    by (rule quiet_update [OF inv i(1) t])
      (use facts(2) right place i(2) in \<open>auto simp: cache after present_def right_entry_def split: if_splits\<close>)
qed

lemma quiet_invariant: "quiet_reaches collect rs ips f \<Longrightarrow> quiet_inv collect rs f"
proof (induction rule: quiet_reaches.induct)
  case (step f f')
  note flight = flight_invariant [OF quiet_flight [OF step(1)]]
  from step(2,3) flight show ?case
  proof (induction rule: lookup_step.induct)
    case (looks i f ip now)
    from quiet_look [OF looks(4,1,2,3)] show ?case .
  next
    case (reads i f ip guarded now)
    from quiet_read [OF reads(3,1,2)] show ?case .
  next
    case (inserts i f ip guarded e kept)
    from quiet_insert [OF inserts(4,5,1,2,3)] show ?case .
  qed
qed (rule start_quiet)

lemma count_by_ip:
  "length (filter P ts) = (\<Sum>ip \<in> set (map task_ip ts). length (filter (\<lambda>t. P t \<and> task_ip t = ip) ts))"
proof -
  have "filter P (filter (\<lambda>t. task_ip t = ip) ts) = filter (\<lambda>t. P t \<and> task_ip t = ip) ts" for ip
    by (simp add: conj_commute)
  moreover have "length (filter P ts) = (\<Sum>ip \<in> A. length (filter (\<lambda>t. P t \<and> task_ip t = ip) ts))"
    if "finite A" "set (map task_ip ts) \<subseteq> A" for A
    using that
  proof (induction ts)
    case (Cons t ts)
    have "(\<Sum>ip \<in> A. length (filter (\<lambda>u. P u \<and> task_ip u = ip) (t # ts))) =
      (\<Sum>ip \<in> A. (if ip = task_ip t then of_bool (P t) else 0) + length (filter (\<lambda>u. P u \<and> task_ip u = ip) ts))"
      by (rule sum.cong) auto
    with Cons show ?case by (simp add: sum.distrib)
  qed simp
  ultimately show ?thesis by simp
qed

lemma filter_length_mono: "(\<And>x. P x \<Longrightarrow> Q x) \<Longrightarrow> length (filter P xs) \<le> length (filter Q xs)"
  by (induction xs) (auto simp: le_SucI)

text \<open>With every lookup answered, an address asked for cost one read, or none where it is reserved.\<close>

lemma reads_of_address:
  assumes f: "quiet_reaches collect rs ips f" and served: "list_all is_served (fl_tasks f)" and ip: "ip \<in> set ips"
  shows "length (filter (\<lambda>t. has_read t \<and> task_ip t = ip) (fl_tasks f)) = (if is_private ip then 0 else 1)"
proof -
  have inv: "quiet_inv collect rs f" and flight: "flight_inv f"
    using quiet_invariant [OF f] flight_invariant [OF quiet_flight [OF f]] .
  have begun: "(has_read t \<and> task_ip t = ip) = begun ip t" if "t \<in> set (fl_tasks f)" for t
    using served that by (cases t) (auto simp: list_all_iff)
  have reserved: "past_reserved t" if "t \<in> set (fl_tasks f)" for t
    using flight that by (auto simp: flight_inv_def list_all_iff)
  show ?thesis
  proof (cases "is_private ip")
    case True
    have "\<not> (has_read t \<and> task_ip t = ip)" if "t \<in> set (fl_tasks f)" for t
      using reserved [OF that] served that True by (cases t) (auto simp: list_all_iff)
    with True show ?thesis by (simp add: filter_empty_conv)
  next
    case False
    from ip obtain t where t: "t \<in> set (fl_tasks f)" "task_ip t = ip"
      using flight_ips [OF quiet_flight [OF f]] by (metis imageE list.set_map)
    obtain r how where how: "t = Served ip r how" "how \<noteq> Reserved"
      using served t reserved [OF t(1)] False by (cases t) (auto simp: list_all_iff)
    have "present f ip = 1"
    proof (cases "how = FromCache")
      case True
      then show ?thesis using inv t(1) how by (auto simp: quiet_inv_def Let_def list_all_iff present_def)
    next
      case False
      with how have "begun ip t" by (cases how) auto
      with t(1) have "count_tasks (begun ip) f \<noteq> 0" by (auto simp: count_tasks_def filter_empty_conv)
      then show ?thesis using quiet_facts(4) [OF inv, of ip] by (simp add: present_def split: if_splits)
    qed
    moreover have "filter (\<lambda>t. has_read t \<and> task_ip t = ip) (fl_tasks f) = filter (begun ip) (fl_tasks f)"
      by (rule filter_cong) (simp_all add: begun)
    ultimately show ?thesis
      using False quiet_facts(4) [OF inv, of ip] by (simp add: count_tasks_def)
  qed
qed

lemma reads_are_the_addresses:
  assumes f: "quiet_reaches collect rs ips f" and served: "list_all is_served (fl_tasks f)"
  shows "fl_misses f = card {ip \<in> set ips. \<not> is_private ip}"
proof -
  have "fl_misses f = length (filter has_read (fl_tasks f))"
    using flight_invariant [OF quiet_flight [OF f]] by (simp add: flight_inv_def counted_def count_tasks_def)
  also have "\<dots> = (\<Sum>ip \<in> set ips. length (filter (\<lambda>t. has_read t \<and> task_ip t = ip) (fl_tasks f)))"
    by (subst count_by_ip) (simp only: flight_ips [OF quiet_flight [OF f]])
  also have "\<dots> = (\<Sum>ip \<in> set ips. if is_private ip then 0 else 1)"
    by (rule sum.cong [OF refl]) (rule reads_of_address [OF f served])
  also have "\<dots> = card {ip \<in> set ips. \<not> is_private ip}"
    by (simp add: sum.If_cases Int_def)
  finally show ?thesis .
qed

lemma quiet_answers:
  assumes f: "quiet_reaches collect rs ips f" and i: "i < length ips" "fl_tasks f ! i = Served (ips ! i) r how"
  shows "r = (if is_private (ips ! i) then Some record_private else read_address rs (ips ! i) collect)"
proof -
  have i': "i < length (fl_tasks f)" using i(1) flight_ips [OF quiet_flight [OF f]] by (metis length_map)
  have "right_task collect rs (fl_shared f) (fl_tasks f ! i)" by (rule quiet_facts(5) [OF quiet_invariant [OF f] i'])
  moreover have "past_reserved (fl_tasks f ! i)"
    using flight_invariant [OF quiet_flight [OF f]] i' by (simp add: flight_inv_def list_all_length)
  ultimately show ?thesis using i(2) by auto
qed

text \<open>C9: while nothing else drops an answer, a cold address costs one database read, however many lookups
  ask for it at once and however they interleave: once all have their answers, the misses counted are
  the distinct addresses that are not reserved, and every answer is the databases'.\<close>

theorem cold_address_is_read_once:
  assumes "quiet_reaches collect rs ips f"
  shows "(\<forall>ip. count_tasks (\<lambda>t. has_read t \<and> task_ip t = ip) f \<le> 1)
    \<and> (list_all is_served (fl_tasks f) \<longrightarrow> fl_misses f = card {ip \<in> set ips. \<not> is_private ip})
    \<and> (\<forall>i < length ips. \<forall>r how. fl_tasks f ! i = Served (ips ! i) r how \<longrightarrow>
         r = (if is_private (ips ! i) then Some record_private else read_address rs (ips ! i) collect))"
proof (intro conjI allI impI)
  fix ip
  have "has_read t \<and> task_ip t = ip \<Longrightarrow> begun ip t" for t by (cases t) auto
  then have "count_tasks (\<lambda>t. has_read t \<and> task_ip t = ip) f \<le> count_tasks (begun ip) f"
    unfolding count_tasks_def by (rule filter_length_mono)
  also have "\<dots> \<le> 1" using quiet_facts(4) [OF quiet_invariant [OF assms], of ip] by (simp add: present_def)
  finally show "count_tasks (\<lambda>t. has_read t \<and> task_ip t = ip) f \<le> 1" .
qed (rule reads_are_the_addresses [OF assms] quiet_answers [OF assms]; assumption)+

section \<open>Lookups the properties apply to\<close>

text \<open>Two lookups of one cold address: the first puts the placeholder, and the second waits for its answer.\<close>

definition resolver :: ip_addr where "resolver = V4 0x08080808"

definition one_loading :: flight where
  "one_loading = look None 1 0 resolver (flight_start (city_set ''Boxford'') [resolver, resolver])"

definition box_entry :: entry where
  "box_entry = \<lparr> en_loaded = 3, en_generation = 0, en_record = read_address (city_set ''Boxford'') resolver False \<rparr>"

definition both_served :: flight where
  "both_served =
     look None 9 1 resolver (insert_answer True 0 resolver box_entry (read_databases False 3 0 resolver True one_loading))"

lemma resolver_public [simp]: "\<not> is_private resolver"
  by code_simp

lemmas flight_eval =
  both_served_def one_loading_def look_def looked_up_def read_databases_def insert_answer_def step_insert_def
  step_read_def flight_start_def shared_start_def still_current_def box_entry_def city_set_def Let_def quiet_read_address

lemma one_loading_eval:
  "fl_tasks one_loading = [Loading resolver True, Asked resolver]" "fl_placeholder one_loading resolver = Some 0"
  by (simp_all add: flight_eval)

lemma one_loading_reached: "quiet_reaches False (city_set ''Boxford'') [resolver, resolver] one_loading"
  unfolding one_loading_def
  by (intro quiet_reaches.step [OF quiet_reaches.start] lookup_step.looks) (simp_all add: flight_start_def)

lemma both_served_reached: "quiet_reaches False (city_set ''Boxford'') [resolver, resolver] both_served"
  unfolding both_served_def
  by (intro quiet_reaches.step [OF _ lookup_step.looks] quiet_reaches.step [OF _ lookup_step.inserts]
      quiet_reaches.step [OF _ lookup_step.reads] one_loading_reached)
    (simp_all add: flight_eval)

lemma both_served_eval:
  "list_all is_served (fl_tasks both_served)" "fl_hits both_served = 1"
  by (simp_all add: flight_eval)

theorem cold_address_is_read_once_witness: "fl_misses both_served = card {resolver}"
proof -
  have "{ip \<in> set [resolver, resolver]. \<not> is_private ip} = {resolver}" by auto
  with cold_address_is_read_once [OF both_served_reached] both_served_eval(1) show ?thesis by metis
qed

theorem counters_add_up_witness: "fl_hits both_served + fl_misses both_served = 2"
  using counters_add_up [OF quiet_flight [OF both_served_reached]] both_served_eval(1) by simp

theorem waiting_lookup_can_go_on_witness:
  "\<exists>n f' m f'' r how. n \<le> 2 \<and> (own_step False None 0 ^^ n) one_loading f' \<and> sh_cache (fl_shared f') resolver \<noteq> None
     \<and> m \<le> 3 \<and> (own_step False None 1 ^^ m) f' f'' \<and> fl_tasks f'' ! 1 = Served resolver r how"
  using waiting_lookup_can_go_on [OF quiet_flight [OF one_loading_reached], of 1 resolver 0, simplified one_loading_eval]
  by simp blast

end
