(* ===== verification/Telemetry.thy ===== *)
theory Telemetry
  imports Download Enricher
begin

text \<open>
  What the program reports to a metrics recorder: the \<open>telemetry\<close> modules of
  \<open>src/geoip/download/mod.rs\<close>, \<open>src/geoip/enricher.rs\<close> and \<open>src/table/mod.rs\<close> and the places that call
  them. A recorder keeps a count for each counter and the last value of each gauge; ages are in whole
  seconds, and how long a lookup took is not kept. The lemmas show that the age reported is that of the
  oldest file of what is about to be served, on every path and on no other, that each attempt is
  counted once under how it ended, and that the backing series name the backing in use.
\<close>

section \<open>A recorder\<close>

text \<open>A series is a name and its labels.\<close>

type_synonym series = "str \<times> (str \<times> str) list"

datatype measurement = Count series | Gauge series nat

record recorder =
  rec_counts :: "series \<Rightarrow> nat"
  rec_gauges :: "series \<Rightarrow> nat option"

definition recorder_empty :: recorder where
  "recorder_empty = \<lparr> rec_counts = (\<lambda>_. 0), rec_gauges = (\<lambda>_. None) \<rparr>"

fun record_one :: "measurement \<Rightarrow> recorder \<Rightarrow> recorder" where
  "record_one (Count s) r = r\<lparr> rec_counts := (rec_counts r)(s := rec_counts r s + 1) \<rparr>"
| "record_one (Gauge s v) r = r\<lparr> rec_gauges := (rec_gauges r)(s \<mapsto> v) \<rparr>"

definition record_all :: "measurement list \<Rightarrow> recorder \<Rightarrow> recorder" where
  "record_all ms r = fold record_one ms r"

section \<open>Acquisition\<close>

definition attempt_measured :: "str \<Rightarrow> str \<Rightarrow> measurement" where
  "attempt_measured kind result =
     Count (''enrichment_download_total'', [(''type'', ''geoip''), (''kind'', kind), (''result'', result)])"

definition written_at :: "io_faults \<Rightarrow> world \<Rightarrow> str \<Rightarrow> nat option" where
  "written_at F w p = (if F (Metadata p) = None then map_option mtime (files w p) else None)"

text \<open>\<open>build\<close> is the build time the MaxMind DB reader finds in a file's bytes.\<close>

definition built_at :: "(str \<Rightarrow> nat option) \<Rightarrow> io_faults \<Rightarrow> world \<Rightarrow> str \<Rightarrow> nat option" where
  "built_at build F w p = (case read_content F w p of Inl _ \<Rightarrow> None | Inr bs \<Rightarrow> build bs)"

definition age_of :: "(str \<Rightarrow> nat option) \<Rightarrow> io_faults \<Rightarrow> world \<Rightarrow> bool \<Rightarrow> str \<Rightarrow> nat option" where
  "age_of build F w from_source p =
     Option.bind
       (case (if from_source then built_at build F w p else None) of
          Some t \<Rightarrow> Some t | None \<Rightarrow> written_at F w p)
       (\<lambda>stamp. if stamp \<le> clock w then Some (clock w - stamp) else None)"

definition age_series :: "str \<Rightarrow> series" where
  "age_series kind = (''enrichment_database_age_seconds'', [(''type'', ''geoip''), (''kind'', kind)])"

definition age_measured ::
    "(str \<Rightarrow> nat option) \<Rightarrow> io_faults \<Rightarrow> world \<Rightarrow> str \<Rightarrow> str list \<Rightarrow> bool \<Rightarrow> measurement list" where
  "age_measured build F w kind ps from_source =
     (case List.map_filter (age_of build F w from_source) ps of
        [] \<Rightarrow> []
      | a # ages \<Rightarrow> [Gauge (age_series kind) (fold max ages a)])"

text \<open>Resolving a database, with what it reports on the way.\<close>

definition acquire_reporting ::
    "(str \<Rightarrow> nat option) \<Rightarrow> ('p, 'm, 'b) env \<Rightarrow> kind \<Rightarrow> geoip_config \<Rightarrow> database \<Rightarrow> world \<Rightarrow>
     (database option \<times> world) \<times> measurement list" where
  "acquire_reporting build V k c d w =
     (let (tried, w') = attempt_fetch (env_faults V) (first_file d) (asked_of V k c) (download_kind V k c) w;
          age = (\<lambda>ps. age_measured build (env_faults V) w' (kind_label k) ps (ad_age_from_source (gc_auto_download c)));
          stale = (if list_all (exists_file (env_faults V) w') (db_files d) then Some d else None);
          stale_age = (if list_all (exists_file (env_faults V) w') (db_files d) then age (db_files d) else [])
      in case tried of
           Ran (Inr ps) \<Rightarrow>
             ((Some \<lparr> db_format = db_format d, db_files = ps \<rparr>, w'), attempt_measured (kind_label k) ''ok'' # age ps)
         | Ran (Inl e) \<Rightarrow> ((stale, w'), attempt_measured (kind_label k) (outcome e) # stale_age)
         | Waiting _ \<Rightarrow> ((stale, w'), stale_age))"

definition resolve_reporting ::
    "(str \<Rightarrow> nat option) \<Rightarrow> ('p, 'm, 'b) env \<Rightarrow> kind \<Rightarrow> geoip_config \<Rightarrow> world \<Rightarrow>
     (database option \<times> world) \<times> measurement list" where
  "resolve_reporting build V k c w =
     (let auto = gc_auto_download c;
          age = (\<lambda>ps. age_measured build (env_faults V) w (kind_label k) ps (ad_age_from_source auto)) in
      case explicit_path k c of
        Some p \<Rightarrow> ((Some \<lparr> db_format = MmdbFormat, db_files = [p] \<rparr>, w), age [p])
      | None \<Rightarrow>
          (case select_source (kind_choice k (gc_provider c)) k of
             Inl e \<Rightarrow> ((None, w), [])
           | Inr None \<Rightarrow> ((None, w), [])
           | Inr (Some source) \<Rightarrow>
               let d = database_at (source_database source) (ad_data_dir auto)
               in if \<not> ad_enabled auto
                  then (if list_all (exists_file (env_faults V) w) (db_files d)
                        then ((Some d, w), age (db_files d)) else ((None, w), []))
                  else if list_all (\<lambda>p. is_fresh (env_faults V) w p (staleness_window source auto)) (db_files d)
                  then ((Some d, w), age (db_files d))
                  else acquire_reporting build V k c d w))"

section \<open>The lookup engine\<close>

definition backing_series :: "str \<Rightarrow> database_backing \<Rightarrow> series" where
  "backing_series kind b =
     (''enrichment_database_backing'', [(''type'', ''geoip''), (''kind'', kind), (''backing'', backing_label b)])"

text \<open>Every backing's series is set, so that none still claims the backing it replaced.\<close>

definition backing_report :: "str \<Rightarrow> database_backing \<Rightarrow> measurement list" where
  "backing_report kind chosen =
     map (\<lambda>candidate. Gauge (backing_series kind candidate) (if candidate = chosen then 1 else 0))
       [ResidentBacking, MappedBacking]"

definition backings_measured :: "database_backing option \<times> database_backing option \<Rightarrow> measurement list" where
  "backings_measured chosen =
     (case fst chosen of None \<Rightarrow> [] | Some b \<Rightarrow> backing_report ''city'' b)
     @ (case snd chosen of None \<Rightarrow> [] | Some b \<Rightarrow> backing_report ''asn'' b)"

text \<open>\<open>GeoIp::backings\<close>, and what \<open>Debug\<close> prints of an engine: the cache, and not the databases.\<close>

definition geoip_backings :: "'c geoip \<Rightarrow> database_backing option \<times> database_backing option" where
  "geoip_backings g = backings (gi_readers g)"

definition geoip_debug :: "'c cache_lib \<Rightarrow> 'c geoip \<Rightarrow> bool \<times> bool \<times> nat" where
  "geoip_debug L g =
     (rdr_city (gi_readers g) \<noteq> None, rdr_asn (gi_readers g) \<noteq> None, cl_len L (gi_cache g))"

definition hits_series :: series where "hits_series = (''enrichment_cache_hits_total'', [(''type'', ''geoip'')])"
definition misses_series :: series where "misses_series = (''enrichment_cache_misses_total'', [(''type'', ''geoip'')])"
definition size_series :: series where "size_series = (''enrichment_cache_size'', [(''type'', ''geoip'')])"

text \<open>The size is read on a miss, on a clear and on a swap, never on a hit.\<close>

definition lookup_measured :: "'c cache_lib \<Rightarrow> nat \<Rightarrow> ip_addr \<Rightarrow> 'c geoip \<Rightarrow> measurement list" where
  "lookup_measured L now ip g =
     (if is_private ip then []
      else
        let missed = [Count misses_series, Gauge size_series (cl_len L (gi_cache (snd (lookup L now ip g))))] in
        case cl_get L (gi_cache g) ip of
          Some e \<Rightarrow> if current g now e then [Count hits_series] else missed
        | None \<Rightarrow> missed)"

definition clear_measured :: "'c cache_lib \<Rightarrow> 'c geoip \<Rightarrow> measurement list" where
  "clear_measured L g = [Gauge size_series (cl_len L (gi_cache (clear_cache L g)))]"

definition swap_measured :: "'c cache_lib \<Rightarrow> reader_set \<Rightarrow> 'c geoip \<Rightarrow> measurement list" where
  "swap_measured L rs g =
     Gauge size_series (cl_len L (gi_cache (swap_readers L rs g))) # backings_measured (backings rs)"

text \<open>A refresh that moved nothing installs nothing, and reports nothing.\<close>

definition refresh_measured :: "'c cache_lib \<Rightarrow> opener \<Rightarrow> io_faults \<Rightarrow> world \<Rightarrow> 'c geoip \<Rightarrow> measurement list" where
  "refresh_measured L opens F w g =
     (let (city, _, city_moved, _) = refresh_half opens F w (gi_resident_max_bytes g) (rdr_city (gi_readers g)) (gi_city_source g);
          (asn, _, asn_moved, _) = refresh_half opens F w (gi_resident_max_bytes g) (rdr_asn (gi_readers g)) (gi_asn_source g)
      in if city_moved \<or> asn_moved
         then swap_measured L ((gi_readers g)\<lparr> rdr_city := city, rdr_asn := asn \<rparr>) g else [])"

text \<open>An engine and the recorder it has reported to since it was opened.\<close>

inductive measured ::
    "'c cache_lib \<Rightarrow> opener \<Rightarrow> io_faults \<Rightarrow> 'c geoip \<Rightarrow> recorder \<Rightarrow> bool"
  for L :: "'c cache_lib" and opens :: opener and F :: io_faults where
  opened: "open_geoip L opens F w paths cfg = Inr g \<Longrightarrow>
    measured L opens F g (record_all (backings_measured (backings (gi_readers g))) recorder_empty)"
| asked: "measured L opens F g r \<Longrightarrow>
    measured L opens F (snd (lookup L now ip g)) (record_all (lookup_measured L now ip g) r)"
| cleared: "measured L opens F g r \<Longrightarrow>
    measured L opens F (clear_cache L g) (record_all (clear_measured L g) r)"
| refreshed: "measured L opens F g r \<Longrightarrow>
    measured L opens F (snd (refresh_if_changed L opens F w g)) (record_all (refresh_measured L opens F w g) r)"

section \<open>Tables\<close>

text \<open>A table is held in memory, the one backing there is.\<close>

datatype table_backing = TableResident

fun table_backing_label :: "table_backing \<Rightarrow> str" where
  "table_backing_label TableResident = ''resident''"

definition table_backing_of :: "'m table \<Rightarrow> table_backing" where
  "table_backing_of t = TableResident"

definition table_backing_measured :: "str \<Rightarrow> table_backing \<Rightarrow> measurement" where
  "table_backing_measured name chosen =
     Gauge (''enrichment_table_backing'',
            [(''type'', ''table''), (''file'', name), (''backing'', table_backing_label chosen)]) 1"

definition ensure_table_measured ::
    "table_source \<Rightarrow> (table_error, 'm table) result \<times> world \<Rightarrow> measurement list" where
  "ensure_table_measured s r =
     (case fst r of Inl _ \<Rightarrow> [] | Inr t \<Rightarrow> [table_backing_measured (src_file s) (table_backing_of t)])"

section \<open>The age of what is served\<close>

text \<open>Reporting changes nothing of what is resolved.\<close>

lemma acquire_reporting_same: "fst (acquire_reporting build V k c d w) = acquire V k c d w"
  by (simp add: acquire_reporting_def acquire_def split_beta Let_def split: attempt.split sum.split)

lemma resolve_reporting_same: "fst (resolve_reporting build V k c w) = resolve_database V k c w"
  by (simp add: resolve_reporting_def resolve_database_def Let_def acquire_reporting_same split: option.split sum.split)

fun is_count :: "measurement \<Rightarrow> bool" where
  "is_count (Count s) = True"
| "is_count (Gauge s v) = False"

lemma age_measured_gauges [simp]:
  "filter is_count (age_measured build F w kind ps fs) = []"
  "filter (\<lambda>m. \<not> is_count m) (age_measured build F w kind ps fs) = age_measured build F w kind ps fs"
  by (simp_all add: age_measured_def split: list.split)

lemma attempt_counts [simp]: "is_count (attempt_measured kind result)"
  by (simp add: attempt_measured_def)

text \<open>The oldest file that has an age, and no report where none has.\<close>

lemma age_is_the_oldest:
  "age_measured build F w kind ps fs =
     (let ages = {a. \<exists>p \<in> set ps. age_of build F w fs p = Some a}
      in if ages = {} then [] else [Gauge (age_series kind) (Max ages)])"
proof -
  have ages: "set (List.map_filter (age_of build F w fs) ps) = {a. \<exists>p \<in> set ps. age_of build F w fs p = Some a}"
    by (auto simp: List.map_filter_def image_iff) (metis option.sel option.distinct(1))
  show ?thesis
  proof (cases "List.map_filter (age_of build F w fs) ps")
    case (Cons a as)
    with Max.set_eq_fold [of a as] show ?thesis by (simp add: age_measured_def Let_def flip: ages)
  qed (simp add: age_measured_def Let_def flip: ages)
qed

lemma acquire_reports:
  assumes "acquire_reporting build V k c d w = ((r, w'), ms)"
  shows "filter (\<lambda>m. \<not> is_count m) ms =
      (case r of None \<Rightarrow> [] | Some d' \<Rightarrow>
         age_measured build (env_faults V) w' (kind_label k) (db_files d') (ad_age_from_source (gc_auto_download c)))
    \<and> filter is_count ms =
      (case fst (attempt_fetch (env_faults V) (first_file d) (asked_of V k c) (download_kind V k c) w) of
         Ran (Inr ps) \<Rightarrow> [attempt_measured (kind_label k) ''ok'']
       | Ran (Inl e) \<Rightarrow> [attempt_measured (kind_label k) (outcome e)]
       | Waiting _ \<Rightarrow> [])"
  using assms
  by (auto simp: acquire_reporting_def split_beta Let_def split: attempt.splits sum.splits if_splits)

text \<open>C28: whichever way a database is resolved, the age reported is that of the oldest file of the set about
  to be served, as it then is, and none is reported where none is served; and an attempt is counted at
  most once, under the one kind it was for.\<close>

theorem age_reported_is_of_what_is_served:
  assumes "resolve_reporting build V k c w = ((r, w'), ms)"
  shows "(r, w') = resolve_database V k c w
    \<and> filter (\<lambda>m. \<not> is_count m) ms =
        (let ages = {a. \<exists>d p. r = Some d \<and> p \<in> set (db_files d)
                       \<and> age_of build (env_faults V) w' (ad_age_from_source (gc_auto_download c)) p = Some a}
         in if ages = {} then [] else [Gauge (age_series (kind_label k)) (Max ages)])
    \<and> (filter is_count ms = [] \<or> (\<exists>result. filter is_count ms = [attempt_measured (kind_label k) result]))"
proof -
  have "filter (\<lambda>m. \<not> is_count m) ms =
      (case r of None \<Rightarrow> [] | Some d' \<Rightarrow>
         age_measured build (env_faults V) w' (kind_label k) (db_files d') (ad_age_from_source (gc_auto_download c)))
    \<and> (filter is_count ms = [] \<or> (\<exists>result. filter is_count ms = [attempt_measured (kind_label k) result]))"
    using assms acquire_reports [of build V k c _ w r w' ms]
    by (auto simp: resolve_reporting_def Let_def split: option.splits sum.splits if_splits attempt.splits)
  then show ?thesis
    using resolve_reporting_same [of build V k c w] assms
    by (cases r) (simp_all add: age_is_the_oldest Bex_def)
qed

section \<open>The backing in use\<close>

lemma backing_series_eq [simp]: "backing_series k b = backing_series k' b' \<longleftrightarrow> k = k' \<and> b = b'"
  by (cases b; cases b') (auto simp: backing_series_def)

lemma other_series [simp]:
  "backing_series k b \<noteq> hits_series" "backing_series k b \<noteq> misses_series" "backing_series k b \<noteq> size_series"
  "hits_series \<noteq> backing_series k b" "misses_series \<noteq> backing_series k b" "size_series \<noteq> backing_series k b"
  by (simp_all add: backing_series_def hits_series_def misses_series_def size_series_def)

definition gauges_match :: "reader_set \<Rightarrow> recorder \<Rightarrow> bool" where
  "gauges_match rs r \<longleftrightarrow>
     (\<forall>b. rec_gauges r (backing_series ''city'' b) = map_option (\<lambda>x. if reported x = b then 1 else 0) (rdr_city rs)
        \<and> rec_gauges r (backing_series ''asn'' b) = map_option (\<lambda>x. if reported x = b then 1 else 0) (rdr_asn rs))"

lemma record_all_simps [simp]:
  "record_all [] r = r" "record_all (m # ms) r = record_all ms (record_one m r)"
  by (simp_all add: record_all_def)

lemma backings_recorded:
  "rec_gauges (record_all (backings_measured (backings rs)) r) (backing_series kind b) =
     (case (if kind = ''city'' then rdr_city rs else if kind = ''asn'' then rdr_asn rs else None) of
        Some x \<Rightarrow> Some (if reported x = b then 1 else 0)
      | None \<Rightarrow> rec_gauges r (backing_series kind b))"
proof -
  have report: "rec_gauges (record_all (backing_report k c) r) (backing_series kind b) =
    (if kind = k then Some (if c = b then 1 else 0) else rec_gauges r (backing_series kind b))" for k c r kind b
    by (cases b; cases c) (simp_all add: backing_report_def)
  have "record_all (xs @ ys) r = record_all ys (record_all xs r)" for xs ys r
    by (simp add: record_all_def)
  then show ?thesis
    by (auto simp: backings_measured_def backings_def report split: option.split)
qed

lemma refresh_swaps:
  "refresh_measured L opens F w g = [] \<and> gi_readers (snd (refresh_if_changed L opens F w g)) = gi_readers g
   \<or> (\<exists>rs. refresh_measured L opens F w g = swap_measured L rs g
        \<and> gi_readers (snd (refresh_if_changed L opens F w g)) = rs\<lparr> rdr_generation := gi_generation g + 1 \<rparr>
        \<and> (rdr_city rs = None \<longrightarrow> rdr_city (gi_readers g) = None) \<and> (rdr_asn rs = None \<longrightarrow> rdr_asn (gi_readers g) = None))"
proof -
  have kept: "half' = None \<Longrightarrow> half = None"
    if "refresh_half opens F w n half source = (half', source', moved, failed)" for half half' source source' moved failed n
    using that by (auto simp: refresh_half_def split: option.splits sum.splits)
  obtain city cs cm cf where city: "refresh_half opens F w (gi_resident_max_bytes g) (rdr_city (gi_readers g))
      (gi_city_source g) = (city, cs, cm, cf)" by (metis prod.collapse)
  obtain asn as am af where asn: "refresh_half opens F w (gi_resident_max_bytes g) (rdr_asn (gi_readers g))
      (gi_asn_source g) = (asn, as, am, af)" by (metis prod.collapse)
  let ?rs = "(gi_readers g)\<lparr> rdr_city := city, rdr_asn := asn \<rparr>"
  show ?thesis
  proof (cases "cm \<or> am")
    case True
    have "(rdr_city ?rs = None \<longrightarrow> rdr_city (gi_readers g) = None) \<and> (rdr_asn ?rs = None \<longrightarrow> rdr_asn (gi_readers g) = None)"
      using kept [OF city] kept [OF asn] by simp
    with True city asn show ?thesis
      by (intro disjI2 exI [of _ ?rs]) (simp add: refresh_measured_def refresh_if_changed_def swap_readers_def Let_def)
  qed (simp add: refresh_measured_def refresh_if_changed_def Let_def city asn)
qed

lemma measured_gauges: "measured L opens F g r \<Longrightarrow> gauges_match (gi_readers g) r"
proof (induction rule: measured.induct)
  case (opened w paths cfg g)
  show ?case by (simp add: gauges_match_def backings_recorded recorder_empty_def split: option.split)
next
  case (asked g r now ip)
  have "gi_readers (snd (lookup L now ip g)) = gi_readers g"
    by (auto simp: lookup_def Let_def split: option.split)
  with asked show ?case
    by (auto simp: gauges_match_def lookup_measured_def Let_def split: option.split)
next
  case (cleared g r)
  then show ?case by (simp add: gauges_match_def clear_measured_def clear_cache_def)
next
  case (refreshed g r w)
  from refresh_swaps [of L opens F w g] show ?case
  proof
    assume "refresh_measured L opens F w g = [] \<and> gi_readers (snd (refresh_if_changed L opens F w g)) = gi_readers g"
    with refreshed show ?thesis by simp
  next
    assume "\<exists>rs. refresh_measured L opens F w g = swap_measured L rs g
        \<and> gi_readers (snd (refresh_if_changed L opens F w g)) = rs\<lparr> rdr_generation := gi_generation g + 1 \<rparr>
        \<and> (rdr_city rs = None \<longrightarrow> rdr_city (gi_readers g) = None) \<and> (rdr_asn rs = None \<longrightarrow> rdr_asn (gi_readers g) = None)"
    with refreshed show ?thesis
      by (auto simp: gauges_match_def swap_measured_def backings_recorded split: option.split)
  qed
qed

text \<open>C36: after any lookups, clears and refreshes, and whichever backing a replaced file got, the backing
  series of a database say one of the backing it is now held in and zero of the other, and there is no
  series for a database that is not there.\<close>

theorem backing_gauges_name_the_backing_in_use:
  assumes "measured L opens F g r"
  shows "rec_gauges r (backing_series ''city'' b) =
      map_option (\<lambda>db. if reported db = b then 1 else 0) (rdr_city (gi_readers g))
    \<and> rec_gauges r (backing_series ''asn'' b) =
      map_option (\<lambda>db. if reported db = b then 1 else 0) (rdr_asn (gi_readers g))"
  using measured_gauges [OF assms] by (simp add: gauges_match_def)

section \<open>Reports the properties apply to\<close>

lemma city_measured:
  "measured recent_lib named_opener no_faults city_engine
     (record_all (backings_measured (backings (gi_readers city_engine))) recorder_empty)"
  by (rule measured.opened [OF city_opened])

theorem backing_gauges_name_the_backing_in_use_witness:
  "rec_gauges (record_all (backings_measured (backings (gi_readers city_engine))) recorder_empty)
     (backing_series ''city'' ResidentBacking) = Some 1"
  using backing_gauges_name_the_backing_in_use [OF city_measured, of ResidentBacking]
  by (simp add: city_engine_def)

text \<open>A file placed by its operator, written at 1000 and built at 400, as the reader states it.\<close>

definition placed_config :: geoip_config where
  "placed_config = geoip_config_default\<lparr> gc_city_db_path := Some ''city.mmdb'' \<rparr>"

theorem age_reported_is_of_what_is_served_witness:
  "filter (\<lambda>m. \<not> is_count m)
     (snd (resolve_reporting (\<lambda>_. Some 400) (demo_env (\<lambda>_. Inl ''connection refused'')) City placed_config
        ((one_file ''city.mmdb'' ''AU'')\<lparr> clock := 2000 \<rparr>))) = [Gauge (age_series ''city'') 1600]"
proof -
  let ?w = "(one_file ''city.mmdb'' ''AU'')\<lparr> clock := 2000 \<rparr>"
  let ?V = "demo_env (\<lambda>_. Inl ''connection refused'')"
  obtain r w' ms where r: "resolve_reporting (\<lambda>_. Some 400) ?V City placed_config ?w = ((r, w'), ms)"
    by (metis prod.collapse)
  have "resolve_database ?V City placed_config ?w = (Some \<lparr> db_format = MmdbFormat, db_files = [''city.mmdb''] \<rparr>, ?w)"
    by (simp add: resolve_database_def placed_config_def geoip_config_default_def)
  with age_reported_is_of_what_is_served [OF r]
  have "r = Some \<lparr> db_format = MmdbFormat, db_files = [''city.mmdb''] \<rparr>" "w' = ?w" by simp_all
  moreover have "age_of (\<lambda>_. Some 400) (env_faults ?V) ?w
      (ad_age_from_source (gc_auto_download placed_config)) ''city.mmdb'' = Some 1600"
    by (simp add: age_of_def built_at_def read_content_def placed_config_def geoip_config_default_def
        auto_download_default_def demo_env_def no_faults_def one_file_def)
  ultimately show ?thesis
    using age_reported_is_of_what_is_served [OF r] r by (simp add: Let_def)
qed

end
