(* ===== verification/Log_Lines.thy ===== *)
theory Log_Lines
  imports Extra Fetch
begin

text \<open>
  What the program says while it works, where what it says depends on more than the value at hand: the
  progress lines of a transfer (\<open>src/geoip/download/fetch.rs\<close>), at most one per interval, and the
  warning about a record that reached a bound (\<open>src/geoip/extra.rs\<close>), once per process. The lemmas
  show how many lines there can be and what they report, and that the warning is also given for a
  record of which nothing was dropped.
\<close>

section \<open>Progress of a transfer\<close>

definition PROGRESS_INTERVAL :: nat where "PROGRESS_INTERVAL = 30000" \<comment> \<open>milliseconds\<close>

text \<open>Elapsed time is in milliseconds, of which the rate counts whole seconds and at least one.\<close>

definition rate_kib_per_sec :: "nat \<Rightarrow> nat \<Rightarrow> nat" where
  "rate_kib_per_sec written elapsed =
     (let seconds = elapsed div 1000 in written div 1024 div (if seconds = 0 then 1 else seconds))"

record progress_line =
  pl_url :: str
  pl_downloaded :: nat
  pl_expected :: "nat option"
  pl_rate :: nat

text \<open>
  The lines of a body: its chunks each with the time it is written at, the time the body started, the
  time of the last line, and what the part file held before.
\<close>

fun progress_lines ::
    "('p, 'm, 'b) platform \<Rightarrow> str \<Rightarrow> nat option \<Rightarrow> nat \<Rightarrow> nat \<Rightarrow> nat \<Rightarrow> nat \<Rightarrow> (nat \<times> str) list \<Rightarrow>
     (nat \<times> progress_line) list" where
  "progress_lines E url expected carried began told written [] = []"
| "progress_lines E url expected carried began told written ((now, chunk) # chunks) =
     (let written' = written + length chunk in
      if PROGRESS_INTERVAL \<le> now - told
      then (now, \<lparr> pl_url = loggable E url, pl_downloaded = written', pl_expected = expected,
                   pl_rate = rate_kib_per_sec (written' - carried) (now - began) \<rparr>)
           # progress_lines E url expected carried began now written' chunks
      else progress_lines E url expected carried began told written' chunks)"

text \<open>Lines come an interval apart, and none sooner than one after the body began.\<close>

lemma progress_spacing:
  "sorted_wrt (\<lambda>a b. fst a + PROGRESS_INTERVAL \<le> fst b) (progress_lines E url expected carried began told written chunks)
   \<and> (\<forall>l \<in> set (progress_lines E url expected carried began told written chunks). told + PROGRESS_INTERVAL \<le> fst l)"
proof (induction E url expected carried began told written chunks rule: progress_lines.induct)
  case (2 E url expected carried began told written now chunk chunks)
  then show ?case
    by (cases "PROGRESS_INTERVAL \<le> now - told") (auto simp: Let_def PROGRESS_INTERVAL_def)
qed simp

lemma spaced_count:
  "sorted_wrt (\<lambda>a b. fst a + PROGRESS_INTERVAL \<le> fst b) ls \<Longrightarrow> (\<forall>l \<in> set ls. told + PROGRESS_INTERVAL \<le> fst l) \<Longrightarrow>
   (\<forall>l \<in> set ls. fst l \<le> now) \<Longrightarrow> told + length ls * PROGRESS_INTERVAL \<le> max told now"
proof (induction ls arbitrary: told)
  case (Cons l ls)
  from Cons.prems have "fst l + length ls * PROGRESS_INTERVAL \<le> max (fst l) now"
    by (intro Cons.IH) auto
  moreover have "max (fst l) now = now" using Cons.prems by simp
  ultimately show ?case using Cons.prems by simp
qed simp

lemma progress_times:
  "l \<in> set (progress_lines E url expected carried began told written chunks) \<Longrightarrow> fst l \<in> set (map fst chunks)"
  by (induction E url expected carried began told written chunks rule: progress_lines.induct)
    (auto simp: Let_def split: if_splits)

lemma rate_bound: "rate_kib_per_sec n ms * (ms div 1000) * 1024 \<le> n"
proof (cases "ms div 1000 = 0")
  case False
  have "n div 1024 div (ms div 1000) * (ms div 1000) \<le> n div 1024" by (rule div_times_less_eq_dividend)
  also have "n div 1024 * 1024 \<le> n" by (rule div_times_less_eq_dividend)
  finally show ?thesis using False by (simp add: rate_kib_per_sec_def Let_def)
qed simp

lemma progress_reports:
  "carried \<le> written \<Longrightarrow> (now, l) \<in> set (progress_lines E url expected carried began told written chunks) \<Longrightarrow>
   written \<le> pl_downloaded l \<and> pl_downloaded l \<le> written + length (concat (map snd chunks))
   \<and> pl_rate l * ((now - began) div 1000) * 1024 \<le> pl_downloaded l - carried
   \<and> pl_url l = loggable E url \<and> pl_expected l = expected"
proof (induction E url expected carried began told written chunks rule: progress_lines.induct)
  case (2 E url expected carried began told written at chunk chunks)
  show ?case
  proof (cases "PROGRESS_INTERVAL \<le> at - told")
    case False
    with 2(2) [OF refl False] 2(3,4) show ?thesis by (auto simp: Let_def)
  next
    case True
    with 2(1) [OF refl True] 2(3,4) show ?thesis by (auto simp: Let_def rate_bound)
  qed
qed simp

text \<open>
  However a body arrives, there is at most one line for each interval it took, each reports what was
  written by then and a rate no higher than the one it came at, and none shows the URL's query values.
\<close>

theorem progress_is_bounded:
  assumes "carried \<le> written" and "\<forall>(at, chunk) \<in> set chunks. began \<le> at \<and> at \<le> ended" and "began \<le> ended"
  shows "length (progress_lines E url expected carried began began written chunks) \<le> (ended - began) div PROGRESS_INTERVAL
    \<and> (\<forall>(now, l) \<in> set (progress_lines E url expected carried began began written chunks).
         pl_downloaded l \<le> written + length (concat (map snd chunks))
         \<and> pl_rate l * ((now - began) div 1000) * 1024 \<le> pl_downloaded l - carried
         \<and> pl_url l = loggable E url)"
proof
  let ?ls = "progress_lines E url expected carried began began written chunks"
  have "\<forall>l \<in> set ?ls. fst l \<le> ended" using assms(2) progress_times by fastforce
  with spaced_count [of ?ls began ended] progress_spacing [of E url expected carried began began written chunks] assms(3)
  have "began + length ?ls * PROGRESS_INTERVAL \<le> ended" by auto
  then have "length ?ls * PROGRESS_INTERVAL \<le> ended - began" by simp
  then show "length ?ls \<le> (ended - began) div PROGRESS_INTERVAL"
    by (simp add: less_eq_div_iff_mult_less_eq PROGRESS_INTERVAL_def)
qed (use progress_reports [OF assms(1)] in fastforce)

section \<open>Records that reached a bound\<close>

definition kept_is_full :: "kept \<Rightarrow> bool" where
  "kept_is_full k = kp_full k"

text \<open>\<open>TRUNCATED\<close> and \<open>truncated\<close>: whether the line has been said, and the line where it is said now.\<close>

definition truncated :: "'a \<Rightarrow> bool \<Rightarrow> bool \<times> 'a list" where
  "truncated line said = (True, if said then [] else [line])"

definition collect_warning :: "'a \<Rightarrow> (str, mmdb_value option) result \<Rightarrow> bool \<Rightarrow> bool \<times> 'a list" where
  "collect_warning line decoded said =
     (case decoded of
        Inl e \<Rightarrow> (said, [])
      | Inr None \<Rightarrow> (said, [])
      | Inr (Some v) \<Rightarrow>
          (case leaves_of v of
             Inl e \<Rightarrow> (said, [])
           | Inr k \<Rightarrow> if kept_is_full k then truncated line said else (said, [])))"

fun collect_warnings :: "('a \<times> (str, mmdb_value option) result) list \<Rightarrow> bool \<Rightarrow> bool \<times> 'a list" where
  "collect_warnings [] said = (said, [])"
| "collect_warnings ((line, d) # ds) said =
     (let (said', ls) = collect_warning line d said; (said'', ls') = collect_warnings ds said' in (said'', ls @ ls'))"

definition reaches_bound :: "(str, mmdb_value option) result \<Rightarrow> bool" where
  "reaches_bound d \<longleftrightarrow> (\<exists>v k. d = Inr (Some v) \<and> leaves_of v = Inr k \<and> kept_is_full k)"

lemma collect_warning_cases:
  "collect_warning line d said = (if reaches_bound d then truncated line said else (said, []))"
  by (auto simp: collect_warning_def reaches_bound_def split: sum.split option.split)

text \<open>The first record that reaches a bound is named, and no other, however many there are.\<close>

theorem truncation_is_said_once:
  "collect_warnings ds said =
     (said \<or> (\<exists>d \<in> set ds. reaches_bound (snd d)),
      if said then [] else map fst (take 1 (filter (\<lambda>d. reaches_bound (snd d)) ds)))"
  by (induction ds said rule: collect_warnings.induct)
    (auto simp: collect_warning_cases truncated_def Let_def split: prod.split)

text \<open>
  A record of exactly as many fields as are kept reaches the bound with its last field: nothing of it
  is dropped, and it is called truncated.
\<close>

theorem whole_record_is_called_truncated:
  assumes "sound v" and "length (all_leaves v []) = MAX_EXTRA_FIELDS" and "leaves_cost (all_leaves v []) \<le> MAX_BYTES"
  shows "reaches_bound (Inr (Some v)) \<and> (\<exists>k. leaves_of v = Inr k \<and> kp_fields k = all_leaves v [])"
proof -
  define k where "k = feed (all_leaves v []) kept_new"
  have k: "leaves_of v = Inr k"
    using walk_feeds(1) [OF assms(1), of kept_new "[]"] by (simp add: leaves_of_def kept_new_def k_def)
  from feed_prefix [OF kept_new_ok, of "all_leaves v []"] obtain n where n: "n \<le> length (all_leaves v [])" "kept_ok k"
    "kp_fields k = take n (all_leaves v [])"
    "n < length (all_leaves v []) \<longrightarrow> n = MAX_EXTRA_FIELDS \<or> MAX_BYTES < leaves_cost (take (Suc n) (all_leaves v []))"
    by (auto simp: k_def kept_new_def)
  have "leaves_cost (take m (all_leaves v [])) \<le> leaves_cost (all_leaves v [])" for m
    using leaves_cost_append [of "take m (all_leaves v [])" "drop m (all_leaves v [])"] by simp
  with n assms(2,3) have "n = length (all_leaves v [])" by (metis le_neq_implies_less le_trans not_le)
  with n assms(2) have all: "kp_fields k = all_leaves v []" and "kp_full k" by (auto simp: kept_ok_def)
  with k show ?thesis by (auto simp: reaches_bound_def kept_is_full_def)
qed

end
