(* ===== verification/Spec2Isabelle.thy ===== *)
theory Spec2Isabelle
  imports Csv_Table Mmdb_Wire Attempts Table_Rows Requests Config_Wire Transfer_Lock Coalescing Telemetry Log_Lines
begin

text \<open>
  A verification development for \<open>factbook\<close>, a crate that fetches reference data, checks it, puts it
  in place and answers lookups from it. It has two halves over one download path: the table half
  (\<open>src/table\<close>), CSV or JSON rows held in memory behind an index, and the geo half (\<open>src/geoip\<close>),
  MaxMind databases behind a cache. Paths below are under \<open>src/src\<close> of the repository's root.

  The parts and the theories that model them, in the order they import each other.
    \<^item> \<open>Prelude\<close>: results as sums, saturating 64-bit arithmetic, text as UTF-8 bytes, decimal forms,
      \<open>trim\<close>, splitting, folds that stop at the first error (locale \<open>checked_step\<close>).
    \<^item> \<open>Download_Error\<close>: \<open>GeoIpDownloadError\<close>, its texts, \<open>is_permanent\<close>, \<open>outcome\<close>.
    \<^item> \<open>Table_Types\<close>: \<open>table/config.rs\<close> and \<open>TableError\<close>. \<open>Csv_Reader\<close> and \<open>Json_Reader\<close>: \<open>table/parse.rs\<close>;
      the CSV machine is \<open>csv_byte\<close>, one byte at a time over the record \<open>csv\<close>, the JSON walk is
      \<open>visit_element\<close>, one element at a time over the record \<open>walk\<close>. What \<open>serde_json\<close> makes of the
      bytes of an element within some room is a parameter (\<open>element\<close>, \<open>document\<close>); the meter in front
      of it is \<open>metered_read\<close>, over any reader that keeps \<open>Read\<close>'s contract (locale \<open>byte_source\<close>).
      \<open>Csv_Language\<close> states the language of CSV files apart from the machine that reads them, \<open>Csv_Table\<close>
      weighs a file by the language, byte by byte, and follows it into a table and its answers.
    \<^item> \<open>Ip_Addr\<close>: addresses as words, the standard library's parser, \<open>geoip/private.rs\<close>.
    \<^item> \<open>Table_Index\<close>: \<open>table/mod.rs\<close>, its key column, its \<open>Budget\<close>, \<open>build_table\<close> and the lookups. Hash
      maps are association lists, what an allocator grows a list or map to is the record \<open>allocator\<close>,
      the \<open>prefix_trie\<close> map and \<open>ipnet\<close> are the record \<open>prefix_lib\<close> with its laws in the locale
      \<open>prefix_library\<close>, interpreted on a finite table of ranges.
    \<^item> \<open>Table_Query\<close>: \<open>table/query.rs\<close>; \<open>find_matches\<close> narrows by the index, \<open>next_match\<close> walks, \<open>next_field\<close>
      projects. Unicode case folding and \<open>chrono\<close>'s two date readers are the record \<open>text_lib\<close>.
      \<open>Table_Rows\<close> has the iterators over rows, matches and columns under one contract (locale
      \<open>sized_iterator\<close>).
    \<^item> \<open>World\<close>: the files of the data directory with their contents and times, the clock, and the two
      process-wide tables of \<open>geoip/download/cooldown.rs\<close>, as the record \<open>world\<close>; which file operation
      fails, and how, is a function the caller of the model chooses (\<open>io_faults\<close>).
    \<^item> \<open>Cooldown\<close>: \<open>geoip/download/cooldown.rs\<close>. \<open>Config\<close>: \<open>geoip/config.rs\<close> and \<open>secret.rs\<close>. \<open>Source\<close>:
      \<open>geoip/download/source.rs\<close>, the provider table row by row. \<open>Verify\<close>: \<open>geoip/download/verify.rs\<close>;
      the URL parser, the decoders, the digest and the MaxMind reader are the record \<open>platform\<close>.
    \<^item> \<open>Fetch\<close>: \<open>geoip/download/fetch.rs\<close>; \<open>fetch_transfer\<close> is \<open>Transfer::fetch\<close> from the lock to the
      rename, its server any function from a request to a reply whose body arrives in chunks, the last
      of which may be a failure. \<open>Download\<close>: the rest of \<open>geoip/download/mod.rs\<close> and \<open>Table::ensure\<close>.
    \<^item> \<open>Requests\<close>: the requests of \<open>fetch.rs\<close> as they are sent, credential attached. \<open>Config_Wire\<close>: a
      configuration and a table source as serde writes and reads them. \<open>Log_Lines\<close>: the progress lines of
      a transfer and the warning \<open>extra.rs\<close> gives once.
    \<^item> \<open>Transfer_Steps\<close>: \<open>Transfer::fetch\<close> again, cut at its awaits and at the file operations of its
      blocking step (\<open>advance\<close> from one \<open>phase\<close> to the next), with a caller dropped (\<open>cancel\<close>) and a
      process that dies (\<open>crash\<close>). \<open>Transfer_Lock\<close>: any number of transfers of one destination side by
      side under the kernel's lock, as the step relation \<open>system_step\<close>; the handles on the lock a transfer
      has at a phase (\<open>handles\<close>) are kept apart from what it may still do there (\<open>under_way\<close>,
      \<open>may_write\<close>), and the kernel drops the lock with the last handle. \<open>Attempts\<close>: \<open>attempt\<close> cut at its
      await, for attempts on one file in any number of processes that share the data directory and its
      stamps and keep their own memory (\<open>fleet_step\<close>).
    \<^item> \<open>Geo_Record\<close>: \<open>geoip/record.rs\<close>. \<open>Extra\<close>: \<open>geoip/extra.rs\<close>. \<open>Enricher\<close>: \<open>geoip/enricher.rs\<close> and
      \<open>geoip/refresh.rs\<close>, the engine as the record \<open>geoip\<close>, over any cache that keeps the laws of the
      locale \<open>answer_cache\<close>, interpreted on a cache of bounded capacity. \<open>Cache_Swap\<close>: the steps of
      concurrent misses and of one swap, interleaved freely as an inductive step relation.
      \<open>Coalescing\<close>: whole lookups under way over those steps, with the placeholders by which lookups of
      one cold address wait for one of them (\<open>flight_step\<close>). \<open>Telemetry\<close>: what the downloads, the
      engine and the tables report to a metrics recorder.
    \<^item> \<open>Mmdb_Wire\<close>: the MaxMind DB encoders of \<open>geoip/mmdb_wire.rs\<close>, the databases \<open>verify/fixtures.rs\<close>
      builds with them and the hostile files crafted for \<open>extra.rs\<close>, over the format itself as an
      inductive relation between bytes and values (\<open>stored\<close>); the reader stays a parameter.

  What the lemmas show. Of the readers: the CSV machine reads the files of its language that
  cost no more than the ceiling and no others, however the input is cut; one widening pass over JSON
  gives the table two passes would, and an array of objects is read exactly when their texts and rows
  fit; what a loaded table holds, rows, names and index together, never passes the ceiling.
  What is written in a file is what a query or a key is answered with. Of the table: every key leads to its rows and no others, an address to
  its most specific range, a query to exactly the rows that satisfy it, and iterations end within
  the sizes they report. Of the download: a transfer that fails leaves the copy in place untouched, one that succeeds put there
  bytes that passed every check, a refusal keeps the next attempt from asking, in whichever process
  it is made, a copy on disk is never given up, credentials reach the requests alone. Of transfers side by side: the steps of one
  alone are the transfer in one piece; however they interleave, are cancelled or die, each copy gave
  way only to a file checked beside it, whoever may still write holds the lock and the steps of whoever
  holds it alone end with the lock free; without locks a run places bytes nobody checked. Of a configuration: it reads
  back as it was, credentials redacted. Of the reports: the age is that of what is served, the backing
  gauges name the backing in use. Of the lookups: a cached answer is the
  answer of the databases now installed, whatever was interleaved, a cold address is read once however
  many ask, a lookup that waits is answered within a few steps of the one it waits for and its own, and
  which records JSON loses or changes is said exactly. Of the encoding: a value
  written is the one value stored where it was written, so the crafted files hold what they are meant
  to, and the walk over them keeps within its bounds. This theory adds what only the parts together give: a table downloaded is a table
  loaded, a database provisioned is one the enricher takes, and a database replaced by a transfer is
  the one answered from after the next refresh.

  Bounds and fuel. Every definition is total: the walks that are not structural (\<open>next_match\<close>, \<open>drain\<close>,
  \<open>collect_fields\<close>, \<open>collect_rows\<close>, \<open>trim_start\<close>, \<open>replace_all\<close>, \<open>until_space\<close>) carry termination proofs,
  and no fuel is used; the count of steps \<open>advance_many\<close> takes is any number, and that some number ends
  a transfer is a theorem. Counts kept in \<open>u64\<close> saturate at \<open>u64_max\<close> as the code's do; lengths in memory are naturals.

  Idealisations. An attempt, a lookup and a refresh run to their end before the next in the
  sequential theories; \<open>Cache_Swap\<close>, \<open>Coalescing\<close>, \<open>Transfer_Lock\<close> and \<open>Attempts\<close> interleave. A step of a transfer is
  what runs between two awaits or one file operation of its blocking step; a batch written by the pool
  lands whole or, in a crash, in part. The placeholders of \<open>quick_cache\<close> are as it documents them. In
  \<open>Fetch\<close> and \<open>Transfer_Steps\<close> a file does not change under the operation that reads it. The bytes a
  memory map shows are those of the file when it was opened. \<open>Path\<close> is the text it displays as, on a
  Unix system. In one run of one piece a file operation fails always or never (\<open>io_faults\<close> is a function
  of the operation); transfers side by side have one such function each. A lookup that waits reads the
  cache once the placeholder is gone, where \<open>quick_cache\<close> hands it the answer even if it was dropped
  since. A reader that gives a decode up, past \<open>maxminddb\<close>'s own cap on the values one decode expands,
  is a fault inside the decoded record. Wire values are the names, maps and sequences serde hands over. Ages are in whole
  seconds, and how long a lookup took is not kept. A task of the runtime that panics is not modelled.

  Not modelled: log calls beyond \<open>Log_Lines\<close> and the announcements of \<open>Cooldown\<close> (they read state and
  change none), the HTTP client's own construction beyond that it can fail, the stand-ins of builds
  without metrics (they do nothing), \<open>lib.rs\<close> and \<open>geoip/mod.rs\<close> but for one constant (re-exports), the
  hold a test takes on a read (\<open>pause\<close> in \<open>enricher.rs\<close>), and the assertions of the tests and
  benchmarks with the servers, archives and holds they use (\<open>testkit.rs\<close>). The language of JSON documents
  is \<open>serde_json\<close>'s and is not stated.
\<close>


section \<open>A table downloaded is a table loaded\<close>

lemma opened_reader_same: "read_content F w p = read_content F w' p' \<Longrightarrow> opened_reader F w p = opened_reader F w' p'"
  by (simp add: opened_reader_def)

lemma run_transfer_placed:
  assumes "run_transfer V t g w = (Inr p, w')"
  shows "p = tr_dest t \<and> files w' (tr_dest t) \<noteq> None
    \<and> passed_checks (env_platform V) (env_faults V) t g w (file_text w' (tr_dest t))"
proof -
  from assms have "fetch_transfer (env_platform V) (env_faults V) (env_net V) (env_lock V (tr_dest t)) t g
      MAX_BODY_BYTES w = (Inr p, w')" by (simp add: run_transfer_def run_guarded_def)
  then show ?thesis
  proof (cases rule: fetch_transfer_cases)
    case (late n w1 w2 x)
    from finish_transfer_ok [OF late(4)] passed_checks_trans [OF late(1)] show ?thesis by blast
  qed simp
qed

lemma settled_copy: "files (settle_attempt F dest fp (Inr x) w) dest = files w dest"
  by (simp add: settle_attempt_file)

text \<open>C14: a table that is downloaded, because it was not fresh, is answered by the load of the bytes just
  placed, under the same format, columns, key and ceiling, and those bytes passed every check of that
  transfer: what the guard of the download accepted, the load that follows it accepts too.\<close>

theorem downloaded_table_loads:
  assumes "validate_source (env_platform V) s = Inr ()"
    and "check_settings auto (src_http_client s \<noteq> None) = Inr ()" and "client_for V (src_http_client s) = Inr ()"
    and "ad_enabled auto"
    and "\<not> is_fresh (env_faults V) w (table_path s auto) (ad_max_age_days auto * SECS_PER_DAY)"
    and "attempt_fetch (env_faults V) (Some (table_path s auto))
        (fingerprint (env_hash V) [table_transfer s (table_path s auto)])
        (run_transfer V (table_transfer s (table_path s auto))
           (guard_for_table (src_format s) (src_schema s) (src_index s) auto)) w = (Ran (Inr p), w')"
    and "env_faults V (ReadFile (table_path s auto)) = None"
  shows "\<exists>t. ensure_table V s auto w = (Inr t, w')
    \<and> read_file (pf_prefixes (env_platform V)) (pf_alloc (env_platform V)) (pf_document (env_platform V))
        (pf_json_text (env_platform V)) (Inr [Inr (file_text w' (table_path s auto))]) (src_format s) (src_schema s)
        (src_index s) (ad_resident_max_bytes auto) = Inr t
    \<and> passed_checks (env_platform V) (env_faults V) (table_transfer s (table_path s auto))
        (guard_for_table (src_format s) (src_schema s) (src_index s) auto)
        (snd (wait_for (env_faults V) w (table_path s auto)
          (fingerprint (env_hash V) [table_transfer s (table_path s auto)])))
        (file_text w' (table_path s auto))"
proof -
  let ?dest = "table_path s auto" and ?F = "env_faults V"
  let ?t = "table_transfer s ?dest" and ?g = "guard_for_table (src_format s) (src_schema s) (src_index s) auto"
  let ?fp = "fingerprint (env_hash V) [?t]"
  obtain w1 w2 where waited: "wait_for ?F w ?dest ?fp = (None, w1)" and run: "run_transfer V ?t ?g w1 = (Inr p, w2)"
    and w': "w' = settle_attempt ?F ?dest ?fp (Inr p) w2"
    using assms(6) by (auto simp: attempt_fetch_def split: option.splits prod.splits)
  from run_transfer_placed [OF run] have there: "files w2 ?dest \<noteq> None"
    and checks: "passed_checks (env_platform V) ?F ?t ?g w1 (file_text w2 ?dest)" by simp_all
  from checks obtain u where staged: "read_content ?F u (with_extension ?dest STAGE_EXT) = Inr (file_text w2 ?dest)"
    and admitted: "admit (env_platform V) ?F u ?g (with_extension ?dest STAGE_EXT) ?dest (tr_format ?t) = Inr ()"
    by (auto simp: passed_checks_def)
  have same: "file_text w' ?dest = file_text w2 ?dest" by (simp add: w' file_text_def settled_copy)
  have "read_content ?F w' ?dest = Inr (file_text w2 ?dest)"
    using there assms(7) by (auto simp: w' read_content_def file_text_def settled_copy)
  then have reader: "opened_reader ?F w' ?dest = Inr [Inr (file_text w' ?dest)]" by (simp add: opened_reader_def same)
  with staged have "opened_reader ?F u (with_extension ?dest STAGE_EXT) = opened_reader ?F w' ?dest"
    by (simp add: opened_reader_def same)
  with admitted_table_loads [OF admitted] obtain t where t: "load_here V s auto w' = Inr t"
    by (auto simp: load_here_def)
  have "refresh_table V s auto ?dest w = (Inr (), w')"
    using assms(2,3,6) by (simp add: refresh_table_def Let_def)
  then have "ensure_table V s auto w = (load_here V s auto w', w')" using assms(1,4,5) by (simp add: ensure_table_load)
  with t checks waited same reader show ?thesis by (simp add: load_here_def)
qed

section \<open>A database provisioned is a database opened\<close>

lemma sources_are_mmdb: "s \<in> set SOURCES \<Longrightarrow> ss_format s = MmdbFormat"
  by (auto simp: SOURCES_def db_ip_source_def maxmind_source_def sapics_source_def)

lemma selected_is_listed: "select_source ch k = Inr (Some s) \<Longrightarrow> s \<in> set SOURCES"
  by (auto simp: select_source_def find_source_def find_Some_iff split: option.splits if_splits)

lemma resolved_is_one_mmdb:
  assumes "resolve_database V k c w = (Some d, w')"
  shows "\<exists>p. d = \<lparr> db_format = MmdbFormat, db_files = [p] \<rparr>"
proof (cases "explicit_path k c")
  case (Some p)
  with assms show ?thesis by (auto simp: resolve_database_def)
next
  case None
  with assms obtain s where s: "select_source (kind_choice k (gc_provider c)) k = Inr (Some s)"
    by (auto simp: resolve_database_def split: sum.splits option.splits)
  then have mmdb: "ss_format s = MmdbFormat" by (rule sources_are_mmdb [OF selected_is_listed])
  let ?d = "database_at (source_database s) (ad_data_dir (gc_auto_download c))"
  have d: "?d = \<lparr> db_format = MmdbFormat, db_files = [source_path c s] \<rparr>"
    using mmdb by (simp add: database_at_def source_database_def source_path_def)
  have "d = ?d" if "acquire V k c ?d w = (Some d, w')"
  proof -
    obtain tried w1 where at: "attempt_fetch (env_faults V) (first_file ?d) (asked_of V k c) (download_kind V k c) w =
        (tried, w1)" by fastforce
    have "ps = [source_path c s]" if "tried = Ran (Inr ps)" for ps
      using at that attempt_success [of "env_faults V" "source_path c s" _ "download_kind V k c" w ps w1]
        download_kind_copy [OF s] by (fastforce simp: d first_file_def source_path_def)
    with that at show ?thesis
      by (auto simp: acquire_def d Let_def split: attempt.splits sum.splits if_splits)
  qed
  with assms None s show ?thesis
    by (auto simp: resolve_database_def Let_def d split: if_splits)
qed

lemma map_err_Inl: "map_err f r = Inl e \<Longrightarrow> \<exists>x. e = f x"
  by (cases r) auto

lemma open_geoip_fault:
  "open_geoip L opens F w paths cfg = Inl e \<Longrightarrow> \<exists>p detail. e = OpenFailed p detail \<and> Some p \<in> {dp_city paths, dp_asn paths}"
  by (auto simp: open_geoip_def transposed_def and_then_Inl_iff open_source_def open_backing_def open_reader_def
      split: option.splits if_splits sum.splits dest!: map_err_Inl)

lemma one_mmdb_path:
  assumes "\<And>d. x = Some d \<Longrightarrow> \<exists>p. d = \<lparr> db_format = MmdbFormat, db_files = [p] \<rparr>"
  shows "\<exists>p. mmdb_path x kind = Inr p \<and> (\<forall>q. p = Some q \<longrightarrow> (\<exists>d. x = Some d \<and> db_files d = [q]))"
proof (cases x)
  case (Some d)
  with assms [OF Some] show ?thesis by (auto simp: mmdb_path_def)
qed (simp add: mmdb_path_def)

text \<open>C33: what provisioning resolves, the enricher takes: opening over it either succeeds or names one of
  its files and what the reader said of it, and never refuses a database for its format or for
  having no file.\<close>

theorem resolved_databases_are_openable:
  assumes "ensure_databases V c w = (Inr dbs, w')"
    and "from_databases L opens F u (dbs_city dbs, dbs_asn dbs) cfg = Inl e"
  shows "\<exists>p detail. e = OpenFailed p detail
    \<and> (\<exists>d. (dbs_city dbs = Some d \<or> dbs_asn dbs = Some d) \<and> db_files d = [p])"
proof -
  have one: "\<exists>p. d = \<lparr> db_format = MmdbFormat, db_files = [p] \<rparr>" if "dbs_city dbs = Some d \<or> dbs_asn dbs = Some d" for d
    using assms(1) that resolved_is_one_mmdb
    by (fastforce simp: ensure_databases_def Let_def split: if_splits prod.splits)
  obtain p where p: "mmdb_path (dbs_city dbs) ''city'' = Inr p"
    "\<forall>q. p = Some q \<longrightarrow> (\<exists>d. dbs_city dbs = Some d \<and> db_files d = [q])"
    using one_mmdb_path one by meson
  obtain q where q: "mmdb_path (dbs_asn dbs) ''asn'' = Inr q"
    "\<forall>r. q = Some r \<longrightarrow> (\<exists>d. dbs_asn dbs = Some d \<and> db_files d = [r])"
    using one_mmdb_path one by meson
  from assms(2) p(1) q(1) have "open_geoip L opens F u \<lparr> dp_city = p, dp_asn = q \<rparr> cfg = Inl e"
    by (simp add: from_databases_def)
  from open_geoip_fault [OF this] p(2) q(2) show ?thesis by auto
qed

section \<open>A database replaced is a database answered from\<close>

lemma moved_file_is_reopened:
  assumes "F (Metadata (so_path s)) = None" and "F (ReadFile (so_path s)) = None"
    and "files w (so_path s) = Some f" and "Some (mtime f) \<noteq> so_mtime s" and "opens (content f) = Inr rd"
  shows "\<exists>b s'. refresh_half opens F w limit half (Some s) = (Some b, Some s', True, None) \<and> backing_reader b = rd"
  using assms
  by (simp add: refresh_half_def reopen_def file_mtime_def open_backing_def open_reader_def read_content_def
      file_len_def file_length_def)

text \<open>C15: when a transfer with verification on has replaced the city database of an engine, and the file's
  time is not the one the engine recorded, the next refresh opens the bytes that were placed, which the
  guard found fit to open, and every lookup of a public address from then on answers from them,
  whatever was cached before. The engine's reader is taken to open whatever the guard's opened.\<close>

theorem replaced_database_is_answered_from:
  assumes "answer_cache L" and "engine_reachable L opens F g" and "gi_city_source g = Some s"
    and "run_transfer V t (guard_new City auto) w = (Inr (so_path s), w')"
    and "env_faults V = F" and "ad_verify_content auto" and "tr_format t = MmdbFormat"
    and "\<forall>bs. pf_open_mmdb (env_platform V) bs \<noteq> None \<longrightarrow> (\<exists>rd. opens bs = Inr rd)"
    and "F (Metadata (so_path s)) = None" and "F (ReadFile (so_path s)) = None"
    and "file_mtime F w' (so_path s) \<noteq> so_mtime s"
  shows "let g' = snd (refresh_if_changed L opens F w' g) in
    \<exists>b. rdr_city (gi_readers g') = Some b \<and> opens (file_text w' (so_path s)) = Inr (backing_reader b)
      \<and> (\<forall>now ip. \<not> is_private ip \<longrightarrow>
           fst (lookup L now ip g') = read_address (gi_readers g') ip (gi_collect_extra_fields g'))"
proof -
  from run_transfer_placed [OF assms(4)] assms(5) obtain u f where dest: "so_path s = tr_dest t"
    and f: "files w' (so_path s) = Some f"
    and staged: "read_content F u (with_extension (tr_dest t) STAGE_EXT) = Inr (content f)"
    and admitted: "admit (env_platform V) F u (guard_new City auto) (with_extension (tr_dest t) STAGE_EXT)
        (tr_dest t) MmdbFormat = Inr ()"
    using assms(7) by (auto simp: passed_checks_def file_text_def)
  from admitted_database_opens [OF admitted assms(6)] staged assms(8)
  obtain rd where rd: "opens (content f) = Inr rd" by auto
  have "Some (mtime f) \<noteq> so_mtime s" using assms(9,11) f by (simp add: file_mtime_def)
  from moved_file_is_reopened [where F = F and opens = opens, OF assms(9,10) f this rd]
  obtain b s' where half: "refresh_half opens F w' (gi_resident_max_bytes g) (rdr_city (gi_readers g)) (Some s) =
      (Some b, Some s', True, None)" "backing_reader b = rd" by blast
  let ?g = "snd (refresh_if_changed L opens F w' g)"
  have "rdr_city (gi_readers ?g) = Some b"
    using half assms(3) by (simp add: refresh_if_changed_def swap_readers_def Let_def split: prod.split)
  moreover have "fst (lookup L now ip ?g) = read_address (gi_readers ?g) ip (gi_collect_extra_fields ?g)"
    if "\<not> is_private ip" for now ip
    using answer_cache.lookup_answer [OF assms(1) reachable_valid [OF assms(1) engine_reachable.refreshed [OF assms(2)]]]
      that by simp
  ultimately show ?thesis using half rd f by (auto simp: Let_def file_text_def)
qed


section \<open>Where they apply\<close>

definition serving_rows :: server where
  "serving_rows = answering 200 [Inr ''[..]'']"

definition empty_disk :: world where
  "empty_disk = \<lparr> files = Map.empty, clock = 1000, suppressions = (\<lambda>_. None), announced = [] \<rparr>"

lemma rows_downloaded:
  "\<exists>w'. attempt_fetch (env_faults (demo_env serving_rows)) (Some ''d/rows.json'') fp
     (run_transfer (demo_env serving_rows) (table_transfer rows_source ''d/rows.json'')
        (guard_for_table (src_format rows_source) (src_schema rows_source) (src_index rows_source) rows_settings))
     empty_disk = (Ran (Inr ''d/rows.json''), w')"
  by (simp add: attempt_fetch_def wait_for_def suppressed_def stamped_until_def empty_disk_def no_faults_env
      run_transfer_def transfer_eval serving_rows_def table_transfer_def rows_source_def table_source_new_def
      demo_env_def demo_platform_def starts_with_def to_ascii_lowercase_def ascii_lower_def between_def
      admit_def guard_for_table_def rows_settings_def demo_settings_def auto_download_default_def check_size_def
      parses_as_table_def probe_table_def read_file_def opened_reader_def read_table_def ragged_document_reads
      build_eval rename_file_def)

theorem downloaded_table_loads_witness:
  "\<exists>t w'. ensure_table (demo_env serving_rows) rows_source rows_settings empty_disk = (Inr t, w')
     \<and> read_file (net_library short_nets) doubling (\<lambda>_. ragged_document) (\<lambda>_. ''true'')
         (Inr [Inr (file_text w' ''d/rows.json'')]) (src_format rows_source) (src_schema rows_source) (src_index rows_source)
         (ad_resident_max_bytes rows_settings) = Inr t"
proof -
  let ?V = "demo_env serving_rows"
  obtain w' where at: "attempt_fetch (env_faults ?V) (Some (table_path rows_source rows_settings))
      (fingerprint (env_hash ?V) [table_transfer rows_source (table_path rows_source rows_settings)])
      (run_transfer ?V (table_transfer rows_source (table_path rows_source rows_settings))
         (guard_for_table (src_format rows_source) (src_schema rows_source) (src_index rows_source) rows_settings))
      empty_disk = (Ran (Inr ''d/rows.json''), w')"
    using rows_downloaded by (auto simp: rows_source_ready(4))
  have on: "ad_enabled rows_settings"
    by (simp add: rows_settings_def demo_settings_def auto_download_default_def)
  have "\<not> is_fresh (env_faults ?V) empty_disk p n" for p n
    by (simp add: is_fresh_def no_faults_env empty_disk_def)
  from downloaded_table_loads [OF rows_source_ready(1-3) on this at no_faults_env] obtain t
    where "ensure_table ?V rows_source rows_settings empty_disk = (Inr t, w')"
      "read_file (pf_prefixes (env_platform ?V)) (pf_alloc (env_platform ?V)) (pf_document (env_platform ?V))
        (pf_json_text (env_platform ?V)) (Inr [Inr (file_text w' (table_path rows_source rows_settings))])
        (src_format rows_source) (src_schema rows_source) (src_index rows_source)
        (ad_resident_max_bytes rows_settings) = Inr t" by blast
  then show ?thesis
    by (intro exI [of _ t] exI [of _ w']) (simp add: rows_source_ready(4) demo_env_def demo_platform_def)
qed

theorem resolved_databases_are_openable_witness:
  "\<exists>p detail. from_databases recent_lib (\<lambda>_. Inl ''truncated'') no_faults (one_file ''city.mmdb'' ''x'')
     (Some \<lparr> db_format = MmdbFormat, db_files = [''city.mmdb''] \<rparr>, Some \<lparr> db_format = MmdbFormat, db_files = [''asn.mmdb''] \<rparr>)
     cache_config_default = Inl (OpenFailed p detail)"
proof -
  let ?c = "geoip_config_default\<lparr> gc_city_db_path := Some ''city.mmdb'', gc_asn_db_path := Some ''asn.mmdb'' \<rparr>"
  let ?dbs = "\<lparr> dbs_city = Some \<lparr> db_format = MmdbFormat, db_files = [''city.mmdb''] \<rparr>,
      dbs_asn = Some \<lparr> db_format = MmdbFormat, db_files = [''asn.mmdb''] \<rparr> \<rparr>"
  let ?open = "from_databases recent_lib (\<lambda>_. Inl ''truncated'') no_faults (one_file ''city.mmdb'' ''x'')
      (dbs_city ?dbs, dbs_asn ?dbs) cache_config_default"
  have resolved: "ensure_databases (demo_env serving_rows) ?c empty_disk = (Inr ?dbs, empty_disk)"
    by (simp add: ensure_databases_def resolve_database_def geoip_config_default_def)
  have "\<exists>e. ?open = Inl e"
    by (simp add: from_databases_def mmdb_path_def open_geoip_def transposed_def open_source_def open_backing_def
        open_reader_def read_content_def no_faults_def one_file_def file_len_def file_length_def)
  then obtain e where e: "?open = Inl e" by blast
  from resolved_databases_are_openable [OF resolved e] e show ?thesis by auto
qed

definition city_transfer :: transfer where
  "city_transfer = rows_transfer\<lparr> tr_format := MmdbFormat \<rparr>"

definition new_bytes :: str where
  "new_bytes = ''N'' @ MMDB_MARKER"

lemma trim_new_bytes: "trim new_bytes = new_bytes"
proof -
  have b: "new_bytes = [CHR ''N'', CHR 0xAB, CHR 0xCD, CHR 0xEF] @ ''MaxMind.com''"
    by (simp add: new_bytes_def MMDB_MARKER_def)
  show ?thesis
    by (simp add: b trim_def trim_start.simps [of "CHR ''N'' # xs" for xs]
        trim_end.simps [of "CHR ''N'' # xs" for xs] space_head_def space_tail_def)
qed

lemma city_replaced:
  "\<exists>w'. run_transfer (demo_env (answering 200 [Inr new_bytes])) city_transfer (guard_new City demo_settings)
     (one_file ''db'' ''1'') = (Inr ''db'', w') \<and> files w' ''db'' = Some \<lparr> content = new_bytes, mtime = 0 \<rparr>"
  by (simp add: run_transfer_def transfer_eval city_transfer_def demo_env_def one_file_def admit_def guard_new_def
      check_size_def demo_settings_def auto_download_default_def sat_mul_def PERCENT_def probe_mmdb_def
      demo_platform_def PROBE_ADDRESSES_def answers_probe_def COUNTRY_PATHS_def new_bytes_def
      MMDB_MARKER_def METADATA_TAIL_BYTES_def starts_with_def rename_file_def
      trim_new_bytes [unfolded new_bytes_def MMDB_MARKER_def, simplified])

theorem replaced_database_is_answered_from_witness:
  "let w' = snd (run_transfer (demo_env (answering 200 [Inr new_bytes])) city_transfer (guard_new City demo_settings)
       (one_file ''db'' ''1''));
     g' = snd (refresh_if_changed recent_lib named_opener no_faults w' city_engine) in
   map_option city_name (fst (lookup recent_lib 9 (V4 0x08080808) g')) = Some (Some new_bytes)"
proof -
  let ?V = "demo_env (answering 200 [Inr new_bytes])" and ?s = "\<lparr> so_path = ''db'', so_mtime = Some 5 \<rparr>"
  obtain w' where run: "run_transfer ?V city_transfer (guard_new City demo_settings) (one_file ''db'' ''1'') = (Inr ''db'', w')"
    and f: "files w' ''db'' = Some \<lparr> content = new_bytes, mtime = 0 \<rparr>" using city_replaced by blast
  let ?g = "snd (refresh_if_changed recent_lib named_opener no_faults w' city_engine)"
  have "let g' = ?g in
    \<exists>b. rdr_city (gi_readers g') = Some b \<and> named_opener (file_text w' (so_path ?s)) = Inr (backing_reader b)
      \<and> (\<forall>now ip. \<not> is_private ip \<longrightarrow>
           fst (lookup recent_lib now ip g') = read_address (gi_readers g') ip (gi_collect_extra_fields g'))"
  proof (rule replaced_database_is_answered_from)
    show "run_transfer ?V city_transfer (guard_new City demo_settings) (one_file ''db'' ''1'') = (Inr (so_path ?s), w')"
      using run by simp
    show "engine_reachable recent_lib named_opener no_faults city_engine"
      by (rule engine_reachable.opened [OF city_opened])
  qed (simp_all add: recent.answer_cache_axioms f city_engine_def no_faults_def demo_env_def demo_settings_def
      auto_download_default_def city_transfer_def named_opener_def file_mtime_def)
  then obtain b where b: "rdr_city (gi_readers ?g) = Some b" "backing_reader b = named_reader new_bytes"
    "fst (lookup recent_lib 9 (V4 0x08080808) ?g) =
       read_address (gi_readers ?g) (V4 0x08080808) (gi_collect_extra_fields ?g)"
    using public_address f by (auto simp: Let_def named_opener_def file_text_def simp del: is_private.simps)
  have "rdr_asn (gi_readers ?g) = None"
    by (simp add: refresh_if_changed_def refresh_half_def city_engine_def swap_readers_def Let_def split: prod.split)
  with b have "map_option city_name (fst (lookup recent_lib 9 (V4 0x08080808) ?g)) = Some (Some new_bytes)"
    by (cases "backing_reader b") (simp add: read_eval named_reader_def split: if_splits)
  then show ?thesis using run by simp
qed

end
